(* ===== verification/Prelude.thy ===== *)
theory Prelude
  imports Main "HOL-Library.Word"
begin

unbundle bit_operations_syntax

text \<open>
  Shared vocabulary of the development: the fixed-width integer types of the
  code (\<open>uint8_t\<close>, \<open>uint16_t\<close>, \<open>uint32_t\<close>), the collections of rewrite rules
  the component theories extend, and the facts on words, lists and predicates
  that more than one component needs.
\<close>

section \<open>Machine integers\<close>

type_synonym u8 = "8 word"
type_synonym u16 = "16 word"
type_synonym u32 = "32 word"
type_synonym bytes = "u8 list"

text \<open>
  \<open>wire_simps\<close> collects the rules that evaluate the encoder and the decoder on
  symbolic packets, \<open>io_simps\<close> those that execute the monadic operations, and
  \<open>frame_simps\<close> those that say which part of the world an operation leaves alone.
\<close>

named_theorems wire_simps
named_theorems io_simps
named_theorems frame_simps

section \<open>Words\<close>

lemma unat_u8_less: "unat (b :: u8) < 256"
  using unsigned_less [of b] by (simp add: nat_less_iff)

lemma unat_ucast_u8_u32 [simp]: "unat (ucast (b :: u8) :: u32) = unat b"
  using unat_u8_less [of b] by (simp add: unsigned_ucast_eq take_bit_nat_eq_self)

lemma ucast_u8_u32_inject [simp]: "(ucast (a :: u8) :: u32) = ucast b \<longleftrightarrow> a = b"
  by (metis unat_ucast_u8_u32 word_unat_eq_iff)

lemma xor_word_cancel_left: "(a :: 'a::len word) XOR b = a XOR c \<longleftrightarrow> b = c"
  by (metis xor.left_commute xor_self_eq xor.right_neutral)

lemma xor_word_cancel_right: "(b :: 'a::len word) XOR a = c XOR a \<longleftrightarrow> b = c"
  by (metis xor_word_cancel_left xor.commute)

lemma unat_of_nat_u32: "n \<le> 1024 \<Longrightarrow> unat (of_nat n :: u32) = n"
  by (simp add: unat_of_nat take_bit_nat_eq_self)

section \<open>Lists\<close>

lemma take_append_exact [simp]: "n = length xs \<Longrightarrow> take n (xs @ ys) = xs"
  by simp

lemma drop_append_exact [simp]: "n = length xs \<Longrightarrow> drop n (xs @ ys) = ys"
  by simp

lemma concat_eq_Nil_nonempty: "[] \<notin> set xss \<Longrightarrow> concat xss = [] \<longleftrightarrow> xss = []"
  by (cases xss) auto

lemma distinct_snoc: "distinct (xs @ [x]) \<longleftrightarrow> distinct xs \<and> x \<notin> set xs"
  by auto

end
