(* ===== verification/Crc32.thy ===== *)
theory Crc32
  imports Prelude
begin

text \<open>
  The checksum of \<open>src/protocol/crc32.cpp\<close>: the bit-serial loop as the code has
  it, its algebra over XOR, the table-driven routine it is equivalent to, and
  the errors it detects.
\<close>

section \<open>The code\<close>

definition crc_poly :: u32 where
  "crc_poly = 0xEDB88320"

text \<open>The body of the inner loop.\<close>

definition crc_bit :: "u32 \<Rightarrow> u32" where
  "crc_bit crc =
     (if crc AND 1 \<noteq> 0 then drop_bit 1 crc XOR crc_poly else drop_bit 1 crc)"

text \<open>The body of the outer loop: one input byte, then eight passes of the inner loop.\<close>

fun crc_bits :: "nat \<Rightarrow> u32 \<Rightarrow> u32" where
  "crc_bits 0 crc = crc"
| "crc_bits (Suc n) crc = crc_bits n (crc_bit crc)"

definition crc_byte :: "u32 \<Rightarrow> u8 \<Rightarrow> u32" where
  "crc_byte crc b = crc_bits 8 (crc XOR ucast b)"

fun crc_loop :: "u32 \<Rightarrow> bytes \<Rightarrow> u32" where
  "crc_loop crc [] = crc"
| "crc_loop crc (b # bs) = crc_loop (crc_byte crc b) bs"

definition crc32 :: "bytes \<Rightarrow> u32" where
  "crc32 data = crc_loop 0xFFFFFFFF data XOR 0xFFFFFFFF"

section \<open>Algebra of the register\<close>

lemma crc_bit_odd: "crc_bit crc = drop_bit 1 crc XOR (if bit crc 0 then crc_poly else 0)"
  by (simp add: crc_bit_def and_one_eq odd_iff_mod_2_eq_one bit_0)

lemma crc_bit_xor: "crc_bit (a XOR b) = crc_bit a XOR crc_bit b"
  by (rule bit_word_eqI) (auto simp: crc_bit_odd bit_xor_iff bit_drop_bit_eq)

lemma crc_bit_0 [simp]: "crc_bit 0 = 0"
  by (simp add: crc_bit_def)

lemma crc_bits_xor: "crc_bits n (a XOR b) = crc_bits n a XOR crc_bits n b"
  by (induction n arbitrary: a b) (simp_all add: crc_bit_xor)

lemma crc_bits_0 [simp]: "crc_bits n 0 = 0"
  by (induction n) simp_all

lemma crc_bits_add: "crc_bits (m + n) a = crc_bits n (crc_bits m a)"
  by (induction m arbitrary: a) simp_all

lemma crc_bits_Suc_right: "crc_bits (Suc n) a = crc_bit (crc_bits n a)"
  by (induction n arbitrary: a) simp_all

text \<open>
  The polynomial has its top bit set, so the shifted-out bit can be read off the
  result: a pass of the inner loop loses nothing.
\<close>

lemma crc_poly_top: "bit crc_poly 31"
  by (simp add: crc_poly_def bit_numeral_rec)

lemma crc_bit_top: "bit (crc_bit a) 31 \<longleftrightarrow> bit a 0"
proof -
  have "\<not> bit a 32"
    using bit_imp_le_length [of a 32] by auto
  then show ?thesis
    by (simp add: crc_bit_odd bit_xor_iff bit_drop_bit_eq crc_poly_top)
qed

lemma crc_bit_inject: "crc_bit a = crc_bit b \<longleftrightarrow> a = b"
proof
  assume eq: "crc_bit a = crc_bit b"
  then have low: "bit a 0 \<longleftrightarrow> bit b 0"
    by (metis crc_bit_top)
  with eq have "drop_bit 1 a = drop_bit 1 b"
    by (simp add: crc_bit_odd xor_word_cancel_right)
  then have high: "bit a (Suc n) \<longleftrightarrow> bit b (Suc n)" for n
    by (metis bit_drop_bit_eq comp_apply plus_1_eq_Suc)
  show "a = b"
  proof (rule bit_word_eqI)
    fix n
    show "bit a n \<longleftrightarrow> bit b n"
      using low high by (cases n) auto
  qed
qed simp

lemma crc_bits_inject: "crc_bits n a = crc_bits n b \<longleftrightarrow> a = b"
  by (induction n arbitrary: a b) (simp_all add: crc_bit_inject)

lemma crc_byte_inject_state: "crc_byte a x = crc_byte b x \<longleftrightarrow> a = b"
  by (simp add: crc_byte_def crc_bits_inject xor_word_cancel_right)

lemma crc_byte_inject_input: "crc_byte a x = crc_byte a y \<longleftrightarrow> x = y"
  by (simp add: crc_byte_def crc_bits_inject xor_word_cancel_left)

lemma crc_loop_append: "crc_loop c (xs @ ys) = crc_loop (crc_loop c xs) ys"
  by (induction xs arbitrary: c) simp_all

lemma crc_loop_inject_state: "crc_loop a xs = crc_loop b xs \<longleftrightarrow> a = b"
  by (induction xs arbitrary: a b) (simp_all add: crc_byte_inject_state)

lemma crc32_inject_loop: "crc32 xs = crc32 ys \<longleftrightarrow> crc_loop 0xFFFFFFFF xs = crc_loop 0xFFFFFFFF ys"
  by (simp add: crc32_def xor_word_cancel_right)

section \<open>Burst errors\<close>

text \<open>
  A byte string read as the low end of a register, first byte lowest. Up to four
  bytes fit, and feeding them one by one is feeding that register at once.
\<close>

fun le_word :: "bytes \<Rightarrow> u32" where
  "le_word [] = 0"
| "le_word (b # bs) = ucast b XOR push_bit 8 (le_word bs)"

lemma bit_le_word_high: "8 * length bs \<le> n \<Longrightarrow> \<not> bit (le_word bs) n"
proof (induction bs arbitrary: n)
  case (Cons b bs)
  then have "8 * length bs \<le> n - 8" and "8 \<le> n"
    by simp_all
  moreover have "\<not> bit b n"
    using \<open>8 \<le> n\<close> bit_imp_le_length [of b n] by auto
  ultimately show ?case
    using Cons.IH [of "n - 8"] by (simp add: bit_xor_iff bit_push_bit_iff bit_ucast_iff)
qed simp

lemma crc_bit_push_bit:
  assumes "\<not> bit (push_bit n a) 31"
  shows "crc_bit (push_bit (Suc n) a) = push_bit n a"
proof (rule bit_word_eqI)
  fix k assume "k < LENGTH(32)"
  with assms show "bit (crc_bit (push_bit (Suc n) a)) k \<longleftrightarrow> bit (push_bit n a) k"
    by (cases "k = 31") (auto simp del: push_bit_Suc simp: crc_bit_odd bit_drop_bit_eq bit_push_bit_iff)
qed

lemma crc_bits_push_bit:
  assumes "\<And>k. 32 \<le> k + n \<Longrightarrow> \<not> bit a k"
  shows "crc_bits n (push_bit n a) = a"
  using assms
proof (induction n arbitrary: a)
  case (Suc n)
  have low: "\<not> bit (push_bit n a) 31"
    using Suc.prems [of "31 - n"] by (auto simp: bit_push_bit_iff)
  have "crc_bits (Suc n) (push_bit (Suc n) a) = crc_bits n (push_bit n a)"
    by (simp only: crc_bits.simps crc_bit_push_bit [OF low])
  also have "\<dots> = a"
    using Suc.prems by (intro Suc.IH) simp
  finally show ?case .
qed simp

lemma crc_loop_le_word:
  "length bs \<le> 4 \<Longrightarrow> crc_loop c bs = crc_bits (8 * length bs) (c XOR le_word bs)"
proof (induction bs arbitrary: c)
  case (Cons b bs)
  have "\<not> bit (le_word bs) k" if "32 \<le> k + 8" for k
    using that Cons.prems by (intro bit_le_word_high) simp
  then have shifted: "crc_bits 8 (push_bit 8 (le_word bs)) = le_word bs"
    by (rule crc_bits_push_bit)
  have "crc_loop c (b # bs)
      = crc_bits (8 * length bs) (crc_bits 8 (c XOR ucast b) XOR le_word bs)"
    using Cons by (simp add: crc_byte_def)
  also have "\<dots> = crc_bits (8 * length bs) (crc_bits 8 ((c XOR ucast b) XOR push_bit 8 (le_word bs)))"
    by (simp only: crc_bits_xor [of 8 "c XOR ucast b"] shifted)
  also have "\<dots> = crc_bits (8 + 8 * length bs) (c XOR le_word (b # bs))"
    by (simp only: crc_bits_add le_word.simps xor.assoc)
  finally show ?case
    by (simp add: algebra_simps)
qed simp

lemma le_word_low: "take_bit 8 (le_word (b # bs)) = ucast b"
proof (rule bit_word_eqI)
  fix n assume "n < LENGTH(32)"
  show "bit (take_bit 8 (le_word (b # bs))) n \<longleftrightarrow> bit (ucast b :: u32) n"
    using bit_imp_le_length [of b n]
    by (auto simp: bit_take_bit_iff bit_xor_iff bit_push_bit_iff bit_ucast_iff)
qed

lemma le_word_high:
  assumes "length bs \<le> 3"
  shows "drop_bit 8 (le_word (b # bs)) = le_word bs"
proof (rule bit_word_eqI)
  fix n assume n: "n < LENGTH(32)"
  have "\<not> bit b (8 + n)"
    using bit_imp_le_length [of b "8 + n"] by auto
  moreover have "bit (le_word bs) n \<Longrightarrow> n < 24"
    using bit_le_word_high [of bs n] assms by linarith
  ultimately show "bit (drop_bit 8 (le_word (b # bs))) n \<longleftrightarrow> bit (le_word bs) n"
    using n by (auto simp: bit_drop_bit_eq bit_xor_iff bit_push_bit_iff bit_ucast_iff)
qed

lemma le_word_inject:
  "length xs = length ys \<Longrightarrow> length ys \<le> 4 \<Longrightarrow> le_word xs = le_word ys \<longleftrightarrow> xs = ys"
proof (induction xs ys rule: list_induct2)
  case (Cons x xs y ys)
  have len: "length xs \<le> 3" "length ys \<le> 3"
    using Cons.prems Cons.hyps by simp_all
  show ?case
  proof
    assume eq: "le_word (x # xs) = le_word (y # ys)"
    have "x = y"
      using le_word_low [of x xs] le_word_low [of y ys] by (simp only: eq ucast_u8_u32_inject)
    moreover have "le_word xs = le_word ys"
      using le_word_high [OF len(1), of x] le_word_high [OF len(2), of y] by (simp only: eq)
    ultimately show "x # xs = y # ys"
      using Cons.IH Cons.prems by simp
  qed simp
qed simp

lemma crc32_burst:
  assumes "length xs = length ys" "length ys \<le> 4" "xs \<noteq> ys"
  shows "crc32 (ps @ xs @ ss) \<noteq> crc32 (ps @ ys @ ss)"
  using assms
  by (simp add: crc32_inject_loop crc_loop_append crc_loop_inject_state crc_loop_le_word
      crc_bits_inject xor_word_cancel_left le_word_inject)

section \<open>The table-driven routine\<close>

text \<open>The common implementation: one table look-up per byte.\<close>

definition crc_table :: "u8 \<Rightarrow> u32" where
  "crc_table i = crc_bits 8 (ucast i)"

definition crc_table_step :: "u32 \<Rightarrow> u8 \<Rightarrow> u32" where
  "crc_table_step crc b = crc_table (ucast crc XOR b) XOR drop_bit 8 crc"

lemma split_low_byte: "a = ucast (ucast a :: u8) XOR push_bit 8 (drop_bit 8 (a :: u32))"
  by (rule bit_word_eqI)
    (auto simp: bit_xor_iff bit_ucast_iff bit_push_bit_iff bit_drop_bit_eq)

lemma crc_bits_8_split: "crc_bits 8 a = crc_table (ucast a) XOR drop_bit 8 a"
proof -
  have "\<not> bit (drop_bit 8 a) k" if "32 \<le> k + 8" for k
    using that bit_imp_le_length [of a "8 + k"] by (auto simp: bit_drop_bit_eq)
  then have "crc_bits 8 (push_bit 8 (drop_bit 8 a)) = drop_bit 8 a"
    by (rule crc_bits_push_bit)
  then show ?thesis
    by (metis crc_bits_xor crc_table_def split_low_byte)
qed

lemma crc_byte_table: "crc_byte crc b = crc_table_step crc b"
proof -
  have "ucast (crc XOR ucast b) = (ucast crc XOR b :: u8)"
    by (rule bit_word_eqI) (auto simp: bit_xor_iff bit_ucast_iff)
  moreover have "drop_bit 8 (crc XOR ucast b) = drop_bit 8 crc"
    using bit_imp_le_length [of b]
    by (intro bit_word_eqI) (fastforce simp: bit_xor_iff bit_ucast_iff bit_drop_bit_eq)
  ultimately show ?thesis
    by (simp add: crc_byte_def crc_table_step_def crc_bits_8_split)
qed

lemma crc_loop_table: "crc_loop crc data = foldl crc_table_step crc data"
  by (induction data arbitrary: crc) (simp_all add: crc_byte_table)

section \<open>Polynomial division\<close>

text \<open>
  The textbook definition: a bit string is a polynomial over GF(2), highest
  coefficient first, and the checksum is the remainder of a long division. The
  generator is \<open>0x104C11DB7\<close>; its leading coefficient is implicit in a step
  that cancels the head of the dividend.
\<close>

fun xor_prefix :: "bool list \<Rightarrow> bool list \<Rightarrow> bool list" where
  "xor_prefix [] ys = ys"
| "xor_prefix (x # xs) [] = []"
| "xor_prefix (x # xs) (y # ys) = (x \<noteq> y) # xor_prefix xs ys"

lemma length_xor_prefix [simp]: "length (xor_prefix xs ys) = length ys"
  by (induction xs ys rule: xor_prefix.induct) simp_all

definition generator :: "bool list" where
  "generator = map (\<lambda>i. bit (0x04C11DB7 :: u32) (31 - i)) [0..<32]"

function poly_rem :: "bool list \<Rightarrow> bool list" where
  "poly_rem p =
     (if length p \<le> 32 then p
      else if hd p then poly_rem (xor_prefix generator (tl p))
      else poly_rem (tl p))"
  by pat_completeness auto
termination
  by (relation "measure length") auto

declare poly_rem.simps [simp del]

text \<open>The code works on the mirrored register: bit \<open>0\<close> is the highest coefficient.\<close>

definition reg_bits :: "u32 \<Rightarrow> bool list" where
  "reg_bits r = map (bit r) [0..<32]"

definition byte_bits :: "u8 \<Rightarrow> bool list" where
  "byte_bits b = map (bit b) [0..<8]"

definition message_bits :: "bytes \<Rightarrow> bool list" where
  "message_bits data = concat (map byte_bits data)"

text \<open>The reference: initial value all ones, thirty-two appended zeros, result inverted.\<close>

definition crc32_spec :: "bytes \<Rightarrow> bool list" where
  "crc32_spec data =
     map Not (poly_rem (xor_prefix (replicate 32 True) (message_bits data @ replicate 32 False)))"

subsection \<open>The register fed bit by bit\<close>

definition crc_in :: "u32 \<Rightarrow> bool \<Rightarrow> u32" where
  "crc_in r b = crc_bit (r XOR of_bool b)"

lemma take_bit_Suc_xor:
  "take_bit (Suc n) (w :: u32) = take_bit n w XOR push_bit n (of_bool (bit w n))"
  by (rule bit_word_eqI)
    (auto simp: bit_take_bit_iff bit_xor_iff bit_push_bit_iff bit_of_bool_iff less_Suc_eq)

lemma foldl_crc_in:
  "n \<le> 32 \<Longrightarrow> foldl crc_in c (map (bit w) [0..<n]) = crc_bits n (c XOR take_bit n (w :: u32))"
proof (induction n)
  case (Suc n)
  have "\<not> bit (of_bool (bit w n) :: u32) k" if "32 \<le> k + n" for k
    using that Suc.prems by (auto simp: bit_of_bool_iff)
  then have one: "crc_bits n (push_bit n (of_bool (bit w n))) = of_bool (bit w n)"
    by (rule crc_bits_push_bit)
  have "crc_bits (Suc n) (c XOR take_bit (Suc n) w)
      = crc_bit (crc_bits n ((c XOR take_bit n w) XOR push_bit n (of_bool (bit w n))))"
    by (simp only: crc_bits_Suc_right take_bit_Suc_xor xor.assoc)
  also have "\<dots> = crc_in (crc_bits n (c XOR take_bit n w)) (bit w n)"
    by (simp only: crc_bits_xor [of n "c XOR take_bit n w"] one crc_in_def)
  finally show ?case
    using Suc by simp
qed simp

lemma crc_byte_serial: "crc_byte c b = foldl crc_in c (byte_bits b)"
proof -
  have "byte_bits b = map (bit (ucast b :: u32)) [0..<8]"
    by (auto simp: byte_bits_def bit_ucast_iff)
  moreover have "take_bit 8 (ucast b :: u32) = ucast b"
    using bit_imp_le_length [of b]
    by (intro bit_word_eqI) (auto simp: bit_take_bit_iff bit_ucast_iff)
  ultimately show ?thesis
    using foldl_crc_in [of 8 c "ucast b"] by (simp add: crc_byte_def)
qed

lemma crc_loop_serial: "crc_loop c data = foldl crc_in c (message_bits data)"
  by (induction data arbitrary: c) (simp_all add: message_bits_def crc_byte_serial)

lemma xor_prefix_nth:
  "i < length ys \<Longrightarrow> xor_prefix xs ys ! i = ((i < length xs \<and> xs ! i) \<noteq> ys ! i)"
  by (induction xs ys arbitrary: i rule: xor_prefix.induct) (auto simp: nth_Cons split: nat.splits)

lemma generator_nth: "i < 32 \<Longrightarrow> generator ! i = bit crc_poly i"
proof -
  have "\<forall>i \<in> set [0..<32]. bit (0x04C11DB7 :: u32) (31 - i) = bit crc_poly i"
    by (simp add: crc_poly_def upt_rec bit_numeral_rec)
  then show "i < 32 \<Longrightarrow> generator ! i = bit crc_poly i"
    by (simp add: generator_def)
qed

lemma length_generator [simp]: "length generator = 32"
  by (simp add: generator_def)

lemma reg_bits_crc_bit:
  "xor_prefix (reg_bits (crc_bit r)) ys =
     xor_prefix (if bit r 0 then generator else []) (xor_prefix (tl (reg_bits r)) ys)"
proof (rule nth_equalityI)
  fix i assume "i < length (xor_prefix (reg_bits (crc_bit r)) ys)"
  then show "xor_prefix (reg_bits (crc_bit r)) ys ! i =
      xor_prefix (if bit r 0 then generator else []) (xor_prefix (tl (reg_bits r)) ys) ! i"
    using bit_imp_le_length [of r "Suc i"]
    by (auto simp: xor_prefix_nth reg_bits_def nth_tl crc_bit_odd bit_xor_iff bit_drop_bit_eq
        generator_nth)
qed simp

lemma reg_bits_toggle: "reg_bits (r XOR of_bool b) = (bit r 0 \<noteq> b) # tl (reg_bits r)"
  by (rule nth_equalityI)
    (auto simp: reg_bits_def nth_Cons nth_tl bit_xor_iff bit_of_bool_iff split: nat.splits)

lemma reg_bits_Cons: "reg_bits r = bit r 0 # tl (reg_bits r)"
  using reg_bits_toggle [of r False] by simp

lemma xor_prefix_zeros: "length xs = n \<Longrightarrow> xor_prefix xs (replicate n False) = xs"
  by (rule nth_equalityI) (simp_all add: xor_prefix_nth)

lemma poly_rem_serial:
  "poly_rem (xor_prefix (reg_bits r) (m @ replicate 32 False)) = reg_bits (foldl crc_in r m)"
proof (induction m arbitrary: r)
  case Nil
  have "length (reg_bits r) = 32"
    by (simp add: reg_bits_def)
  then show ?case
    by (simp add: xor_prefix_zeros poly_rem.simps)
next
  case (Cons b m)
  let ?s = "r XOR of_bool b" and ?z = "m @ replicate 32 False"
  have tail: "tl (reg_bits r) = tl (reg_bits ?s)" and head: "(bit r 0 \<noteq> b) = bit ?s 0"
    by (simp_all add: reg_bits_toggle bit_xor_iff bit_of_bool_iff)
  have "poly_rem (xor_prefix (reg_bits r) (b # ?z))
      = poly_rem (bit ?s 0 # xor_prefix (tl (reg_bits ?s)) ?z)"
    by (subst reg_bits_Cons) (simp only: xor_prefix.simps head tail)
  also have "\<dots> = poly_rem (xor_prefix (if bit ?s 0 then generator else []) (xor_prefix (tl (reg_bits ?s)) ?z))"
    by (subst poly_rem.simps) simp
  also have "\<dots> = reg_bits (foldl crc_in (crc_bit ?s) m)"
    by (simp only: reg_bits_crc_bit [symmetric] Cons.IH)
  finally show ?case
    by (simp add: crc_in_def [of r b])
qed

lemma reg_bits_inject: "reg_bits a = reg_bits b \<longleftrightarrow> a = b"
  by (auto simp: reg_bits_def intro!: bit_word_eqI)

lemma bit_all_ones: "n < 32 \<Longrightarrow> bit (0xFFFFFFFF :: u32) n"
proof -
  have "(0xFFFFFFFF :: u32) = mask 32"
    by (simp add: mask_eq_exp_minus_1)
  then show "n < 32 \<Longrightarrow> bit (0xFFFFFFFF :: u32) n"
    by (simp only: bit_mask_iff) simp
qed

lemma reg_bits_not: "reg_bits (r XOR 0xFFFFFFFF) = map Not (reg_bits r)"
proof (rule nth_equalityI)
  fix i assume "i < length (reg_bits (r XOR 0xFFFFFFFF))"
  then show "reg_bits (r XOR 0xFFFFFFFF) ! i = map Not (reg_bits r) ! i"
    using bit_all_ones [of i] by (simp add: reg_bits_def bit_xor_iff)
qed (simp add: reg_bits_def)

lemma reg_bits_ones: "reg_bits 0xFFFFFFFF = replicate 32 True"
proof (rule nth_equalityI)
  fix i assume "i < length (reg_bits 0xFFFFFFFF)"
  then show "reg_bits 0xFFFFFFFF ! i = replicate 32 True ! i"
    using bit_all_ones [of i] by (simp add: reg_bits_def)
qed (simp add: reg_bits_def)

section \<open>Properties\<close>

text \<open>
  C12: the checksum is the textbook CRC-32. The bit-serial loop of the code computes
  the remainder of the polynomial long division by the generator \<open>0x104C11DB7\<close>, with
  the first 32 bits of the message inverted, 32 zero bits appended and the remainder
  inverted, for every message.
\<close>

theorem crc32_polynomial: "reg_bits (crc32 data) = crc32_spec data"
  by (simp add: crc32_def crc32_spec_def reg_bits_not crc_loop_serial
      flip: poly_rem_serial reg_bits_ones)

text \<open>
  The bit-serial loop equals the table-driven routine that uses one 256-entry
  table look-up per byte.
\<close>

theorem crc32_table_driven:
  "crc32 data = foldl crc_table_step 0xFFFFFFFF data XOR 0xFFFFFFFF"
  by (simp add: crc32_def crc_loop_table)

text \<open>
  Every error burst of up to four consecutive bytes changes the checksum,
  wherever it lies in the message.
\<close>

theorem crc32_detects_bursts:
  assumes "length xs = length ys" "length ys \<le> 4" "xs \<noteq> ys"
  shows "crc32 (ps @ xs @ ss) \<noteq> crc32 (ps @ ys @ ss)"
  using assms by (rule crc32_burst)

theorem crc32_detects_bursts_witness:
  "crc32 ([1, 2] @ [3, 4, 5] @ [6]) \<noteq> crc32 ([1, 2] @ [3, 255, 0] @ [6])"
  by (rule crc32_detects_bursts) simp_all

end
