(* ===== verification/Codec.thy ===== *)
theory Codec
  imports Crc32
begin

text \<open>
  The wire format of \<open>src/protocol/packet.hpp\<close> and \<open>src/protocol/codec.cpp\<close>:
  packets, the encoder, the two header readers and their errors.
\<close>

section \<open>Packets\<close>

text \<open>
  \<open>MessageType\<close> is an enum class over \<open>uint8_t\<close>: every byte is a value of the type
  (\<open>decode_packet\<close> casts an arbitrary byte to it), four of them have names.
\<close>

datatype message_type = MessageType (underlying: u8)

definition Data :: message_type where "Data = MessageType 1"
definition Ack :: message_type where "Ack = MessageType 2"
definition Heartbeat :: message_type where "Heartbeat = MessageType 3"
definition HeartbeatAck :: message_type where "HeartbeatAck = MessageType 4"

lemmas message_type_defs = Data_def Ack_def Heartbeat_def HeartbeatAck_def

lemma message_type_distinct [simp]:
  "Data \<noteq> Ack" "Ack \<noteq> Data" "Data \<noteq> Heartbeat" "Heartbeat \<noteq> Data"
  "Data \<noteq> HeartbeatAck" "HeartbeatAck \<noteq> Data" "Ack \<noteq> Heartbeat" "Heartbeat \<noteq> Ack"
  "Ack \<noteq> HeartbeatAck" "HeartbeatAck \<noteq> Ack" "Heartbeat \<noteq> HeartbeatAck" "HeartbeatAck \<noteq> Heartbeat"
  by (simp_all add: message_type_defs)

text \<open>The order of the underlying byte, which the sender's ordered set of responses relies on.\<close>

instantiation message_type :: linorder
begin

definition less_eq_message_type :: "message_type \<Rightarrow> message_type \<Rightarrow> bool" where
  "less_eq_message_type s t \<longleftrightarrow> underlying s \<le> underlying t"

definition less_message_type :: "message_type \<Rightarrow> message_type \<Rightarrow> bool" where
  "less_message_type s t \<longleftrightarrow> underlying s < underlying t"

instance
  by standard
    (auto simp: less_eq_message_type_def less_message_type_def message_type.expand)

end

record packet =
  type_of :: message_type
  sequence :: u32
  payload :: bytes

definition kMagic :: u16 where "kMagic = 0xAA55"
definition kVersion :: u8 where "kVersion = 1"
definition kMaxPayloadSize :: nat where "kMaxPayloadSize = 1024"
definition kHeaderSize :: nat where "kHeaderSize = 16"

text \<open>The \<open>runtime_error\<close>s the codec throws.\<close>

datatype codec_error =
  PayloadTooLarge
| InvalidHeaderSize
| InvalidMagic
| UnsupportedVersion
| PayloadLengthMismatch
| CrcMismatch

fun codec_message :: "codec_error \<Rightarrow> string" where
  "codec_message PayloadTooLarge = ''payload too large''"
| "codec_message InvalidHeaderSize = ''invalid header size''"
| "codec_message InvalidMagic = ''invalid magic''"
| "codec_message UnsupportedVersion = ''unsupported protocol version''"
| "codec_message PayloadLengthMismatch = ''payload length mismatch''"
| "codec_message CrcMismatch = ''CRC mismatch''"

section \<open>Integers in network byte order\<close>

text \<open>
  \<open>append_u16\<close> converts with \<open>htons\<close> and appends the object representation of the
  result; \<open>read_u16\<close> copies two bytes into an integer and converts with \<open>ntohs\<close>.
  Both steps depend on the byte order of the host. They are modelled step by step
  first, for either host; their composition, proved below, is the big-endian
  order on both, and is what the codec's model uses.
\<close>

datatype host = LittleEndian | BigEndian

definition be16 :: "u16 \<Rightarrow> bytes" where
  "be16 v = [ucast (drop_bit 8 v), ucast v]"

definition be32 :: "u32 \<Rightarrow> bytes" where
  "be32 v = [ucast (drop_bit 24 v), ucast (drop_bit 16 v), ucast (drop_bit 8 v), ucast v]"

definition of_be16 :: "bytes \<Rightarrow> u16" where
  "of_be16 d = push_bit 8 (ucast (d ! 0)) OR ucast (d ! 1)"

definition of_be32 :: "bytes \<Rightarrow> u32" where
  "of_be32 d = push_bit 24 (ucast (d ! 0)) OR push_bit 16 (ucast (d ! 1))
     OR push_bit 8 (ucast (d ! 2)) OR ucast (d ! 3)"

text \<open>The bytes of an object in memory, and the object whose bytes are copied in.\<close>

fun u16_memory :: "host \<Rightarrow> u16 \<Rightarrow> bytes" where
  "u16_memory BigEndian v = be16 v"
| "u16_memory LittleEndian v = rev (be16 v)"

fun u32_memory :: "host \<Rightarrow> u32 \<Rightarrow> bytes" where
  "u32_memory BigEndian v = be32 v"
| "u32_memory LittleEndian v = rev (be32 v)"

fun u16_object :: "host \<Rightarrow> bytes \<Rightarrow> u16" where
  "u16_object BigEndian d = of_be16 d"
| "u16_object LittleEndian d = of_be16 (rev d)"

fun u32_object :: "host \<Rightarrow> bytes \<Rightarrow> u32" where
  "u32_object BigEndian d = of_be32 d"
| "u32_object LittleEndian d = of_be32 (rev d)"

text \<open>\<open>htons\<close> and \<open>htonl\<close> swap the bytes on a little-endian host; \<open>ntohs\<close> and \<open>ntohl\<close> are the same functions.\<close>

fun htons :: "host \<Rightarrow> u16 \<Rightarrow> u16" where
  "htons BigEndian v = v"
| "htons LittleEndian v = of_be16 (rev (be16 v))"

fun htonl :: "host \<Rightarrow> u32 \<Rightarrow> u32" where
  "htonl BigEndian v = v"
| "htonl LittleEndian v = of_be32 (rev (be32 v))"

definition append_u16_on :: "host \<Rightarrow> bytes \<Rightarrow> u16 \<Rightarrow> bytes" where
  "append_u16_on h buffer value = buffer @ u16_memory h (htons h value)"

definition append_u32_on :: "host \<Rightarrow> bytes \<Rightarrow> u32 \<Rightarrow> bytes" where
  "append_u32_on h buffer value = buffer @ u32_memory h (htonl h value)"

definition read_u16_on :: "host \<Rightarrow> bytes \<Rightarrow> u16" where
  "read_u16_on h data = htons h (u16_object h (take 2 data))"

definition read_u32_on :: "host \<Rightarrow> bytes \<Rightarrow> u32" where
  "read_u32_on h data = htonl h (u32_object h (take 4 data))"

definition append_u16 :: "bytes \<Rightarrow> u16 \<Rightarrow> bytes" where
  "append_u16 buffer value = buffer @ be16 value"

definition append_u32 :: "bytes \<Rightarrow> u32 \<Rightarrow> bytes" where
  "append_u32 buffer value = buffer @ be32 value"

definition read_u16 :: "bytes \<Rightarrow> u16" where
  "read_u16 data = of_be16 (take 2 data)"

definition read_u32 :: "bytes \<Rightarrow> u32" where
  "read_u32 data = of_be32 (take 4 data)"

section \<open>The codec\<close>

definition make_crc_input ::
  "u16 \<Rightarrow> u8 \<Rightarrow> message_type \<Rightarrow> u32 \<Rightarrow> u32 \<Rightarrow> bytes \<Rightarrow> bytes" where
  "make_crc_input magic version mtype seq payload_length pl =
     append_u32
       (append_u32
         (append_u16 [] magic @ [version] @ [underlying mtype])
         seq)
       payload_length
     @ pl"

definition encode_packet :: "packet \<Rightarrow> codec_error + bytes" where
  "encode_packet p =
     (if length (payload p) > kMaxPayloadSize then Inl PayloadTooLarge
      else
        let payload_length = (of_nat (length (payload p)) :: u32);
            crc_input = make_crc_input kMagic kVersion (type_of p) (sequence p)
                          payload_length (payload p);
            checksum = crc32 crc_input
        in Inr (append_u32
                 (append_u32
                   (append_u32
                     (append_u16 [] kMagic @ [kVersion] @ [underlying (type_of p)])
                     (sequence p))
                   payload_length)
                 checksum
               @ payload p))"

definition get_payload_length :: "bytes \<Rightarrow> codec_error + u32" where
  "get_payload_length header =
     (if length header \<noteq> kHeaderSize then Inl InvalidHeaderSize
      else if read_u16 header \<noteq> kMagic then Inl InvalidMagic
      else if header ! 2 \<noteq> kVersion then Inl UnsupportedVersion
      else
        let payload_length = read_u32 (drop 8 header)
        in if unat payload_length > kMaxPayloadSize then Inl PayloadTooLarge
           else Inr payload_length)"

definition decode_packet :: "bytes \<Rightarrow> bytes \<Rightarrow> codec_error + packet" where
  "decode_packet header pl =
     (if length header \<noteq> kHeaderSize then Inl InvalidHeaderSize
      else
        let magic = read_u16 header in
        if magic \<noteq> kMagic then Inl InvalidMagic
        else
          let version = header ! 2 in
          if version \<noteq> kVersion then Inl UnsupportedVersion
          else
            let mtype = MessageType (header ! 3);
                seq = read_u32 (drop 4 header);
                payload_length = read_u32 (drop 8 header);
                received_crc = read_u32 (drop 12 header)
            in if unat payload_length \<noteq> length pl then Inl PayloadLengthMismatch
               else if unat payload_length > kMaxPayloadSize then Inl PayloadTooLarge
               else
                 let calculated_crc =
                       crc32 (make_crc_input magic version mtype seq payload_length pl)
                 in if received_crc \<noteq> calculated_crc then Inl CrcMismatch
                    else Inr \<lparr>type_of = mtype, sequence = seq, payload = pl\<rparr>)"

section \<open>Byte order\<close>

lemma length_be [simp]: "length (be16 v) = 2" "length (be32 w) = 4"
  by (simp_all add: be16_def be32_def)

lemma of_be16_be16 [simp]: "of_be16 (be16 v) = v"
  by (rule bit_word_eqI)
    (auto simp: of_be16_def be16_def bit_or_iff bit_push_bit_iff bit_ucast_iff bit_drop_bit_eq)

lemma bit_u8_high: "8 \<le> n \<Longrightarrow> \<not> bit (b :: u8) n"
  using bit_imp_le_length [of b n] by auto

lemmas byte_bit_simps = bit_or_iff bit_push_bit_iff bit_ucast_iff bit_drop_bit_eq bit_u8_high

lemma be16_of_be16 [simp]: "be16 (of_be16 [a, b]) = [a, b]"
proof -
  have "ucast (drop_bit 8 (of_be16 [a, b])) = a"
    by (rule bit_word_eqI) (simp add: of_be16_def byte_bit_simps)
  moreover have "ucast (of_be16 [a, b]) = b"
    by (rule bit_word_eqI) (simp add: of_be16_def byte_bit_simps)
  ultimately show ?thesis
    by (simp add: be16_def)
qed

lemma of_be32_be32 [simp]: "of_be32 (be32 v) = v"
proof (rule bit_word_eqI)
  fix n assume "n < LENGTH(32)"
  then consider "n < 8" | "8 \<le> n" "n < 16" | "16 \<le> n" "n < 24" | "24 \<le> n" "n < 32"
    by force
  then show "bit (of_be32 (be32 v)) n \<longleftrightarrow> bit v n"
    by cases (auto simp: of_be32_def be32_def byte_bit_simps)
qed

lemma be32_of_be32 [simp]: "be32 (of_be32 [a, b, c, d]) = [a, b, c, d]"
proof -
  have "ucast (drop_bit 24 (of_be32 [a, b, c, d])) = a"
    by (rule bit_word_eqI) (simp add: of_be32_def byte_bit_simps)
  moreover have "ucast (drop_bit 16 (of_be32 [a, b, c, d])) = b"
    by (rule bit_word_eqI) (simp add: of_be32_def byte_bit_simps)
  moreover have "ucast (drop_bit 8 (of_be32 [a, b, c, d])) = c"
    by (rule bit_word_eqI) (simp add: of_be32_def byte_bit_simps)
  moreover have "ucast (of_be32 [a, b, c, d]) = d"
    by (rule bit_word_eqI) (simp add: of_be32_def byte_bit_simps)
  ultimately show ?thesis
    by (simp add: be32_def)
qed

lemma be16_inject [simp]: "be16 v = be16 w \<longleftrightarrow> v = w"
  by (metis of_be16_be16)

lemma be32_inject [simp]: "be32 v = be32 w \<longleftrightarrow> v = w"
  by (metis of_be32_be32)

lemma read_be [simp]:
  "read_u16 (be16 v @ xs) = v" "read_u32 (be32 w @ xs) = w" "read_u32 (be32 w) = w"
  by (simp_all add: read_u16_def read_u32_def)

lemma two_elements: "length xs = 2 \<Longrightarrow> \<exists>a b. xs = [a, b]"
  by (auto simp: numeral_2_eq_2 length_Suc_conv)

lemma four_elements: "length xs = 4 \<Longrightarrow> \<exists>a b c d. xs = [a, b, c, d]"
  by (auto simp: eval_nat_numeral length_Suc_conv)

lemma be16_read: "2 \<le> length xs \<Longrightarrow> be16 (read_u16 xs) = take 2 xs"
  using two_elements [of "take 2 xs"] by (auto simp: read_u16_def)

lemma be32_read: "4 \<le> length xs \<Longrightarrow> be32 (read_u32 xs) = take 4 xs"
  using four_elements [of "take 4 xs"] by (auto simp: read_u32_def)

lemma rev_be16_round [simp]: "be16 (of_be16 (rev (be16 v))) = rev (be16 v)"
  by (simp add: be16_def [of v])

lemma rev_be32_round [simp]: "be32 (of_be32 (rev (be32 v))) = rev (be32 v)"
  by (simp add: be32_def [of v])

section \<open>The header as a concatenation of fields\<close>

definition crc_input_of :: "message_type \<Rightarrow> u32 \<Rightarrow> bytes \<Rightarrow> bytes" where
  "crc_input_of t s pl = make_crc_input kMagic kVersion t s (of_nat (length pl)) pl"

definition header_of :: "packet \<Rightarrow> bytes" where
  "header_of p =
     be16 kMagic @ [kVersion, underlying (type_of p)] @ be32 (sequence p)
     @ be32 (of_nat (length (payload p)))
     @ be32 (crc32 (crc_input_of (type_of p) (sequence p) (payload p)))"

lemma length_header_of [simp]: "length (header_of p) = 16"
  by (simp add: header_of_def)

lemma encode_packet_eq:
  "encode_packet p =
     (if length (payload p) > kMaxPayloadSize then Inl PayloadTooLarge
      else Inr (header_of p @ payload p))"
  by (simp add: encode_packet_def header_of_def crc_input_of_def append_u16_def append_u32_def Let_def)

lemma encode_packet_splitD:
  assumes "encode_packet p = Inr (h @ pl)" "length h = 16"
  shows "h = header_of p" "payload p = pl" "length (payload p) \<le> kMaxPayloadSize"
  using assms by (auto simp: encode_packet_eq append_eq_append_conv split: if_splits)

lemma header_split:
  assumes "length h = 16"
  shows "h = be16 (read_u16 h) @ [h ! 2, h ! 3] @ be32 (read_u32 (drop 4 h))
           @ be32 (read_u32 (drop 8 h)) @ be32 (read_u32 (drop 12 h))"
proof -
  have "[h ! 2, h ! 3] = take 2 (drop 2 h)"
    using assms by (auto intro!: nth_equalityI simp: nth_Cons less_Suc_eq split: nat.splits)
  moreover have "h = take 2 h @ take 2 (drop 2 h) @ take 4 (drop 4 h) @ take 4 (drop 8 h) @ take 4 (drop 12 h)"
    using assms append_take_drop_id [of 2 h] append_take_drop_id [of 2 "drop 2 h"]
      append_take_drop_id [of 4 "drop 4 h"] append_take_drop_id [of 4 "drop 8 h"] by simp
  ultimately show ?thesis
    using assms by (simp add: be16_read be32_read)
qed

lemma header_fields [simp]:
  "read_u16 (header_of p) = kMagic"
  "header_of p ! 2 = kVersion"
  "header_of p ! 3 = underlying (type_of p)"
  "read_u32 (drop 4 (header_of p)) = sequence p"
  "read_u32 (drop 8 (header_of p)) = of_nat (length (payload p))"
  "read_u32 (drop 12 (header_of p)) = crc32 (crc_input_of (type_of p) (sequence p) (payload p))"
  unfolding header_of_def by (simp_all add: nth_append numeral_2_eq_2 numeral_3_eq_3)

section \<open>The reader side\<close>

lemma kHeaderSize_16 [simp]: "kHeaderSize = 16"
  by (simp add: kHeaderSize_def)

lemma unat_payload_length:
  "length pl \<le> kMaxPayloadSize \<Longrightarrow> unat (of_nat (length pl) :: u32) = length pl"
  by (simp add: kMaxPayloadSize_def unat_of_nat_u32)

lemma get_payload_length_header [wire_simps]:
  "length (payload p) \<le> kMaxPayloadSize \<Longrightarrow>
     get_payload_length (header_of p) = Inr (of_nat (length (payload p)))"
  by (simp add: get_payload_length_def Let_def unat_payload_length)

lemma decode_packet_header [wire_simps]:
  "length (payload p) \<le> kMaxPayloadSize \<Longrightarrow> decode_packet (header_of p) (payload p) = Inr p"
  by (simp add: decode_packet_def Let_def unat_payload_length crc_input_of_def)

lemma decode_packet_Inr:
  assumes "decode_packet h pl = Inr p"
  shows "h = header_of p" "payload p = pl" "length pl \<le> kMaxPayloadSize"
proof -
  from assms have len: "length h = 16" and magic: "read_u16 h = kMagic"
    and version: "h ! 2 = kVersion" and size: "unat (read_u32 (drop 8 h)) = length pl"
    and crc: "read_u32 (drop 12 h) =
       crc32 (make_crc_input kMagic kVersion (MessageType (h ! 3)) (read_u32 (drop 4 h)) (read_u32 (drop 8 h)) pl)"
    and p: "p = \<lparr>type_of = MessageType (h ! 3), sequence = read_u32 (drop 4 h), payload = pl\<rparr>"
    and "length pl \<le> kMaxPayloadSize"
    by (auto simp: decode_packet_def Let_def split: if_splits)
  from size \<open>length pl \<le> kMaxPayloadSize\<close> have "read_u32 (drop 8 h) = of_nat (length pl)"
    by (simp add: word_unat_eq_iff unat_payload_length)
  with header_split [OF len] magic version crc p show "h = header_of p"
    by (simp add: header_of_def crc_input_of_def)
  show "payload p = pl"
    using p by simp
  show "length pl \<le> kMaxPayloadSize"
    by fact
qed

lemma get_payload_length_Inr:
  assumes "get_payload_length h = Inr n"
  shows "length h = 16" "read_u16 h = kMagic" "h ! 2 = kVersion"
    "n = read_u32 (drop 8 h)" "unat n \<le> kMaxPayloadSize"
  using assms by (auto simp: get_payload_length_def Let_def split: if_splits)

lemma header_of_inject:
  assumes "header_of p = header_of q" "payload p = payload q"
  shows "p = q"
proof -
  have "type_of p = type_of q"
    using header_fields(3) [of p] header_fields(3) [of q] assms(1) by (simp add: message_type.expand)
  moreover have "sequence p = sequence q"
    using header_fields(4) [of p] header_fields(4) [of q] assms(1) by simp
  ultimately show ?thesis
    using assms(2) by (rule_tac packet.equality) simp_all
qed

section \<open>Damaged frames\<close>

lemma make_crc_input_eq:
  "make_crc_input m v t s n pl = (be16 m @ [v, underlying t] @ be32 s @ be32 n) @ pl"
  by (simp add: make_crc_input_def append_u16_def append_u32_def)

lemma crc_input_header:
  "crc_input_of (type_of p) (sequence p) (payload p) = take 12 (header_of p) @ payload p"
  by (simp add: crc_input_of_def make_crc_input_eq header_of_def)

lemma header_crc_field: "drop 12 (header_of p) = be32 (crc32 (take 12 (header_of p) @ payload p))"
  unfolding crc_input_header [symmetric] by (simp add: header_of_def)

lemma header_take_12:
  assumes "take 8 (header_of p) = take 8 (header_of q)" "length (payload p) = length (payload q)"
  shows "take 12 (header_of p) = take 12 (header_of q)"
  using assms by (simp add: header_of_def)

lemma payload_burst_decode:
  assumes "payload p = as @ xs @ bs" "length (payload p) \<le> kMaxPayloadSize"
    and "length xs = length ys" "length ys \<le> 4" "xs \<noteq> ys"
  shows "decode_packet (header_of p) (as @ ys @ bs) = Inl CrcMismatch"
proof -
  let ?pre = "be16 kMagic @ [kVersion, underlying (type_of p)] @ be32 (sequence p)
    @ be32 (of_nat (length (payload p)))"
  have "crc32 ((?pre @ as) @ xs @ bs) \<noteq> crc32 ((?pre @ as) @ ys @ bs)"
    using assms(3-5) by (rule crc32_burst)
  moreover have "length (payload p) = length (as @ ys @ bs)"
    using assms by simp
  ultimately show ?thesis
    using assms(1,2) unat_payload_length [of "as @ ys @ bs"]
    by (simp add: decode_packet_def Let_def crc_input_of_def make_crc_input_eq)
qed

lemma header_burst_decode:
  assumes p: "header_of p = as @ xs @ bs" and len: "length xs = length ys" "length ys \<le> 4"
    and "xs \<noteq> ys"
  shows "decode_packet (as @ ys @ bs) (payload p) \<noteq> Inr q"
proof
  assume "decode_packet (as @ ys @ bs) (payload p) = Inr q"
  from decode_packet_Inr [OF this] have q: "header_of q = as @ ys @ bs" and pl: "payload q = payload p"
    by simp_all
  have size: "length as + length xs + length bs = 16"
    using length_header_of [of p] by (simp add: p)
  show False
  proof (cases "8 \<le> length as")
    case True
    then have "take 8 (header_of p) = take 8 (header_of q)"
      by (simp add: p q)
    then have "take 12 (header_of p) = take 12 (header_of q)"
      by (rule header_take_12) (simp add: pl)
    then have "header_of p = header_of q"
      using header_crc_field [of p] header_crc_field [of q] pl by (metis append_take_drop_id)
    with p q \<open>xs \<noteq> ys\<close> show False
      by simp
  next
    case False
    with len have "take 12 (header_of p) = as @ xs @ take (12 - (length as + length xs)) bs"
      "take 12 (header_of q) = as @ ys @ take (12 - (length as + length xs)) bs"
      "drop 12 (header_of p) = drop 12 (header_of q)"
      by (simp_all add: p q)
    with header_crc_field [of p] header_crc_field [of q] pl
    have "crc32 (as @ xs @ take (12 - (length as + length xs)) bs @ payload p) =
        crc32 (as @ ys @ take (12 - (length as + length xs)) bs @ payload p)"
      by simp
    with crc32_burst [OF len \<open>xs \<noteq> ys\<close>] show False
      by blast
  qed
qed

section \<open>Properties\<close>

text \<open>
  C11: the decoder accepts exactly the images of the encoder. A sixteen-byte header and
  a payload decode to a packet if and only if they are its encoding; so decoding what
  was encoded returns the packet, every accepted byte string has one packet, and a
  packet has one encoding.
\<close>

theorem decode_iff_encode:
  "decode_packet h pl = Inr p \<longleftrightarrow>
     encode_packet p = Inr (h @ pl) \<and> length h = kHeaderSize"
proof
  assume "decode_packet h pl = Inr p"
  from decode_packet_Inr [OF this] show "encode_packet p = Inr (h @ pl) \<and> length h = kHeaderSize"
    by (simp add: encode_packet_eq)
next
  assume enc: "encode_packet p = Inr (h @ pl) \<and> length h = kHeaderSize"
  then have "h = header_of p" "pl = payload p" "length (payload p) \<le> kMaxPayloadSize"
    by (auto simp: encode_packet_eq split: if_splits)
  then show "decode_packet h pl = Inr p"
    by (simp add: wire_simps)
qed

text \<open>
  A packet within the payload limit survives the wire: it encodes to a sixteen-byte
  header followed by its payload, the length field read back from the header is the
  payload's length, and the decoder returns the packet itself.
\<close>

theorem codec_roundtrip:
  assumes "length (payload p) \<le> kMaxPayloadSize"
  shows "\<exists>buf. encode_packet p = Inr buf \<and> length buf = kHeaderSize + length (payload p)
    \<and> map_sum id unat (get_payload_length (take kHeaderSize buf)) = Inr (length (payload p))
    \<and> decode_packet (take kHeaderSize buf) (drop kHeaderSize buf) = Inr p"
  using assms by (simp add: encode_packet_eq wire_simps unat_payload_length)

theorem codec_roundtrip_witness:
  "\<exists>buf. encode_packet \<lparr>type_of = Data, sequence = 1, payload = [104, 105]\<rparr> = Inr buf
    \<and> length buf = kHeaderSize + length (payload \<lparr>type_of = Data, sequence = 1, payload = [104, 105]\<rparr>)
    \<and> map_sum id unat (get_payload_length (take kHeaderSize buf)) =
        Inr (length (payload \<lparr>type_of = Data, sequence = 1, payload = [104, 105]\<rparr>))
    \<and> decode_packet (take kHeaderSize buf) (drop kHeaderSize buf) =
        Inr \<lparr>type_of = Data, sequence = 1, payload = [104, 105]\<rparr>"
  by (rule codec_roundtrip) (simp add: kMaxPayloadSize_def)

text \<open>
  A reader that takes the payload length from the header can only fail on the
  checksum. Once \<open>get_payload_length\<close> accepts a header, the announced length is at most
  1024, and decoding the header with a payload of that length either yields a packet
  with that payload or reports \<open>CRC mismatch\<close>.
\<close>

theorem framed_decode:
  assumes "get_payload_length h = Inr n" and "length pl = unat n"
  shows "length pl \<le> 1024 \<and>
    (decode_packet h pl = Inl CrcMismatch \<or> (\<exists>p. decode_packet h pl = Inr p \<and> payload p = pl))"
  using get_payload_length_Inr [OF assms(1)] assms(2)
  by (auto simp: decode_packet_def Let_def kMaxPayloadSize_def)

theorem framed_decode_witness:
  "length ([] :: bytes) \<le> 1024 \<and>
    (decode_packet (header_of \<lparr>type_of = Ack, sequence = 1, payload = []\<rparr>) [] = Inl CrcMismatch \<or>
     (\<exists>p. decode_packet (header_of \<lparr>type_of = Ack, sequence = 1, payload = []\<rparr>) [] = Inr p \<and> payload p = []))"
  by (rule framed_decode [where n = 0]) (simp_all add: wire_simps)

text \<open>
  The wire format does not depend on the byte order of the host: the conversions
  and memory copies of the four integer helpers compose to network byte order on a
  little-endian and on a big-endian machine.
\<close>

theorem byte_order_independent:
  "append_u16_on h buffer v = append_u16 buffer v \<and>
   append_u32_on h buffer w = append_u32 buffer w \<and>
   read_u16_on h (a # b # rest) = read_u16 (a # b # rest) \<and>
   read_u32_on h (a # b # c # d # rest) = read_u32 (a # b # c # d # rest)"
  by (cases h) (simp_all add: append_u16_on_def append_u16_def append_u32_on_def append_u32_def
      read_u16_on_def read_u16_def read_u32_on_def read_u32_def)

text \<open>
  C40: a burst that changes up to four consecutive payload bytes of an encoded packet is
  reported as \<open>CRC mismatch\<close>.
\<close>

theorem payload_burst_detected:
  assumes "encode_packet p = Inr (h @ as @ xs @ bs)" "length h = kHeaderSize"
    and "length xs = length ys" "length ys \<le> 4" "xs \<noteq> ys"
  shows "decode_packet h (as @ ys @ bs) = Inl CrcMismatch"
proof -
  from assms(1,2) have "h = header_of p" "payload p = as @ xs @ bs" "length (payload p) \<le> kMaxPayloadSize"
    using encode_packet_splitD [of p h "as @ xs @ bs"] by simp_all
  then show ?thesis
    using payload_burst_decode assms(3-5) by simp
qed

theorem payload_burst_detected_witness:
  "decode_packet (header_of \<lparr>type_of = Data, sequence = 1, payload = [1, 2, 3]\<rparr>) ([1] @ [9] @ [3])
     = Inl CrcMismatch"
  by (rule payload_burst_detected [where p = "\<lparr>type_of = Data, sequence = 1, payload = [1, 2, 3]\<rparr>" and xs = "[2]"])
    (simp_all add: encode_packet_eq kMaxPayloadSize_def)

text \<open>
  A burst that changes up to four consecutive bytes of an encoded packet's header,
  the checksum field included, is rejected: no packet decodes from the damaged frame.
\<close>

theorem header_burst_detected:
  assumes "encode_packet p = Inr ((as @ xs @ bs) @ pl)" "length (as @ xs @ bs) = kHeaderSize"
    and "length xs = length ys" "length ys \<le> 4" "xs \<noteq> ys"
  shows "\<exists>e. decode_packet (as @ ys @ bs) pl = Inl e"
proof -
  from assms(2) have "length (as @ xs @ bs) = 16"
    by simp
  note encode_packet_splitD [OF assms(1) this]
  then have "header_of p = as @ xs @ bs" "payload p = pl"
    by simp_all
  then show ?thesis
    using header_burst_decode [OF _ assms(3-5)] by (cases "decode_packet (as @ ys @ bs) pl") auto
qed

theorem header_burst_detected_witness:
  "\<exists>e. decode_packet ([] @ [0xAA, 0x54] @ drop 2 (header_of \<lparr>type_of = Ack, sequence = 1, payload = []\<rparr>)) []
     = Inl e"
proof (rule header_burst_detected [where xs = "[0xAA, 0x55]" and p = "\<lparr>type_of = Ack, sequence = 1, payload = []\<rparr>"])
  have "take 2 (header_of \<lparr>type_of = Ack, sequence = 1, payload = []\<rparr>) = [0xAA, 0x55]"
    by (simp add: header_of_def kMagic_def be16_def)
  then have "header_of \<lparr>type_of = Ack, sequence = 1, payload = []\<rparr> =
      [0xAA, 0x55] @ drop 2 (header_of \<lparr>type_of = Ack, sequence = 1, payload = []\<rparr>)"
    by (metis append_take_drop_id)
  then show "encode_packet \<lparr>type_of = Ack, sequence = 1, payload = []\<rparr> =
      Inr (([] @ [0xAA, 0x55] @ drop 2 (header_of \<lparr>type_of = Ack, sequence = 1, payload = []\<rparr>)) @ [])"
    by (simp add: encode_packet_eq)
qed simp_all

end
