(* ===== verification/Posix.thy ===== *)
theory Posix
  imports Prelude
begin

text \<open>
  The world the five programs run in. Operating-system calls are not code of the
  repository: their results are inputs of the model. A world carries, for each kind
  of call, the script of results the environment has chosen (clock readings, poll
  results, the events on each socket, the descriptors that are opened), and every
  theorem quantifies over all scripts. A call takes the next result of its script; a
  script that is used up means that the program is still waiting inside that call,
  which is the result \<open>Blocked\<close>. Everything a program does that can be observed from
  outside is appended to the trace.

  What is fixed is the documented behaviour of the calls only: \<open>recv\<close> returns at most
  the number of bytes asked for and leaves the others for the next call, \<open>recvfrom\<close>
  drops what does not fit the buffer, \<open>send\<close> accepts at most the bytes offered, and
  the steady clock does not go backwards.
\<close>

section \<open>Results of calls\<close>

type_synonym fd = int
type_synonym addr = "u32 \<times> u16"

datatype errno = EINTR | EAGAIN | EWOULDBLOCK | EPIPE | ECONNRESET | Errno nat

text \<open>The text of an exception: a literal, or a prefix followed by \<open>strerror(errno)\<close>.\<close>

datatype what = Msg string | Sys string errno

text \<open>
  The exceptions of the programs. \<open>ConnectionLost\<close> and \<open>PeerDisconnected\<close> derive from
  \<open>std::runtime_error\<close>; \<open>ResponseTimeout\<close> derives from nothing, so no handler for
  \<open>std::exception\<close> catches it.
\<close>

datatype exn =
  RuntimeError what
| ConnectionLost what
| PeerDisconnected what
| ResponseTimeout

fun std_what :: "exn \<Rightarrow> what option" where
  "std_what (RuntimeError m) = Some m"
| "std_what (ConnectionLost m) = Some m"
| "std_what (PeerDisconnected m) = Some m"
| "std_what ResponseTimeout = None"

datatype 'a result = Ok 'a | Throw exn | Blocked

datatype poll_flag = POLLIN | POLLERR | POLLHUP | POLLNVAL
type_synonym revents = "poll_flag set"

text \<open>
  What a script holds: for a stream socket the segments that arrive (an orderly
  shutdown is \<open>Fin\<close>) and how many bytes each \<open>send\<close> accepts, for a datagram socket the
  datagrams and the results of \<open>sendto\<close>.
\<close>

datatype rx_event = Segment bytes | Fin | RxFail errno
datatype tx_event = TxAccept nat | TxFail errno
datatype dg_event = Datagram addr bytes | DgFail errno
datatype poll_event = PollFail errno | PollReturn "revents list"

record sock =
  rx :: "rx_event list"
  tx :: "tx_event list"
  dgrx :: "dg_event list"
  dgtx :: "tx_event list"

text \<open>What is visible from outside: output lines, bytes on the wire, closed sockets, waits.\<close>

datatype 'l action =
  Line 'l
| Sent fd bytes
| SentTo fd addr bytes
| ShutDown fd
| Closed fd
| Slept nat
| Polled int

record ('l, 'p) world =
  clock :: nat
  ticks :: "nat list"
  polls :: "poll_event list"
  fds :: "(errno + fd \<times> sock) list"
  calls :: "errno option list"
  socks :: "fd \<Rightarrow> sock"
  trace :: "'l action list"
  locals :: 'p

type_synonym ('l, 'p, 'a) io = "('l, 'p) world \<Rightarrow> 'a result \<times> ('l, 'p) world"

section \<open>Sequencing\<close>

definition ret :: "'a \<Rightarrow> ('l, 'p, 'a) io" where
  "ret x w = (Ok x, w)"

definition throw :: "exn \<Rightarrow> ('l, 'p, 'a) io" where
  "throw e w = (Throw e, w)"

definition bind_io :: "('l, 'p, 'a) io \<Rightarrow> ('a \<Rightarrow> ('l, 'p, 'b) io) \<Rightarrow> ('l, 'p, 'b) io" where
  "bind_io m f w =
     (case m w of
        (Ok x, w') \<Rightarrow> f x w'
      | (Throw e, w') \<Rightarrow> (Throw e, w')
      | (Blocked, w') \<Rightarrow> (Blocked, w'))"

text \<open>A handler that answers \<open>None\<close> has no \<open>catch\<close> clause for the exception.\<close>

definition catch_io ::
  "('l, 'p, 'a) io \<Rightarrow> (exn \<Rightarrow> ('l, 'p, 'a) io option) \<Rightarrow> ('l, 'p, 'a) io" where
  "catch_io m h w =
     (case m w of
        (Throw e, w') \<Rightarrow> (case h e of None \<Rightarrow> (Throw e, w') | Some k \<Rightarrow> k w')
      | r \<Rightarrow> r)"

definition emit :: "'l action \<Rightarrow> ('l, 'p, unit) io" where
  "emit a w = (Ok (), w\<lparr>trace := trace w @ [a]\<rparr>)"

definition cout :: "'l \<Rightarrow> ('l, 'p, unit) io" where
  "cout l = emit (Line l)"

definition get_local :: "('p \<Rightarrow> 'a) \<Rightarrow> ('l, 'p, 'a) io" where
  "get_local f w = (Ok (f (locals w)), w)"

definition upd_local :: "('p \<Rightarrow> 'p) \<Rightarrow> ('l, 'p, unit) io" where
  "upd_local f w = (Ok (), w\<lparr>locals := f (locals w)\<rparr>)"

section \<open>System calls\<close>

definition sys_now :: "('l, 'p, nat) io" where
  "sys_now w =
     (case ticks w of
        [] \<Rightarrow> (Blocked, w)
      | d # ds \<Rightarrow> (Ok (clock w + d), w\<lparr>clock := clock w + d, ticks := ds\<rparr>))"

text \<open>\<open>std::chrono::ceil\<close> from nanoseconds to milliseconds.\<close>

definition ceil_ms :: "nat \<Rightarrow> nat" where
  "ceil_ms ns = (ns + 999999) div 1000000"

definition revents_at :: "revents list \<Rightarrow> nat \<Rightarrow> revents" where
  "revents_at rs i = (if i < length rs then rs ! i else {})"

text \<open>The result is the \<open>revents\<close> of each polled descriptor; \<open>poll\<close> returns how many are nonempty.\<close>

definition sys_poll :: "fd list \<Rightarrow> int \<Rightarrow> ('l, 'p, errno + revents list) io" where
  "sys_poll ps timeout_ms w =
     (let w1 = w\<lparr>trace := trace w @ [Polled timeout_ms]\<rparr> in
      case polls w of
        [] \<Rightarrow> (Blocked, w1)
      | PollFail e # es \<Rightarrow> (Ok (Inl e), w1\<lparr>polls := es\<rparr>)
      | PollReturn rs # es \<Rightarrow>
          (Ok (Inr (map (revents_at rs) [0..<length ps])), w1\<lparr>polls := es\<rparr>))"

definition poll_count :: "revents list \<Rightarrow> nat" where
  "poll_count rs = length (filter (\<lambda>r. r \<noteq> {}) rs)"

definition set_rx :: "fd \<Rightarrow> rx_event list \<Rightarrow> ('l, 'p) world \<Rightarrow> ('l, 'p) world" where
  "set_rx fd es w = w\<lparr>socks := (socks w)(fd := (socks w fd)\<lparr>rx := es\<rparr>)\<rparr>"

definition sys_recv :: "fd \<Rightarrow> nat \<Rightarrow> ('l, 'p, errno + bytes) io" where
  "sys_recv fd n w =
     (case rx (socks w fd) of
        [] \<Rightarrow> (Blocked, w)
      | Segment bs # es \<Rightarrow>
          (Ok (Inr (take n bs)),
           set_rx fd (if length bs \<le> n then es else Segment (drop n bs) # es) w)
      | Fin # es \<Rightarrow> (Ok (Inr []), set_rx fd es w)
      | RxFail e # es \<Rightarrow> (Ok (Inl e), set_rx fd es w))"

definition set_tx :: "fd \<Rightarrow> tx_event list \<Rightarrow> ('l, 'p) world \<Rightarrow> ('l, 'p) world" where
  "set_tx fd es w = w\<lparr>socks := (socks w)(fd := (socks w fd)\<lparr>tx := es\<rparr>)\<rparr>"

definition sys_send :: "fd \<Rightarrow> bytes \<Rightarrow> ('l, 'p, errno + nat) io" where
  "sys_send fd data w =
     (case tx (socks w fd) of
        [] \<Rightarrow> (Blocked, w)
      | TxAccept k # es \<Rightarrow>
          (Ok (Inr (min k (length data))),
           set_tx fd es (w\<lparr>trace := trace w @ [Sent fd (take k data)]\<rparr>))
      | TxFail e # es \<Rightarrow> (Ok (Inl e), set_tx fd es w))"

definition set_dgrx :: "fd \<Rightarrow> dg_event list \<Rightarrow> ('l, 'p) world \<Rightarrow> ('l, 'p) world" where
  "set_dgrx fd es w = w\<lparr>socks := (socks w)(fd := (socks w fd)\<lparr>dgrx := es\<rparr>)\<rparr>"

definition set_dgtx :: "fd \<Rightarrow> tx_event list \<Rightarrow> ('l, 'p) world \<Rightarrow> ('l, 'p) world" where
  "set_dgtx fd es w = w\<lparr>socks := (socks w)(fd := (socks w fd)\<lparr>dgtx := es\<rparr>)\<rparr>"

definition sys_recvfrom :: "fd \<Rightarrow> nat \<Rightarrow> ('l, 'p, errno + addr \<times> bytes) io" where
  "sys_recvfrom fd n w =
     (case dgrx (socks w fd) of
        [] \<Rightarrow> (Blocked, w)
      | Datagram a bs # es \<Rightarrow> (Ok (Inr (a, take n bs)), set_dgrx fd es w)
      | DgFail e # es \<Rightarrow> (Ok (Inl e), set_dgrx fd es w))"

definition sys_sendto :: "fd \<Rightarrow> bytes \<Rightarrow> addr \<Rightarrow> ('l, 'p, errno + nat) io" where
  "sys_sendto fd data a w =
     (case dgtx (socks w fd) of
        [] \<Rightarrow> (Blocked, w)
      | TxAccept k # es \<Rightarrow>
          (Ok (Inr (min k (length data))),
           set_dgtx fd es (w\<lparr>trace := trace w @ [SentTo fd a (take k data)]\<rparr>))
      | TxFail e # es \<Rightarrow> (Ok (Inl e), set_dgtx fd es w))"

text \<open>\<open>socket\<close> and \<open>accept\<close>: a new descriptor, with the script of the connection behind it.\<close>

definition sys_open :: "('l, 'p, errno + fd) io" where
  "sys_open w =
     (case fds w of
        [] \<Rightarrow> (Blocked, w)
      | Inl e # es \<Rightarrow> (Ok (Inl e), w\<lparr>fds := es\<rparr>)
      | Inr (fd, s) # es \<Rightarrow> (Ok (Inr fd), w\<lparr>fds := es, socks := (socks w)(fd := s)\<rparr>))"

text \<open>Calls of which only success or failure matters: \<open>setsockopt\<close>, \<open>bind\<close>, \<open>listen\<close>, \<open>connect\<close>, \<open>inet_pton\<close>.\<close>

definition sys_call :: "('l, 'p, errno option) io" where
  "sys_call w =
     (case calls w of
        [] \<Rightarrow> (Blocked, w)
      | r # rs \<Rightarrow> (Ok r, w\<lparr>calls := rs\<rparr>))"

definition sys_close :: "fd \<Rightarrow> ('l, 'p, unit) io" where
  "sys_close fd = emit (Closed fd)"

definition sys_shutdown :: "fd \<Rightarrow> ('l, 'p, unit) io" where
  "sys_shutdown fd = emit (ShutDown fd)"

definition sleep_ms :: "nat \<Rightarrow> ('l, 'p, unit) io" where
  "sleep_ms ms = emit (Slept ms)"

end
