(* ===== verification/Worlds.thy ===== *)
theory Worlds
  imports Posix "HOL-Library.Sublist"
begin

text \<open>
  How operations are reasoned about: execution rules for the sequencing combinators,
  the two orders on worlds that every operation respects (the scripts only shrink, the
  trace only grows), and a predicate on the actions an operation appends to the trace.
  All three are instances of one interface, \<open>world_order\<close>, in which the rules for
  sequencing, handlers and waits are proved once.
\<close>

lemmas world_updates = set_rx_def set_tx_def set_dgrx_def set_dgtx_def

section \<open>Execution\<close>

lemma bind_io_Ok: "m w = (Ok x, w') \<Longrightarrow> bind_io m f w = f x w'"
  by (simp add: bind_io_def)

lemma bind_io_Throw: "m w = (Throw e, w') \<Longrightarrow> bind_io m f w = (Throw e, w')"
  by (simp add: bind_io_def)

lemma bind_io_Blocked: "m w = (Blocked, w') \<Longrightarrow> bind_io m f w = (Blocked, w')"
  by (simp add: bind_io_def)

lemma bind_io_eq_Ok:
  "bind_io m f w = (Ok y, v) \<longleftrightarrow> (\<exists>x u. m w = (Ok x, u) \<and> f x u = (Ok y, v))"
  by (auto simp: bind_io_def split: prod.splits result.splits)

lemma bind_io_eq_Throw:
  "bind_io m f w = (Throw e, v) \<longleftrightarrow>
     m w = (Throw e, v) \<or> (\<exists>x u. m w = (Ok x, u) \<and> f x u = (Throw e, v))"
  by (auto simp: bind_io_def split: prod.splits result.splits)

lemma bind_ret [io_simps]: "bind_io (ret x) f w = f x w"
  by (simp add: bind_io_def ret_def)

lemma bind_assoc [io_simps]: "bind_io (bind_io m f) g = bind_io m (\<lambda>x. bind_io (f x) g)"
  by (rule ext) (simp add: bind_io_def split: prod.splits result.splits)

lemma bind_emit [io_simps]: "bind_io (emit a) f w = f () (w\<lparr>trace := trace w @ [a]\<rparr>)"
  by (simp add: bind_io_def emit_def)

lemma bind_cout [io_simps]: "bind_io (cout l) f w = f () (w\<lparr>trace := trace w @ [Line l]\<rparr>)"
  by (simp add: cout_def bind_emit)

lemma bind_close [io_simps]:
  "bind_io (sys_close fd) f w = f () (w\<lparr>trace := trace w @ [Closed fd]\<rparr>)"
  by (simp add: sys_close_def bind_emit)

lemma bind_shutdown [io_simps]:
  "bind_io (sys_shutdown fd) f w = f () (w\<lparr>trace := trace w @ [ShutDown fd]\<rparr>)"
  by (simp add: sys_shutdown_def bind_emit)

lemma bind_sleep [io_simps]: "bind_io (sleep_ms n) f w = f () (w\<lparr>trace := trace w @ [Slept n]\<rparr>)"
  by (simp add: sleep_ms_def bind_emit)

lemma bind_get_local [io_simps]: "bind_io (get_local g) f w = f (g (locals w)) w"
  by (simp add: bind_io_def get_local_def)

lemma bind_upd_local [io_simps]: "bind_io (upd_local g) f w = f () (w\<lparr>locals := g (locals w)\<rparr>)"
  by (simp add: bind_io_def upd_local_def)

lemma bind_throw [io_simps]: "bind_io (throw e) f w = (Throw e, w)"
  by (simp add: bind_io_def throw_def)

lemma apply_io [io_simps]:
  "ret x w = (Ok x, w)" "throw e w = (Throw e, w)"
  "emit a w = (Ok (), w\<lparr>trace := trace w @ [a]\<rparr>)"
  "cout l w = (Ok (), w\<lparr>trace := trace w @ [Line l]\<rparr>)"
  by (simp_all add: ret_def throw_def emit_def cout_def)

lemma catch_io_Ok [io_simps]: "m w = (Ok x, w') \<Longrightarrow> catch_io m h w = (Ok x, w')"
  by (simp add: catch_io_def)

lemma catch_io_Blocked: "m w = (Blocked, w') \<Longrightarrow> catch_io m h w = (Blocked, w')"
  by (simp add: catch_io_def)

lemma catch_io_Throw: "m w = (Throw e, w') \<Longrightarrow>
    catch_io m h w = (case h e of None \<Rightarrow> (Throw e, w') | Some k \<Rightarrow> k w')"
  by (simp add: catch_io_def)

text \<open>A world in which nothing is scripted: the start of the examples.\<close>

definition idle_sock :: sock where
  "idle_sock = \<lparr>rx = [], tx = [], dgrx = [], dgtx = []\<rparr>"

definition idle_world :: "'p \<Rightarrow> ('l, 'p) world" where
  "idle_world p = \<lparr>clock = 0, ticks = [], polls = [], fds = [], calls = [], socks = (\<lambda>_. idle_sock),
     trace = [], locals = p\<rparr>"

definition set_sock :: "fd \<Rightarrow> sock \<Rightarrow> ('l, 'p) world \<Rightarrow> ('l, 'p) world" where
  "set_sock fd s w = w\<lparr>socks := (socks w)(fd := s)\<rparr>"

lemma idle_simps [simp]:
  "rx idle_sock = []" "tx idle_sock = []" "dgrx idle_sock = []" "dgtx idle_sock = []"
  "clock (idle_world p) = 0" "ticks (idle_world p) = []" "polls (idle_world p) = []"
  "fds (idle_world p) = []" "calls (idle_world p) = []" "socks (idle_world p) fd = idle_sock"
  "trace (idle_world p) = []" "locals (idle_world p) = p"
  by (simp_all add: idle_sock_def idle_world_def)

section \<open>The clock\<close>

lemma ceil_ms_mono: "a \<le> b \<Longrightarrow> ceil_ms a \<le> ceil_ms b"
  unfolding ceil_ms_def by (rule div_le_mono) simp

lemma ceil_ms_pos: "0 < a \<Longrightarrow> 0 < ceil_ms a"
  by (simp add: ceil_ms_def div_greater_zero_iff)

lemma ceil_ms_whole [simp]: "ceil_ms (ms * 1000000) = ms"
  by (simp add: ceil_ms_def)

section \<open>Orders on worlds\<close>

text \<open>\<open>within R m\<close>: wherever \<open>m\<close> starts, the world it leaves is related by \<open>R\<close> to the start.\<close>

definition within :: "(('l, 'p) world \<Rightarrow> ('l, 'p) world \<Rightarrow> bool) \<Rightarrow> ('l, 'p, 'a) io \<Rightarrow> bool" where
  "within R m \<longleftrightarrow> (\<forall>w. R w (snd (m w)))"

lemma withinD: "within R m \<Longrightarrow> m w = (r, w') \<Longrightarrow> R w w'"
  by (metis snd_conv within_def)

lemma withinI: "(\<And>w. R w (snd (m w))) \<Longrightarrow> within R m"
  by (simp add: within_def)

lemma within_mono: "within R m \<Longrightarrow> (\<And>w w'. R w w' \<Longrightarrow> S w w') \<Longrightarrow> within S m"
  by (simp add: within_def)

locale world_order =
  fixes R :: "('l, 'p) world \<Rightarrow> ('l, 'p) world \<Rightarrow> bool"
  assumes refl: "R w w"
    and trans: "R u v \<Longrightarrow> R v w \<Longrightarrow> R u w"
begin

lemma within_ret: "within R (ret x)"
  by (simp add: within_def ret_def refl)

lemma within_throw: "within R (throw e)"
  by (simp add: within_def throw_def refl)

lemma within_get_local: "within R (get_local f)"
  by (simp add: within_def get_local_def refl)

lemma within_bind:
  assumes "within R m" and "\<And>x. within R (f x)"
  shows "within R (bind_io m f)"
proof (rule withinI)
  fix w
  obtain r w' where m: "m w = (r, w')"
    by fastforce
  with assms(1) have first: "R w w'"
    by (rule withinD)
  show "R w (snd (bind_io m f w))"
  proof (cases r)
    case (Ok x)
    have "R w' (snd (f x w'))"
      using assms(2) by (simp add: within_def)
    with first Ok m show ?thesis
      by (auto simp: bind_io_def intro: trans)
  qed (use m first in \<open>simp_all add: bind_io_def\<close>)
qed

lemma within_catch:
  assumes "within R m" and "\<And>e k. h e = Some k \<Longrightarrow> within R k"
  shows "within R (catch_io m h)"
proof (rule withinI)
  fix w
  obtain r w' where m: "m w = (r, w')"
    by fastforce
  with assms(1) have first: "R w w'"
    by (rule withinD)
  show "R w (snd (catch_io m h w))"
  proof (cases r)
    case (Throw e)
    show ?thesis
    proof (cases "h e")
      case (Some k)
      then have "R w' (snd (k w'))"
        using assms(2) by (simp add: within_def)
      with first Throw m Some show ?thesis
        by (auto simp: catch_io_def intro: trans)
    qed (use m first Throw in \<open>simp add: catch_io_def\<close>)
  qed (use m first in \<open>simp_all add: catch_io_def\<close>)
qed

lemma within_if: "within R m \<Longrightarrow> within R m' \<Longrightarrow> within R (if b then m else m')"
  by simp

lemma within_case_sum:
  "(\<And>x. within R (f x)) \<Longrightarrow> (\<And>y. within R (g y)) \<Longrightarrow> within R (case s of Inl x \<Rightarrow> f x | Inr y \<Rightarrow> g y)"
  by (simp split: sum.splits)

lemma within_case_option:
  "within R m \<Longrightarrow> (\<And>y. within R (g y)) \<Longrightarrow> within R (case s of None \<Rightarrow> m | Some y \<Rightarrow> g y)"
  by (simp split: option.splits)

lemmas within_rules =
  within_ret within_throw within_get_local within_bind within_if within_case_sum within_case_option

end

subsection \<open>Scripts shrink, the trace grows\<close>

fun rx_event_size :: "rx_event \<Rightarrow> nat" where
  "rx_event_size (Segment bs) = Suc (length bs)"
| "rx_event_size Fin = 1"
| "rx_event_size (RxFail e) = 1"

definition rx_size :: "rx_event list \<Rightarrow> nat" where
  "rx_size es = sum_list (map rx_event_size es)"

lemma rx_size_simps [simp]: "rx_size [] = 0" "rx_size (e # es) = rx_event_size e + rx_size es"
  by (simp_all add: rx_size_def)

definition sock_le :: "sock \<Rightarrow> sock \<Rightarrow> bool" where
  "sock_le s' s \<longleftrightarrow> rx_size (rx s') \<le> rx_size (rx s) \<and> length (tx s') \<le> length (tx s)
     \<and> length (dgrx s') \<le> length (dgrx s) \<and> length (dgtx s') \<le> length (dgtx s)"

text \<open>The order of operations that may open descriptors, and of those that do not.\<close>

definition world_le :: "('l, 'p) world \<Rightarrow> ('l, 'p) world \<Rightarrow> bool" where
  "world_le w w' \<longleftrightarrow> length (fds w') \<le> length (fds w) \<and> length (calls w') \<le> length (calls w)
     \<and> length (ticks w') \<le> length (ticks w) \<and> length (polls w') \<le> length (polls w)
     \<and> clock w \<le> clock w' \<and> prefix (trace w) (trace w')"

definition session_le :: "('l, 'p) world \<Rightarrow> ('l, 'p) world \<Rightarrow> bool" where
  "session_le w w' \<longleftrightarrow> world_le w w' \<and> fds w' = fds w \<and> (\<forall>fd. sock_le (socks w' fd) (socks w fd))"

lemma session_le_world: "session_le w w' \<Longrightarrow> world_le w w'"
  by (simp add: session_le_def)

interpretation world: world_order world_le
  by unfold_locales (auto simp: world_le_def)

lemma sock_le_refl: "sock_le s s"
  by (simp add: sock_le_def)

lemma sock_le_trans: "sock_le s t \<Longrightarrow> sock_le t u \<Longrightarrow> sock_le s u"
  by (auto simp: sock_le_def)

interpretation session: world_order session_le
proof unfold_locales
  fix u v w :: "('l, 'p) world"
  show "session_le w w"
    by (simp add: session_le_def sock_le_refl world.refl)
  assume "session_le u v" "session_le v w"
  then show "session_le u w"
    unfolding session_le_def using world.trans [of u v w] by (auto intro: sock_le_trans)
qed

lemma session_emit: "within session_le (emit a)"
  by (simp add: within_def emit_def session_le_def sock_le_def world_le_def)

lemma session_outputs:
  "within session_le (cout l)" "within session_le (sys_close fd)"
  "within session_le (sys_shutdown fd)" "within session_le (sleep_ms n)"
  by (simp_all add: cout_def sys_close_def sys_shutdown_def sleep_ms_def session_emit)

lemma session_upd_local: "within session_le (upd_local f)"
  by (simp add: within_def upd_local_def session_le_def sock_le_def world_le_def)

lemma session_now: "within session_le sys_now"
  by (simp add: within_def sys_now_def session_le_def sock_le_def world_le_def split: list.splits)

lemma session_poll: "within session_le (sys_poll ps t)"
  by (auto simp: within_def sys_poll_def session_le_def sock_le_def world_le_def Let_def
      split: list.splits poll_event.splits)

lemma session_recv: "within session_le (sys_recv fd n)"
  by (auto simp: within_def sys_recv_def world_updates session_le_def sock_le_def world_le_def
      split: list.splits rx_event.splits)

lemma session_send: "within session_le (sys_send fd bs)"
  by (auto simp: within_def sys_send_def world_updates session_le_def sock_le_def world_le_def Let_def
      split: list.splits tx_event.splits)

lemma session_recvfrom: "within session_le (sys_recvfrom fd n)"
  by (auto simp: within_def sys_recvfrom_def world_updates session_le_def sock_le_def world_le_def Let_def
      split: list.splits dg_event.splits)

lemma session_sendto: "within session_le (sys_sendto fd bs a)"
  by (auto simp: within_def sys_sendto_def world_updates session_le_def sock_le_def world_le_def Let_def
      split: list.splits tx_event.splits)

lemma session_call: "within session_le sys_call"
  by (auto simp: within_def sys_call_def session_le_def sock_le_def world_le_def
      split: list.splits)

lemmas session_calls = session_outputs session_upd_local session_now session_poll session_recv
  session_send session_recvfrom session_sendto session_call

lemma world_open: "within world_le sys_open"
  by (auto simp: within_def sys_open_def world_le_def split: list.splits sum.splits)

lemmas world_calls = world_open session_calls [THEN within_mono, OF session_le_world]

subsection \<open>Actions appended\<close>

text \<open>Operations that leave the program's variables alone and append only actions satisfying \<open>Q\<close>.\<close>

definition appends :: "('l action \<Rightarrow> bool) \<Rightarrow> ('l, 'p) world \<Rightarrow> ('l, 'p) world \<Rightarrow> bool" where
  "appends Q w w' \<longleftrightarrow> locals w' = locals w \<and> (\<exists>as. trace w' = trace w @ as \<and> list_all Q as)"

interpretation appends: world_order "appends Q" for Q :: "'l action \<Rightarrow> bool"
  by unfold_locales (fastforce simp: appends_def)+

lemma appends_emit: "Q a \<Longrightarrow> within (appends Q) (emit a)"
  by (simp add: within_def emit_def appends_def)

lemma appends_cout: "Q (Line l) \<Longrightarrow> within (appends Q) (cout l)"
  by (simp add: cout_def appends_emit)

lemma appends_now: "within (appends Q) sys_now"
  by (simp add: within_def sys_now_def appends_def split: list.splits)

lemma appends_poll: "(\<And>t. Q (Polled t)) \<Longrightarrow> within (appends Q) (sys_poll ps t)"
  by (auto simp: within_def sys_poll_def appends_def Let_def split: list.splits poll_event.splits)

lemma appends_recv: "within (appends Q) (sys_recv fd n)"
  by (auto simp: within_def sys_recv_def world_updates appends_def split: list.splits rx_event.splits)

lemma appends_send: "(\<And>bs. Q (Sent fd bs)) \<Longrightarrow> within (appends Q) (sys_send fd data)"
  by (auto simp: within_def sys_send_def world_updates appends_def split: list.splits tx_event.splits)

lemma appends_recvfrom: "within (appends Q) (sys_recvfrom fd n)"
  by (auto simp: within_def sys_recvfrom_def world_updates appends_def
      split: list.splits dg_event.splits)

lemma appends_sendto: "(\<And>bs. Q (SentTo fd a bs)) \<Longrightarrow> within (appends Q) (sys_sendto fd data a)"
  by (auto simp: within_def sys_sendto_def world_updates appends_def
      split: list.splits tx_event.splits)

lemma appends_open: "within (appends Q) sys_open"
  by (auto simp: within_def sys_open_def appends_def split: list.splits sum.splits)

lemma appends_call: "within (appends Q) sys_call"
  by (auto simp: within_def sys_call_def appends_def split: list.splits)

lemma appends_close: "Q (Closed fd) \<Longrightarrow> within (appends Q) (sys_close fd)"
  by (simp add: sys_close_def appends_emit)

lemmas appends_calls = appends_now appends_recv appends_recvfrom appends_open appends_call

lemma appends_mono: "appends Q w w' \<Longrightarrow> (\<And>a. Q a \<Longrightarrow> Q' a) \<Longrightarrow> appends Q' w w'"
  unfolding appends_def by (metis (no_types, lifting) list.pred_mono_strong)

text \<open>The actions appended satisfy \<open>Q\<close>, whatever happens to the program's variables.\<close>

definition logs :: "('l action \<Rightarrow> bool) \<Rightarrow> ('l, 'p) world \<Rightarrow> ('l, 'p) world \<Rightarrow> bool" where
  "logs Q w w' \<longleftrightarrow> (\<exists>as. trace w' = trace w @ as \<and> list_all Q as)"

interpretation logs: world_order "logs Q" for Q :: "'l action \<Rightarrow> bool"
  by unfold_locales (fastforce simp: logs_def)+

lemma logs_appends: "within (appends Q) m \<Longrightarrow> within (logs Q) m"
  by (erule within_mono) (auto simp: appends_def logs_def)

lemma logs_upd_local: "within (logs Q) (upd_local f)"
  by (simp add: within_def upd_local_def logs_def)

lemma logs_emit: "Q a \<Longrightarrow> within (logs Q) (emit a)"
  by (simp add: appends_emit logs_appends)

lemmas logs_calls = appends_calls [THEN logs_appends] logs_upd_local

subsection \<open>Invariants\<close>

text \<open>An operation preserves a predicate on worlds; every predicate gives such an order.\<close>

definition preserves :: "(('l, 'p) world \<Rightarrow> bool) \<Rightarrow> ('l, 'p) world \<Rightarrow> ('l, 'p) world \<Rightarrow> bool" where
  "preserves P w w' \<longleftrightarrow> (P w \<longrightarrow> P w')"

interpretation preserves: world_order "preserves P" for P :: "('l, 'p) world \<Rightarrow> bool"
  by unfold_locales (auto simp: preserves_def)

subsection \<open>Progress\<close>

text \<open>A successful receive uses up part of its script, a successful open its descriptor.\<close>

lemma sys_recv_less:
  assumes "sys_recv fd n w = (Ok r, w')" "0 < n"
  shows "rx_size (rx (socks w' fd)) < rx_size (rx (socks w fd))"
  using assms by (auto simp: sys_recv_def world_updates split: list.splits rx_event.splits)

lemma sys_send_less:
  "sys_send fd bs w = (Ok r, w') \<Longrightarrow> length (tx (socks w' fd)) < length (tx (socks w fd))"
  by (auto simp: sys_send_def world_updates Let_def split: list.splits tx_event.splits)

lemma sys_recvfrom_less:
  "sys_recvfrom fd n w = (Ok r, w') \<Longrightarrow> length (dgrx (socks w' fd)) < length (dgrx (socks w fd))"
  by (auto simp: sys_recvfrom_def world_updates Let_def split: list.splits dg_event.splits)

lemma sys_now_less: "sys_now w = (Ok r, w') \<Longrightarrow> length (ticks w') < length (ticks w)"
  by (auto simp: sys_now_def split: list.splits)

lemma sys_poll_less: "sys_poll ps t w = (Ok r, w') \<Longrightarrow> length (polls w') < length (polls w)"
  by (auto simp: sys_poll_def Let_def split: list.splits poll_event.splits)

lemma sys_open_less: "sys_open w = (Ok r, w') \<Longrightarrow> length (fds w') < length (fds w)"
  by (auto simp: sys_open_def split: list.splits sum.splits)

lemma sys_calls_no_throw:
  "sys_now w \<noteq> (Throw e, w')" "sys_poll ps t w \<noteq> (Throw e, w')" "sys_recv fd n w \<noteq> (Throw e, w')"
  "sys_send fd bs w \<noteq> (Throw e, w')" "sys_recvfrom fd n w \<noteq> (Throw e, w')"
  "sys_sendto fd bs a w \<noteq> (Throw e, w')" "sys_open w \<noteq> (Throw e, w')" "sys_call w \<noteq> (Throw e, w')"
  by (auto simp: sys_now_def sys_poll_def sys_recv_def sys_send_def world_updates sys_recvfrom_def world_updates sys_sendto_def world_updates
      sys_open_def sys_call_def Let_def
      split: list.splits sum.splits poll_event.splits rx_event.splits tx_event.splits dg_event.splits)

section \<open>Exceptions\<close>

text \<open>\<open>raises E m\<close>: every exception that leaves \<open>m\<close> satisfies \<open>E\<close>.\<close>

definition raises :: "(exn \<Rightarrow> bool) \<Rightarrow> ('l, 'p, 'a) io \<Rightarrow> bool" where
  "raises E m \<longleftrightarrow> (\<forall>w e w'. m w = (Throw e, w') \<longrightarrow> E e)"

lemma raisesD: "raises E m \<Longrightarrow> m w = (Throw e, w') \<Longrightarrow> E e"
  unfolding raises_def by blast

lemma raisesI: "(\<And>w e w'. m w = (Throw e, w') \<Longrightarrow> E e) \<Longrightarrow> raises E m"
  by (simp add: raises_def)

lemma raises_ret: "raises E (ret x)"
  by (simp add: raises_def ret_def)

lemma raises_throw: "E e \<Longrightarrow> raises E (throw e)"
  by (simp add: raises_def throw_def)

lemma raises_bind: "raises E m \<Longrightarrow> (\<And>x. raises E (f x)) \<Longrightarrow> raises E (bind_io m f)"
  by (rule raisesI) (auto simp: bind_io_eq_Throw dest: raisesD)

lemma raises_catch:
  assumes "raises E m" and "\<And>e k. E e \<Longrightarrow> h e = Some k \<Longrightarrow> raises E' k"
    and "\<And>e. E e \<Longrightarrow> h e = None \<Longrightarrow> E' e"
  shows "raises E' (catch_io m h)"
proof (rule raisesI)
  fix w e w'
  assume run: "catch_io m h w = (Throw e, w')"
  then obtain e0 w0 where "m w = (Throw e0, w0)"
    and rest: "(case h e0 of None \<Rightarrow> (Throw e0, w0) | Some k \<Rightarrow> k w0) = (Throw e, w')"
    by (auto simp: catch_io_def split: prod.splits result.splits)
  with assms(1) have "E e0"
    by (auto dest: raisesD)
  with rest assms(2,3) show "E' e"
    by (auto split: option.splits dest: raisesD)
qed

lemma raises_mono: "raises E m \<Longrightarrow> (\<And>e. E e \<Longrightarrow> E' e) \<Longrightarrow> raises E' m"
  by (rule raisesI) (auto dest: raisesD)

lemma raises_if: "raises E m \<Longrightarrow> raises E m' \<Longrightarrow> raises E (if b then m else m')"
  by simp

lemma raises_case_sum:
  "(\<And>x. raises E (f x)) \<Longrightarrow> (\<And>y. raises E (g y)) \<Longrightarrow> raises E (case s of Inl x \<Rightarrow> f x | Inr y \<Rightarrow> g y)"
  by (simp split: sum.splits)

lemma raises_case_option:
  "raises E m \<Longrightarrow> (\<And>y. raises E (g y)) \<Longrightarrow> raises E (case s of None \<Rightarrow> m | Some y \<Rightarrow> g y)"
  by (simp split: option.splits)

lemma raises_calls:
  "raises E sys_now" "raises E (sys_poll ps t)" "raises E (sys_recv fd n)" "raises E (sys_send fd bs)"
  "raises E (sys_recvfrom fd n)" "raises E (sys_sendto fd bs a)" "raises E sys_open" "raises E sys_call"
  "raises E (emit act)" "raises E (cout l)" "raises E (sys_close fd)" "raises E (sys_shutdown fd)"
  "raises E (sleep_ms n)" "raises E (get_local f)" "raises E (upd_local g)"
  by (rule raisesI, simp add: sys_calls_no_throw cout_def sys_close_def sys_shutdown_def sleep_ms_def
      emit_def get_local_def upd_local_def)+

lemmas raises_rules = raises_ret raises_throw raises_bind raises_if raises_case_sum raises_case_option
  raises_calls

text \<open>The exceptions derived from \<open>std::exception\<close>, which the programs' handlers catch.\<close>

definition standard :: "exn \<Rightarrow> bool" where
  "standard e \<longleftrightarrow> (\<exists>m. std_what e = Some m)"

lemma standard_simps [simp]:
  "standard (RuntimeError m)" "standard (ConnectionLost m)" "standard (PeerDisconnected m)" "\<not> standard ResponseTimeout"
  by (simp_all add: standard_def)

end
