(* ===== verification/Streams.thy ===== *)
theory Streams
  imports Codec Worlds
begin

text \<open>
  Messages over byte streams: the loops \<open>send_all\<close> and \<open>recv_exact\<close> that
  \<open>src/tcp/receiver.cpp\<close>, \<open>src/tcp/sender.cpp\<close> and \<open>src/fault_injector/tcp_proxy.cpp\<close>
  share up to the exceptions they throw, the frame reader \<open>receive_packet\<close> they all
  build on top of it, and the interface between the two.
\<close>

section \<open>The loops\<close>

text \<open>
  \<open>send_all\<close>: \<open>sent\<close> is \<open>total_sent\<close>; \<open>on_error\<close> is the exception for an error other
  than an interruption, \<open>on_zero\<close> the one for a \<open>send\<close> that returns 0.
\<close>

function send_loop ::
  "(errno \<Rightarrow> exn) \<Rightarrow> exn \<Rightarrow> fd \<Rightarrow> bytes \<Rightarrow> nat \<Rightarrow> ('l, 'p) world \<Rightarrow> unit result \<times> ('l, 'p) world" where
  "send_loop on_error on_zero fd data sent w =
     (if sent < length data then
        (case sys_send fd (drop sent data) w of
           (Ok (Inl e), w') \<Rightarrow>
             if e = EINTR then send_loop on_error on_zero fd data sent w'
             else (Throw (on_error e), w')
         | (Ok (Inr k), w') \<Rightarrow>
             if k = 0 then (Throw on_zero, w')
             else send_loop on_error on_zero fd data (sent + k) w'
         | (Throw e, w') \<Rightarrow> (Throw e, w')
         | (Blocked, w') \<Rightarrow> (Blocked, w'))
      else (Ok (), w))"
  by pat_completeness auto
termination
  by (relation "measure (\<lambda>(_, _, fd, _, _, w). length (tx (socks w fd)))")
    (auto dest: sys_send_less [OF sym])

text \<open>
  \<open>recv_exact\<close> on a blocking socket: \<open>buf\<close> holds the \<open>total_received\<close> bytes read so
  far, \<open>on_eof\<close> is the exception thrown when the peer has closed the connection.
\<close>

function recv_loop ::
  "exn \<Rightarrow> fd \<Rightarrow> nat \<Rightarrow> bytes \<Rightarrow> ('l, 'p) world \<Rightarrow> bytes result \<times> ('l, 'p) world" where
  "recv_loop on_eof fd n buf w =
     (if length buf < n then
        (case sys_recv fd (n - length buf) w of
           (Ok (Inl e), w') \<Rightarrow>
             if e = EINTR then recv_loop on_eof fd n buf w'
             else (Throw (RuntimeError (Sys ''recv failed: '' e)), w')
         | (Ok (Inr bs), w') \<Rightarrow>
             if bs = [] then (Throw on_eof, w')
             else recv_loop on_eof fd n (buf @ bs) w'
         | (Throw e, w') \<Rightarrow> (Throw e, w')
         | (Blocked, w') \<Rightarrow> (Blocked, w'))
      else (Ok buf, w))"
  by pat_completeness auto
termination
  by (relation "measure (\<lambda>(_, fd, _, _, w). rx_size (rx (socks w fd)))")
    (auto dest: sys_recv_less [OF sym])

declare send_loop.simps [simp del] recv_loop.simps [simp del]

text \<open>A codec result as the outcome of an operation: errors are \<open>runtime_error\<close>s.\<close>

definition lift_codec :: "codec_error + 'a \<Rightarrow> ('l, 'p, 'a) io" where
  "lift_codec r = (case r of Inl e \<Rightarrow> throw (RuntimeError (Msg (codec_message e))) | Inr x \<Rightarrow> ret x)"

text \<open>\<open>receive_packet\<close> over a given \<open>recv_exact\<close>: header, length, payload, decode.\<close>

definition framed_receive :: "(nat \<Rightarrow> ('l, 'p, bytes) io) \<Rightarrow> ('l, 'p, packet) io" where
  "framed_receive reader =
     bind_io (reader kHeaderSize) (\<lambda>header.
     bind_io (lift_codec (get_payload_length header)) (\<lambda>payload_length.
     bind_io (reader (unat payload_length)) (\<lambda>pl.
     lift_codec (decode_packet header pl))))"

section \<open>What \<open>send_all\<close> puts on the wire\<close>

fun wire_out :: "fd \<Rightarrow> 'l action list \<Rightarrow> bytes" where
  "wire_out fd [] = []"
| "wire_out fd (Sent fd' bs # as) = (if fd' = fd then bs @ wire_out fd as else wire_out fd as)"
| "wire_out fd (_ # as) = wire_out fd as"

lemma wire_out_append [simp]: "wire_out fd (as @ bs) = wire_out fd as @ wire_out fd bs"
  by (induction fd as rule: wire_out.induct) simp_all

definition only_sent :: "fd \<Rightarrow> 'l action list \<Rightarrow> bool" where
  "only_sent fd as \<longleftrightarrow> (\<forall>a \<in> set as. \<exists>bs. a = Sent fd bs)"

lemma only_sent_simps [simp]:
  "only_sent fd []" "only_sent fd (Sent fd bs # as) = only_sent fd as"
  "only_sent fd (as @ as') \<longleftrightarrow> only_sent fd as \<and> only_sent fd as'"
  by (auto simp: only_sent_def)

lemma only_sent_other: "only_sent fd as \<Longrightarrow> fd' \<noteq> fd \<Longrightarrow> wire_out fd' as = []"
  by (induction as) (auto simp: only_sent_def)

text \<open>
  Whatever the kernel answers, \<open>send_all\<close> changes nothing but the socket's script and the
  trace; the bytes it has sent are a prefix of what was left to send, all of it
  exactly when it returns.
\<close>

definition sends :: "fd \<Rightarrow> bytes \<Rightarrow> ('l, 'p) world \<Rightarrow> 'a result \<Rightarrow> ('l, 'p) world \<Rightarrow> bool" where
  "sends fd data w r w' \<longleftrightarrow>
     (\<exists>es as. w' = set_tx fd es (w\<lparr>trace := trace w @ as\<rparr>) \<and> only_sent fd as
       \<and> prefix (wire_out fd as) data \<and> ((\<exists>x. r = Ok x) \<longleftrightarrow> wire_out fd as = data))"

lemma set_tx_simps [simp]:
  "tx (socks (set_tx fd es w) fd) = es" "trace (set_tx fd es w) = trace w"
  "rx (socks (set_tx fd es w) fd') = rx (socks w fd')" "locals (set_tx fd es w) = locals w"
  "fds (set_tx fd es w) = fds w" "ticks (set_tx fd es w) = ticks w"
  "polls (set_tx fd es w) = polls w" "clock (set_tx fd es w) = clock w"
  "calls (set_tx fd es w) = calls w"
  by (simp_all add: set_tx_def)

lemma set_tx_set_tx: "set_tx fd es (set_tx fd es' w\<lparr>trace := t\<rparr>\<lparr>trace := t'\<rparr>) = set_tx fd es (w\<lparr>trace := t'\<rparr>)"
  by (simp add: set_tx_def)

lemma sys_send_cases:
  "(\<exists>k es. sys_send fd d w =
      (Ok (Inr (min k (length d))), set_tx fd es (w\<lparr>trace := trace w @ [Sent fd (take k d)]\<rparr>)))
   \<or> (\<exists>e es. sys_send fd d w = (Ok (Inl e), set_tx fd es w)) \<or> sys_send fd d w = (Blocked, w)"
  by (auto simp: sys_send_def split: list.splits tx_event.splits)

lemma set_tx_same [simp]: "set_tx fd (tx (socks w fd)) w = w"
  by (simp add: set_tx_def fun_upd_idem)

lemma sends_stop:
  "(\<exists>x. r = Ok x) \<longleftrightarrow> d = [] \<Longrightarrow> sends fd d w r (set_tx fd es w)"
  unfolding sends_def by (rule exI [of _ es], rule exI [of _ "[]"]) auto

lemma sends_stop_same: "(\<exists>x. r = Ok x) \<longleftrightarrow> d = [] \<Longrightarrow> sends fd d w r w"
  using sends_stop [of r d fd w "tx (socks w fd)"] by simp

lemma sends_skip: "sends fd d (set_tx fd es w) r w' \<Longrightarrow> sends fd d w r w'"
  by (auto simp: sends_def set_tx_def)

lemma sends_more:
  assumes "sends fd (drop k d) (set_tx fd es (w\<lparr>trace := trace w @ [Sent fd (take k d)]\<rparr>)) r w'"
  shows "sends fd d w r w'"
proof -
  from assms obtain es' as where w': "w' = set_tx fd es' (w\<lparr>trace := trace w @ Sent fd (take k d) # as\<rparr>)"
    and as: "only_sent fd as" "prefix (wire_out fd as) (drop k d)"
      "(\<exists>x. r = Ok x) \<longleftrightarrow> wire_out fd as = drop k d"
    by (auto simp: sends_def set_tx_def)
  have all: "take k d @ wire_out fd as = d \<longleftrightarrow> wire_out fd as = drop k d"
    by (metis append_take_drop_id same_append_eq)
  from as(2) have "prefix (take k d @ wire_out fd as) (take k d @ drop k d)"
    by (simp only: same_prefix_prefix)
  with as all w' show ?thesis
    unfolding sends_def by (auto intro!: exI [of _ es'] exI [of _ "Sent fd (take k d) # as"])
qed

lemma send_loop_sends:
  "sent \<le> length data \<Longrightarrow> send_loop on_error on_zero fd data sent w = (r, w') \<Longrightarrow>
     sends fd (drop sent data) w r w'"
proof (induction on_error on_zero fd data sent w arbitrary: r w' rule: send_loop.induct)
  case (1 on_error on_zero fd data sent w)
  note run = "1.prems"(2) [unfolded send_loop.simps [of on_error on_zero fd data sent w]]
  show ?case
  proof (cases "sent < length data")
    case False
    with run "1.prems"(1) show ?thesis
      by (auto intro: sends_stop_same)
  next
    case True
    from sys_send_cases [of fd "drop sent data" w] show ?thesis
    proof (elim disjE exE)
      fix k es
      let ?w = "set_tx fd es (w\<lparr>trace := trace w @ [Sent fd (take k (drop sent data))]\<rparr>)"
      define m where "m = min k (length (drop sent data))"
      assume "sys_send fd (drop sent data) w = (Ok (Inr (min k (length (drop sent data)))), ?w)"
      then have step: "sys_send fd (drop sent data) w = (Ok (Inr m), ?w)"
        by (simp add: m_def)
      show ?thesis
      proof (cases "m = 0")
        case zero: True
        with \<open>sent < length data\<close> have "k = 0"
          by (simp add: m_def)
        with run step True zero have "w' = ?w" "r = Throw on_zero"
          by simp_all
        with \<open>k = 0\<close> True show ?thesis
          unfolding sends_def by (auto intro!: exI [of _ es] exI [of _ "[Sent fd []]"])
      next
        case False
        have "sends fd (drop (sent + m) data) ?w r w'"
        proof (rule "1.IH"(2) [OF True step [symmetric] refl refl False])
          show "sent + m \<le> length data"
            using True by (simp add: m_def)
          show "send_loop on_error on_zero fd data (sent + m) ?w = (r, w')"
            using run step True False by simp
        qed
        moreover have "drop (sent + m) data = drop k (drop sent data)"
          by (simp add: m_def min_def add.commute)
        ultimately show ?thesis
          by (auto intro: sends_more)
      qed
    next
      fix e es
      assume step: "sys_send fd (drop sent data) w = (Ok (Inl e), set_tx fd es w)"
      show ?thesis
      proof (cases "e = EINTR")
        case True
        have "sends fd (drop sent data) (set_tx fd es w) r w'"
          using run step True \<open>sent < length data\<close> "1.prems"(1)
          by (intro "1.IH"(1) [OF _ step [symmetric]]) auto
        then show ?thesis
          by (rule sends_skip)
      next
        case False
        with run step \<open>sent < length data\<close> show ?thesis
          by (auto intro: sends_stop)
      qed
    next
      assume "sys_send fd (drop sent data) w = (Blocked, w)"
      with run True show ?thesis
        by (auto intro: sends_stop_same)
    qed
  qed
qed

text \<open>
  A socket that keeps accepting: interruptions and partial sends, but every \<open>send\<close>
  takes at least a byte, and there are at least \<open>m\<close> of them. Then \<open>send_all\<close> returns
  for up to \<open>m\<close> bytes.
\<close>

fun good_tx :: "tx_event \<Rightarrow> bool" where
  "good_tx (TxAccept k) = (0 < k)"
| "good_tx (TxFail e) = (e = EINTR)"

fun accepts :: "tx_event list \<Rightarrow> nat" where
  "accepts [] = 0"
| "accepts (TxAccept k # es) = Suc (accepts es)"
| "accepts (TxFail e # es) = accepts es"

definition accepting :: "fd \<Rightarrow> nat \<Rightarrow> ('l, 'p) world \<Rightarrow> bool" where
  "accepting fd m w \<longleftrightarrow> list_all good_tx (tx (socks w fd)) \<and> m \<le> accepts (tx (socks w fd))"

lemma accepting_frame [simp]:
  "accepting fd m (w\<lparr>trace := t\<rparr>) = accepting fd m w" "accepting fd m (w\<lparr>locals := l\<rparr>) = accepting fd m w"
  by (simp_all add: accepting_def)

lemma accepting_mono: "accepting fd m w \<Longrightarrow> m' \<le> m \<Longrightarrow> accepting fd m' w"
  by (simp add: accepting_def)

lemma spare_after_send:
  fixes m k l s :: nat
  shows "0 < k \<Longrightarrow> k \<le> l - s \<Longrightarrow> m - (l - s) \<le> m - 1 - (l - (s + k))"
  by arith

lemma send_loop_completes:
  assumes "accepting fd m w" "length data \<le> sent + m"
  shows "\<exists>w'. send_loop on_error on_zero fd data sent w = (Ok (), w') \<and> accepting fd (m - (length data - sent)) w'"
  using assms
proof (induction "tx (socks w fd)" arbitrary: sent w m)
  case Nil
  then show ?case
    by (simp add: send_loop.simps accepting_def)
next
  case (Cons e es)
  show ?case
  proof (cases "sent < length data")
    case False
    with Cons.prems show ?thesis
      by (intro exI [of _ w]) (auto simp: send_loop.simps accepting_def)
  next
    case True
    show ?thesis
    proof (cases e)
      case (TxAccept k)
      let ?k = "min k (length data - sent)"
      let ?w = "set_tx fd es (w\<lparr>trace := trace w @ [Sent fd (take k (drop sent data))]\<rparr>)"
      have "0 < ?k"
        using Cons.prems Cons.hyps(2) TxAccept True by (auto simp: accepting_def simp flip: Cons.hyps(2))
      moreover have acc: "accepting fd (m - 1) ?w"
        using Cons.prems TxAccept by (auto simp: accepting_def simp flip: Cons.hyps(2))
      moreover have bound: "length data \<le> (sent + ?k) + (m - 1)"
        using Cons.prems(2) True \<open>0 < ?k\<close> by linarith
      moreover have "es = tx (socks ?w fd)"
        by simp
      from Cons.hyps(1) [OF this acc bound] obtain w' where
        "send_loop on_error on_zero fd data (sent + ?k) ?w = (Ok (), w')"
        "accepting fd (m - 1 - (length data - (sent + ?k))) w'"
        by (elim exE conjE) (rule that)
      moreover from this(2) have "accepting fd (m - (length data - sent)) w'"
        by (rule accepting_mono) (rule spare_after_send [OF \<open>0 < ?k\<close>], simp)
      moreover have "sys_send fd (drop sent data) w = (Ok (Inr ?k), ?w)"
        using TxAccept by (simp add: sys_send_def flip: Cons.hyps(2))
      ultimately show ?thesis
        using True \<open>0 < ?k\<close> by (subst send_loop.simps) auto
    next
      case (TxFail e')
      with Cons.prems have "e' = EINTR" "accepting fd m (set_tx fd es w)"
        by (auto simp: accepting_def simp flip: Cons.hyps(2))
      moreover have "sys_send fd (drop sent data) w = (Ok (Inl e'), set_tx fd es w)"
        using TxFail by (simp add: sys_send_def flip: Cons.hyps(2))
      ultimately show ?thesis
        using Cons.hyps(1) [of "set_tx fd es w" m sent] Cons.prems(2) True
        by (subst send_loop.simps) auto
    qed
  qed
qed

section \<open>What \<open>recv_exact\<close> takes from the stream\<close>

fun stream_bytes :: "rx_event list \<Rightarrow> bytes" where
  "stream_bytes [] = []"
| "stream_bytes (Segment bs # es) = bs @ stream_bytes es"
| "stream_bytes (_ # es) = stream_bytes es"

text \<open>An event that keeps the stream going: data, or an interrupted call.\<close>

fun benign :: "rx_event \<Rightarrow> bool" where
  "benign (Segment bs) = (bs \<noteq> [])"
| "benign Fin = False"
| "benign (RxFail e) = (e = EINTR)"

lemma set_rx_simps [simp]:
  "rx (socks (set_rx fd es w) fd) = es" "trace (set_rx fd es w) = trace w"
  "tx (socks (set_rx fd es w) fd') = tx (socks w fd')" "locals (set_rx fd es w) = locals w"
  "fds (set_rx fd es w) = fds w" "ticks (set_rx fd es w) = ticks w"
  "polls (set_rx fd es w) = polls w" "clock (set_rx fd es w) = clock w"
  "calls (set_rx fd es w) = calls w" "set_rx fd es (set_rx fd es' w) = set_rx fd es w"
  "set_rx fd (rx (socks w fd)) w = w"
  "fd' \<noteq> fd \<Longrightarrow> socks (set_rx fd es w) fd' = socks w fd'"
  by (simp_all add: set_rx_def fun_upd_idem)

lemma sys_recv_cases:
  assumes "0 < n"
  obtains (data) bs es where "bs \<noteq> []" "length bs \<le> n"
      "sys_recv fd n w = (Ok (Inr bs), set_rx fd es w)"
      "stream_bytes (rx (socks w fd)) = bs @ stream_bytes es"
  | (eof) es where "sys_recv fd n w = (Ok (Inr []), set_rx fd es w)"
      "stream_bytes (rx (socks w fd)) = stream_bytes es"
  | (error) e es where "sys_recv fd n w = (Ok (Inl e), set_rx fd es w)"
      "stream_bytes (rx (socks w fd)) = stream_bytes es"
  | (blocked) "sys_recv fd n w = (Blocked, w)"
proof (cases "rx (socks w fd)")
  case Nil
  then show ?thesis
    by (auto simp: sys_recv_def intro: blocked)
next
  case (Cons ev es)
  show ?thesis
  proof (cases ev)
    case (Segment bs)
    let ?es = "if length bs \<le> n then es else Segment (drop n bs) # es"
    have "sys_recv fd n w = (Ok (Inr (take n bs)), set_rx fd ?es w)"
      "stream_bytes (rx (socks w fd)) = take n bs @ stream_bytes ?es"
      using Cons Segment by (simp_all add: sys_recv_def)
    then show ?thesis
      using assms data [of "take n bs" ?es] eof [of ?es] by (cases "bs = []") auto
  next
    case Fin
    with Cons eof [of es] show ?thesis
      by (simp add: sys_recv_def)
  next
    case (RxFail e)
    with Cons error [of e es] show ?thesis
      by (simp add: sys_recv_def)
  qed
qed

text \<open>
  Whatever the kernel answers, \<open>recv_exact\<close> changes nothing but the socket's script. The
  bytes it returns are the next ones of the stream, as many as were asked for, and
  the rest stays; it fails with the end-of-stream exception or a receive error only.
\<close>

definition takes :: "exn \<Rightarrow> fd \<Rightarrow> nat \<Rightarrow> bytes \<Rightarrow> ('l, 'p) world \<Rightarrow> bytes result \<Rightarrow> ('l, 'p) world \<Rightarrow> bool" where
  "takes on_eof fd n buf w r w' \<longleftrightarrow>
     (\<exists>es got. w' = set_rx fd es w \<and> stream_bytes (rx (socks w fd)) = got @ stream_bytes es
       \<and> (\<forall>out. r = Ok out \<longrightarrow> out = buf @ got \<and> length out = n)
       \<and> (\<forall>e. r = Throw e \<longrightarrow> e = on_eof \<or> (\<exists>err. err \<noteq> EINTR \<and> e = RuntimeError (Sys ''recv failed: '' err))))"

lemma takes_more:
  assumes "takes on_eof fd n (buf @ bs) (set_rx fd es w) r w'"
    and "stream_bytes (rx (socks w fd)) = bs @ stream_bytes es"
  shows "takes on_eof fd n buf w r w'"
proof -
  from assms(1) obtain es' got where "w' = set_rx fd es' w" "stream_bytes es = got @ stream_bytes es'"
    "\<And>out. r = Ok out \<Longrightarrow> out = (buf @ bs) @ got \<and> length out = n"
    "\<And>e. r = Throw e \<Longrightarrow> e = on_eof \<or> (\<exists>err. err \<noteq> EINTR \<and> e = RuntimeError (Sys ''recv failed: '' err))"
    by (auto simp: takes_def)
  with assms(2) show ?thesis
    unfolding takes_def by (intro exI [of _ es'] exI [of _ "bs @ got"]) simp
qed

lemma takes_stop:
  assumes "\<And>out. r \<noteq> Ok out"
    and "\<And>e. r = Throw e \<Longrightarrow> e = on_eof \<or> (\<exists>err. err \<noteq> EINTR \<and> e = RuntimeError (Sys ''recv failed: '' err))"
    and "stream_bytes (rx (socks w fd)) = stream_bytes es"
  shows "takes on_eof fd n buf w r (set_rx fd es w)"
  using assms unfolding takes_def by (intro exI [of _ es] exI [of _ "[]"]) simp

lemma recv_loop_takes:
  "length buf \<le> n \<Longrightarrow> recv_loop on_eof fd n buf w = (r, w') \<Longrightarrow> takes on_eof fd n buf w r w'"
proof (induction on_eof fd n buf w arbitrary: r w' rule: recv_loop.induct)
  case (1 on_eof fd n buf w)
  note run = "1.prems"(2) [unfolded recv_loop.simps [of on_eof fd n buf w]]
  show ?case
  proof (cases "length buf < n")
    case False
    with run "1.prems"(1) have "r = Ok buf" "w' = w" "length buf = n"
      by auto
    then show ?thesis
      unfolding takes_def by (intro exI [of _ "rx (socks w fd)"] exI [of _ "[]"]) simp
  next
    case True
    then have "0 < n - length buf"
      by simp
    then show ?thesis
    proof (cases rule: sys_recv_cases [where fd = fd and w = w])
      case (data bs es)
      have "takes on_eof fd n (buf @ bs) (set_rx fd es w) r w'"
        by (rule "1.IH"(2) [OF True data(3) [symmetric] refl refl data(1)])
          (use data run True in auto)
      then show ?thesis
        using data(4) by (rule takes_more)
    next
      case (eof es)
      with run True show ?thesis
        by (auto intro: takes_stop)
    next
      case (error e es)
      show ?thesis
      proof (cases "e = EINTR")
        case eintr: True
        have "takes on_eof fd n buf (set_rx fd es w) r w'"
          by (rule "1.IH"(1) [OF True error(1) [symmetric] refl refl eintr])
            (use error run True eintr in auto)
        then show ?thesis
          using takes_more [of on_eof fd n buf "[]" es w r w'] error(2) by simp
      next
        case False
        with error run True show ?thesis
          by (auto intro!: takes_stop)
      qed
    next
      case blocked
      with run True have "r = Blocked" "w' = w"
        by auto
      then show ?thesis
        using takes_stop [where es = "rx (socks w fd)" and w = w and fd = fd and r = Blocked] by simp
    qed
  qed
qed

subsection \<open>Streams that hold enough bytes, and streams that end\<close>

text \<open>
  \<open>incoming fd bs w\<close>: the bytes \<open>bs\<close> are about to arrive on \<open>fd\<close>, cut into segments in
  any way, with interruptions anywhere. \<open>ending fd bs w\<close>: after them the peer has closed.
\<close>

definition incoming :: "fd \<Rightarrow> bytes \<Rightarrow> ('l, 'p) world \<Rightarrow> bool" where
  "incoming fd bs w \<longleftrightarrow>
     (\<exists>es tail. rx (socks w fd) = es @ tail \<and> list_all benign es \<and> stream_bytes es = bs)"

definition ending :: "fd \<Rightarrow> bytes \<Rightarrow> ('l, 'p) world \<Rightarrow> bool" where
  "ending fd bs w \<longleftrightarrow>
     (\<exists>es tail. rx (socks w fd) = es @ Fin # tail \<and> list_all benign es \<and> stream_bytes es = bs)"

definition only_rx :: "fd \<Rightarrow> ('l, 'p) world \<Rightarrow> ('l, 'p) world \<Rightarrow> bool" where
  "only_rx fd w w' \<longleftrightarrow> (\<exists>es. w' = set_rx fd es w)"

lemma only_rx_refl: "only_rx fd w w"
  unfolding only_rx_def by (metis set_rx_simps(11))

lemma only_rx_trans: "only_rx fd u v \<Longrightarrow> only_rx fd v w \<Longrightarrow> only_rx fd u w"
  by (auto simp: only_rx_def)

text \<open>One receive from a benign stream: some nonempty part of what is there and was asked for.\<close>

lemma sys_recv_benign:
  assumes "rx (socks w fd) = es @ tail" "list_all benign es" "stream_bytes es \<noteq> []" "0 < n"
  obtains (data) bs es' where "bs \<noteq> []" "length bs \<le> n" "list_all benign es'"
      "stream_bytes es = bs @ stream_bytes es'" "rx_size es' < rx_size es"
      "sys_recv fd n w = (Ok (Inr bs), set_rx fd (es' @ tail) w)"
  | (interrupted) es' where "list_all benign es'" "stream_bytes es' = stream_bytes es"
      "rx_size es' < rx_size es" "sys_recv fd n w = (Ok (Inl EINTR), set_rx fd (es' @ tail) w)"
proof (cases es)
  case (Cons e es')
  show ?thesis
  proof (cases e)
    case (Segment bs)
    let ?es = "if length bs \<le> n then es' else Segment (drop n bs) # es'"
    show ?thesis
      by (rule data [of "take n bs" ?es]) (use assms Cons Segment in \<open>auto simp: sys_recv_def\<close>)
  next
    case Fin
    with assms Cons show ?thesis by simp
  next
    case (RxFail e')
    show ?thesis
      by (rule interrupted [of es']) (use assms Cons RxFail in \<open>auto simp: sys_recv_def\<close>)
  qed
qed (use assms in simp)

lemma recv_loop_data:
  "length buf < n \<Longrightarrow> sys_recv fd (n - length buf) w = (Ok (Inr bs), w') \<Longrightarrow> bs \<noteq> [] \<Longrightarrow>
     recv_loop on_eof fd n buf w = recv_loop on_eof fd n (buf @ bs) w'"
  by (subst recv_loop.simps) simp

lemma recv_loop_interrupted:
  "length buf < n \<Longrightarrow> sys_recv fd (n - length buf) w = (Ok (Inl EINTR), w') \<Longrightarrow>
     recv_loop on_eof fd n buf w = recv_loop on_eof fd n buf w'"
  by (subst recv_loop.simps) simp

lemma recv_loop_exact:
  assumes "list_all benign es" "length buf \<le> n" "n \<le> length buf + length (stream_bytes es)"
    and "rx (socks w fd) = es @ tail"
  shows "\<exists>es'. list_all benign es' \<and> stream_bytes es' = drop (n - length buf) (stream_bytes es)
    \<and> recv_loop on_eof fd n buf w =
        (Ok (buf @ take (n - length buf) (stream_bytes es)), set_rx fd (es' @ tail) w)"
  using assms
proof (induction "rx_size es" arbitrary: es buf w rule: less_induct)
  case less
  show ?case
  proof (cases "length buf < n")
    case False
    with less.prems have "n = length buf" by simp
    with less.prems(1) show ?thesis
      by (intro exI [of _ es]) (simp add: recv_loop.simps flip: less.prems(4))
  next
    case True
    then have pos: "0 < n - length buf" and ne: "stream_bytes es \<noteq> []"
      using less.prems(3) by auto
    from less.prems(4,1) ne pos show ?thesis
    proof (cases rule: sys_recv_benign)
      case (data bs es')
      let ?w = "set_rx fd (es' @ tail) w"
      have "\<exists>es''. list_all benign es'' \<and> stream_bytes es'' = drop (n - length (buf @ bs)) (stream_bytes es')
        \<and> recv_loop on_eof fd n (buf @ bs) ?w =
           (Ok ((buf @ bs) @ take (n - length (buf @ bs)) (stream_bytes es')), set_rx fd (es'' @ tail) ?w)"
        using data True less.prems(3) by (intro less.hyps) simp_all
      then show ?thesis
        using data recv_loop_data [OF True data(6,1)] by auto
    next
      case (interrupted es')
      let ?w = "set_rx fd (es' @ tail) w"
      have "\<exists>es''. list_all benign es'' \<and> stream_bytes es'' = drop (n - length buf) (stream_bytes es')
        \<and> recv_loop on_eof fd n buf ?w =
           (Ok (buf @ take (n - length buf) (stream_bytes es')), set_rx fd (es'' @ tail) ?w)"
        using interrupted less.prems(2,3) by (intro less.hyps) simp_all
      then show ?thesis
        using interrupted recv_loop_interrupted [OF True interrupted(4)] by auto
    qed
  qed
qed

lemma recv_loop_truncated:
  assumes "list_all benign es" "length buf + length (stream_bytes es) < n"
    and "rx (socks w fd) = es @ Fin # tail"
  shows "recv_loop on_eof fd n buf w = (Throw on_eof, set_rx fd tail w)"
  using assms
proof (induction "rx_size es" arbitrary: es buf w rule: less_induct)
  case less
  then have True: "length buf < n" and pos: "0 < n - length buf"
    by simp_all
  show ?case
  proof (cases "stream_bytes es = []")
    case empty: True
    show ?thesis
    proof (cases es)
      case Nil
      with less.prems show ?thesis
        by (subst recv_loop.simps) (simp add: sys_recv_def)
    next
      case (Cons e es')
      with less.prems empty have e: "e = RxFail EINTR"
        by (cases e) auto
      have "recv_loop on_eof fd n buf (set_rx fd (es' @ Fin # tail) w) =
          (Throw on_eof, set_rx fd tail (set_rx fd (es' @ Fin # tail) w))"
        using less.prems Cons e by (intro less.hyps [of es']) simp_all
      with recv_loop_interrupted [OF True, of fd w "set_rx fd (es' @ Fin # tail) w"] less.prems(3) Cons e
      show ?thesis
        by (simp add: sys_recv_def)
    qed
  next
    case False
    from less.prems(3,1) False pos show ?thesis
    proof (cases rule: sys_recv_benign)
      case (data bs es')
      have "recv_loop on_eof fd n (buf @ bs) (set_rx fd (es' @ Fin # tail) w) =
          (Throw on_eof, set_rx fd tail (set_rx fd (es' @ Fin # tail) w))"
        using data less.prems(2) by (intro less.hyps) simp_all
      with recv_loop_data [OF True data(6,1)] show ?thesis
        by simp
    next
      case (interrupted es')
      have "recv_loop on_eof fd n buf (set_rx fd (es' @ Fin # tail) w) =
          (Throw on_eof, set_rx fd tail (set_rx fd (es' @ Fin # tail) w))"
        using interrupted less.prems(2) by (intro less.hyps) simp_all
      with recv_loop_interrupted [OF True interrupted(4)] show ?thesis
        by simp
    qed
  qed
qed

section \<open>Scripts used up by the loops\<close>

lemma session_send_loop: "within session_le (send_loop on_error on_zero fd data sent)"
proof (rule withinI)
  fix w
  show "session_le w (snd (send_loop on_error on_zero fd data sent w))"
  proof (induction on_error on_zero fd data sent w rule: send_loop.induct)
    case (1 on_error on_zero fd data sent w)
    obtain r w1 where step: "sys_send fd (drop sent data) w = (r, w1)"
      by fastforce
    note le = withinD [OF session_send step]
    show ?case
      using "1.IH" step le
      by (subst send_loop.simps) (auto split: result.splits sum.splits intro: session.trans [OF le] session.refl)
  qed
qed

lemma session_recv_loop: "within session_le (recv_loop on_eof fd n buf)"
proof (rule withinI)
  fix w
  show "session_le w (snd (recv_loop on_eof fd n buf w))"
  proof (induction on_eof fd n buf w rule: recv_loop.induct)
    case (1 on_eof fd n buf w)
    obtain r w1 where step: "sys_recv fd (n - length buf) w = (r, w1)"
      by fastforce
    note le = withinD [OF session_recv step]
    show ?case
      using "1.IH" step le
      by (subst recv_loop.simps) (auto split: result.splits sum.splits intro: session.trans [OF le] session.refl)
  qed
qed

lemma session_lift_codec: "within session_le (lift_codec r)"
  by (simp add: lift_codec_def session.within_ret session.within_throw split: sum.splits)

lemma session_framed_receive:
  "(\<And>n. within session_le (reader n)) \<Longrightarrow> within session_le (framed_receive reader)"
  unfolding framed_receive_def
  by (intro session.within_bind session_lift_codec) simp_all

lemma recv_loop_less:
  assumes "recv_loop on_eof fd n buf w = (Ok out, w')" "length buf < n"
  shows "rx_size (rx (socks w' fd)) < rx_size (rx (socks w fd))"
proof -
  note run = assms(1) [unfolded recv_loop.simps [of on_eof fd n buf w]]
  obtain r w1 where step: "sys_recv fd (n - length buf) w = (r, w1)"
    by fastforce
  from run step assms(2) obtain x buf' where r: "r = Ok x"
    and rest: "recv_loop on_eof fd n buf' w1 = (Ok out, w')"
    by (auto split: result.splits sum.splits if_splits)
  have "rx_size (rx (socks w1 fd)) < rx_size (rx (socks w fd))"
    using sys_recv_less step r assms(2) by (metis zero_less_diff)
  moreover have "rx_size (rx (socks w' fd)) \<le> rx_size (rx (socks w1 fd))"
    using withinD [OF session_recv_loop rest] by (simp add: session_le_def sock_le_def)
  ultimately show ?thesis
    by simp
qed

lemma framed_receive_less:
  assumes "framed_receive (\<lambda>n. recv_loop on_eof fd n []) w = (Ok p, w')"
  shows "rx_size (rx (socks w' fd)) < rx_size (rx (socks w fd))"
proof -
  let ?rest = "\<lambda>header. bind_io (lift_codec (get_payload_length header)) (\<lambda>payload_length.
     bind_io (recv_loop on_eof fd (unat payload_length) []) (\<lambda>pl. lift_codec (decode_packet header pl)))"
  from assms obtain h w1 where "recv_loop on_eof fd 16 [] w = (Ok h, w1)"
    and rest: "?rest h w1 = (Ok p, w')"
    by (auto simp: framed_receive_def bind_io_eq_Ok)
  then have "rx_size (rx (socks w1 fd)) < rx_size (rx (socks w fd))"
    by (auto dest: recv_loop_less)
  moreover have "within session_le (?rest h)"
    by (intro session.within_bind session_lift_codec session_recv_loop)
  then have "session_le w1 w'"
    using rest by (rule withinD)
  then have "rx_size (rx (socks w' fd)) \<le> rx_size (rx (socks w1 fd))"
    by (simp add: session_le_def sock_le_def)
  ultimately show ?thesis
    by simp
qed

section \<open>Actions of the loops\<close>

lemma appends_send_loop:
  assumes "\<And>bs. Q (Sent fd bs)"
  shows "within (appends Q) (send_loop on_error on_zero fd data sent)"
proof (rule withinI)
  fix w
  show "appends Q w (snd (send_loop on_error on_zero fd data sent w))"
    using assms
  proof (induction on_error on_zero fd data sent w rule: send_loop.induct)
    case (1 on_error on_zero fd data sent w)
    obtain r w1 where step: "sys_send fd (drop sent data) w = (r, w1)"
      by fastforce
    note le = withinD [OF appends_send [of Q, OF "1.prems"] step]
    show ?case
      using "1.IH" "1.prems" step le
      by (subst send_loop.simps) (auto split: result.splits sum.splits intro: appends.trans [OF le] appends.refl)
  qed
qed

lemma appends_recv_loop: "within (appends Q) (recv_loop on_eof fd n buf)"
proof (rule withinI)
  fix w
  show "appends Q w (snd (recv_loop on_eof fd n buf w))"
  proof (induction on_eof fd n buf w rule: recv_loop.induct)
    case (1 on_eof fd n buf w)
    obtain r w1 where step: "sys_recv fd (n - length buf) w = (r, w1)"
      by fastforce
    note le = withinD [OF appends_recv step]
    show ?case
      using "1.IH" step le
      by (subst recv_loop.simps) (auto split: result.splits sum.splits intro: appends.trans [OF le] appends.refl)
  qed
qed

lemma appends_lift_codec: "within (appends Q) (lift_codec r)"
  by (simp add: lift_codec_def appends.within_ret appends.within_throw split: sum.splits)

lemma appends_framed_receive:
  "(\<And>n. within (appends Q) (reader n)) \<Longrightarrow> within (appends Q) (framed_receive reader)"
  unfolding framed_receive_def
  by (intro appends.within_bind appends_lift_codec) simp_all

section \<open>Exceptions of the loops\<close>

lemma raises_send_loop:
  assumes "\<And>e. E (on_error e)" "E on_zero"
  shows "raises E (send_loop on_error on_zero fd data sent)"
proof -
  have "send_loop on_error on_zero fd data sent w = (Throw e, w') \<Longrightarrow> E e" for w e w'
    using assms
  proof (induction on_error on_zero fd data sent w rule: send_loop.induct)
    case (1 on_error on_zero fd data sent w)
    from "1.prems"(1) [unfolded send_loop.simps [of on_error on_zero fd data sent w]]
    show ?case
      using "1.IH" "1.prems"(2,3)
      by (auto simp: sys_calls_no_throw split: if_splits prod.splits result.splits sum.splits)
  qed
  then show ?thesis
    by (rule raisesI)
qed

lemma raises_recv_loop:
  assumes "E on_eof" "\<And>e. E (RuntimeError (Sys ''recv failed: '' e))"
  shows "raises E (recv_loop on_eof fd n buf)"
proof -
  have "recv_loop on_eof fd n buf w = (Throw e, w') \<Longrightarrow> E e" for w e w'
    using assms
  proof (induction on_eof fd n buf w rule: recv_loop.induct)
    case (1 on_eof fd n buf w)
    from "1.prems"(1) [unfolded recv_loop.simps [of on_eof fd n buf w]]
    show ?case
      using "1.IH" "1.prems"(2,3)
      by (auto simp: sys_calls_no_throw split: if_splits prod.splits result.splits sum.splits)
  qed
  then show ?thesis
    by (rule raisesI)
qed

lemma raises_lift_codec: "(\<And>e. E (RuntimeError (Msg (codec_message e)))) \<Longrightarrow> raises E (lift_codec r)"
  by (simp add: lift_codec_def raises_ret raises_throw split: sum.splits)

lemma raises_framed_receive:
  assumes "\<And>n. raises E (reader n)" "\<And>e. E (RuntimeError (Msg (codec_message e)))"
  shows "raises E (framed_receive reader)"
  unfolding framed_receive_def by (intro raises_bind raises_lift_codec) (rule assms)+

end
