(* ===== verification/Framing.thy ===== *)
theory Framing
  imports Streams
begin

text \<open>
  The interface between the frame reader \<open>receive_packet\<close> and the \<open>recv_exact\<close> below it.
  A reader that returns exactly the next bytes of a stream (\<open>keeps bs\<close> is what taking \<open>bs\<close>
  does to the rest of the world) yields exactly the packets
  that were written to it; a reader that also reports the end of the stream by an
  exception reports every incomplete frame by that exception. The client lemmas are
  proved here, once, for the blocking readers of the receiver and of the proxy and for
  the deadline reader of the sender.
\<close>

definition frame :: "packet \<Rightarrow> bytes" where
  "frame p = header_of p @ payload p"

definition small :: "packet \<Rightarrow> bool" where
  "small p \<longleftrightarrow> length (payload p) \<le> kMaxPayloadSize"

lemma encode_small: "small p \<Longrightarrow> encode_packet p = Inr (frame p)"
  by (simp add: encode_packet_eq frame_def small_def)

lemma encode_packet_Inr: "encode_packet p = Inr buf \<longleftrightarrow> small p \<and> buf = frame p"
  by (auto simp: encode_packet_eq frame_def small_def)

lemma small_empty [simp]: "small \<lparr>type_of = t, sequence = s, payload = []\<rparr>"
  by (simp add: small_def)

lemma length_frame: "length (frame p) = 16 + length (payload p)"
  by (simp add: frame_def)

lemma frame_nonempty [simp]: "frame p \<noteq> []"
  using length_frame [of p] by auto

lemma magic_prefix: "strict_prefix [0xAA] (frame p)"
  by (simp add: frame_def header_of_def kMagic_def be16_def strict_prefix_def)

lemma lift_codec_simps [simp]:
  "lift_codec (Inr x) = ret x" "lift_codec (Inl e) = throw (RuntimeError (Msg (codec_message e)))"
  by (simp_all add: lift_codec_def)

locale framed_reader =
  fixes reader :: "nat \<Rightarrow> ('l, 'p, bytes) io"
    and stream :: "bytes \<Rightarrow> ('l, 'p) world \<Rightarrow> bool"
    and keeps :: "bytes \<Rightarrow> ('l, 'p) world \<Rightarrow> ('l, 'p) world \<Rightarrow> bool"
  assumes reader_exact: "stream bs w \<Longrightarrow> n \<le> length bs \<Longrightarrow>
      \<exists>w'. reader n w = (Ok (take n bs), w') \<and> stream (drop n bs) w' \<and> keeps (take n bs) w w'"
    and keeps_trans: "keeps as u v \<Longrightarrow> keeps bs v w \<Longrightarrow> keeps (as @ bs) u w"
begin

lemma receive_decodes:
  assumes "stream (h @ pl @ rest) w" "get_payload_length h = Inr n" "length pl = unat n"
  shows "\<exists>w'. framed_receive reader w = lift_codec (decode_packet h pl) w' \<and> stream rest w' \<and> keeps (h @ pl) w w'"
proof -
  have len: "length h = 16"
    using get_payload_length_Inr [OF assms(2)] by simp
  from reader_exact [OF assms(1), of 16] len obtain w1 where
    w1: "reader 16 w = (Ok h, w1)" "stream (pl @ rest) w1" "keeps h w w1"
    by auto
  from reader_exact [OF w1(2), of "unat n"] assms(3) obtain w2 where
    w2: "reader (unat n) w1 = (Ok pl, w2)" "stream rest w2" "keeps pl w1 w2"
    by auto
  have "framed_receive reader w = lift_codec (decode_packet h pl) w2"
    using w1(1) w2(1) assms(2) by (simp add: framed_receive_def bind_io_Ok bind_ret)
  with w2(2) keeps_trans [OF w1(3) w2(3)] show ?thesis
    by blast
qed

lemma receive_frame:
  assumes "stream (frame p @ rest) w" "small p"
  shows "\<exists>w'. framed_receive reader w = (Ok p, w') \<and> stream rest w' \<and> keeps (frame p) w w'"
  using receive_decodes [of "header_of p" "payload p" rest w "of_nat (length (payload p))"] assms
  by (simp add: frame_def small_def wire_simps unat_payload_length apply_io)

lemma receive_bad_header:
  assumes "stream (h @ rest) w" "length h = 16" "get_payload_length h = Inl e"
  shows "\<exists>w'. framed_receive reader w = (Throw (RuntimeError (Msg (codec_message e))), w') \<and> keeps h w w'"
  using reader_exact [OF assms(1), of 16] assms(2,3)
  by (auto simp: framed_receive_def bind_io_Ok bind_throw)

end

locale truncating_reader = framed_reader reader stream keeps
  for reader :: "nat \<Rightarrow> ('l, 'p, bytes) io"
    and stream :: "bytes \<Rightarrow> ('l, 'p) world \<Rightarrow> bool"
    and keeps :: "bytes \<Rightarrow> ('l, 'p) world \<Rightarrow> ('l, 'p) world \<Rightarrow> bool" +
  fixes on_end :: exn
  assumes reader_truncated: "stream bs w \<Longrightarrow> length bs < n \<Longrightarrow>
      \<exists>w'. reader n w = (Throw on_end, w') \<and> keeps bs w w'"
begin

lemma receive_partial_frame:
  assumes "stream bs w" "strict_prefix bs (frame p)" "small p"
  shows "\<exists>w'. framed_receive reader w = (Throw on_end, w') \<and> keeps bs w w'"
proof (cases "length bs < 16")
  case True
  from reader_truncated [OF assms(1) True] show ?thesis
    by (auto simp: framed_receive_def bind_io_Throw)
next
  case False
  from assms(2) obtain tl where tl: "frame p = bs @ tl" "tl \<noteq> []"
    by (auto simp: strict_prefix_def prefix_def)
  have h: "take 16 bs = header_of p"
    using arg_cong [OF tl(1), of "take 16"] False by (simp add: frame_def)
  have short: "length (drop 16 bs) < length (payload p)"
    using arg_cong [OF tl(1), of length] tl(2) False by (cases tl) (simp_all add: length_frame)
  from reader_exact [OF assms(1), of 16] False h obtain w1 where
    w1: "reader 16 w = (Ok (header_of p), w1)" "stream (drop 16 bs) w1" "keeps (take 16 bs) w w1"
    by auto
  from reader_truncated [OF w1(2) short] obtain w2 where
    w2: "reader (length (payload p)) w1 = (Throw on_end, w2)" "keeps (drop 16 bs) w1 w2"
    by auto
  have "framed_receive reader w = (Throw on_end, w2)"
    using w1(1) w2(1) assms(3)
    by (simp add: framed_receive_def bind_io_Ok bind_ret bind_io_Throw wire_simps small_def unat_payload_length)
  with keeps_trans [OF w1(3) w2(2)] show ?thesis
    by auto
qed

end

section \<open>Frames in a stream\<close>

text \<open>A frame determines its packet, and a stream of frames its packets.\<close>

lemma frame_prefix_inject:
  assumes "prefix (frame p) bs" "prefix (frame q) bs" "small p" "small q"
  shows "p = q"
proof -
  from assms(1) obtain xs where xs: "bs = header_of p @ payload p @ xs"
    by (auto simp: prefix_def frame_def)
  from assms(2) obtain ys where ys: "bs = header_of q @ payload q @ ys"
    by (auto simp: prefix_def frame_def)
  have h: "header_of p = take 16 bs" "drop 16 bs = payload p @ xs"
    by (simp_all add: xs)
  have h': "header_of q = take 16 bs" "drop 16 bs = payload q @ ys"
    by (simp_all add: ys)
  note h = h(1) h'(1) h(2) h'(2)
  then have "Inr (of_nat (length (payload p))) = (Inr (of_nat (length (payload q))) :: codec_error + u32)"
    using get_payload_length_header [of p] get_payload_length_header [of q] assms(3,4) by (simp only: small_def)
  then have "unat (of_nat (length (payload p)) :: u32) = unat (of_nat (length (payload q)) :: u32)"
    by (simp only: sum.inject)
  then have len: "length (payload p) = length (payload q)"
    using unat_payload_length [of "payload p"] unat_payload_length [of "payload q"] assms(3,4) by (simp only: small_def)
  from h(3,4) have "payload p @ xs = payload q @ ys"
    by simp
  with len have "payload p = payload q"
    by simp
  with h(1,2) show ?thesis
    by (intro header_of_inject) simp_all
qed

lemma frames_prefix:
  "prefix (concat (map frame ps)) (concat (map frame qs)) \<Longrightarrow> list_all small ps \<Longrightarrow> list_all small qs \<Longrightarrow> prefix ps qs"
proof (induction ps arbitrary: qs)
  case (Cons p ps)
  then obtain q qs' where qs: "qs = q # qs'"
    by (cases qs) auto
  have "prefix (frame p) (concat (map frame qs))" "prefix (frame q) (concat (map frame qs))"
    using Cons.prems(1) by (auto simp: qs prefix_def)
  with Cons.prems(2,3) qs have "p = q"
    using frame_prefix_inject [of p "concat (map frame qs)" q] by simp
  with Cons qs show ?case
    by simp
qed simp

section \<open>The blocking readers\<close>

text \<open>The loop on a blocking socket meets both interfaces.\<close>

interpretation blocking: framed_reader "\<lambda>n. recv_loop on_eof fd n []" "incoming fd" "\<lambda>_. only_rx fd"
  for on_eof :: exn and fd :: fd
proof unfold_locales
  fix bs and w :: "('l, 'p) world" and n :: nat
  assume "incoming fd bs w" "n \<le> length bs"
  then obtain es tail where "rx (socks w fd) = es @ tail" "list_all benign es" "stream_bytes es = bs"
    by (auto simp: incoming_def)
  with recv_loop_exact [of es "[]" n w fd tail on_eof] \<open>n \<le> length bs\<close>
  obtain es' where "list_all benign es'" "stream_bytes es' = drop n bs"
    "recv_loop on_eof fd n [] w = (Ok (take n bs), set_rx fd (es' @ tail) w)"
    by auto
  then show "\<exists>w'. recv_loop on_eof fd n [] w = (Ok (take n bs), w') \<and> incoming fd (drop n bs) w' \<and> only_rx fd w w'"
    by (auto simp: incoming_def only_rx_def)
qed (rule only_rx_trans)

interpretation blocking_end: truncating_reader "\<lambda>n. recv_loop on_eof fd n []" "ending fd" "\<lambda>_. only_rx fd" on_eof
  for on_eof :: exn and fd :: fd
proof unfold_locales
  fix bs and w :: "('l, 'p) world" and n :: nat
  assume "ending fd bs w"
  then obtain es tail where es: "rx (socks w fd) = es @ Fin # tail" "list_all benign es" "stream_bytes es = bs"
    by (auto simp: ending_def)
  show "\<exists>w'. recv_loop on_eof fd n [] w = (Ok (take n bs), w') \<and> ending fd (drop n bs) w' \<and> only_rx fd w w'"
    if "n \<le> length bs"
  proof -
    from recv_loop_exact [of es "[]" n w fd "Fin # tail" on_eof] es that
    obtain es' where "list_all benign es'" "stream_bytes es' = drop n bs"
      "recv_loop on_eof fd n [] w = (Ok (take n bs), set_rx fd (es' @ Fin # tail) w)"
      by auto
    then show ?thesis
      by (auto simp: ending_def only_rx_def)
  qed
  show "\<exists>w'. recv_loop on_eof fd n [] w = (Throw on_eof, w') \<and> only_rx fd w w'" if "length bs < n"
    using recv_loop_truncated [of es "[]" n w fd tail on_eof] es that by (auto simp: only_rx_def)
qed (rule only_rx_trans)

section \<open>Writing frames\<close>

lemma send_loop_delivers:
  assumes "accepting fd (length data + m) w"
  obtains es as where
    "send_loop on_error on_zero fd data 0 w = (Ok (), set_tx fd es (w\<lparr>trace := trace w @ as\<rparr>))"
    "only_sent fd as" "wire_out fd as = data" "accepting fd m (set_tx fd es (w\<lparr>trace := trace w @ as\<rparr>))"
proof -
  from send_loop_completes [OF assms, of data 0] obtain w' where
    w': "send_loop on_error on_zero fd data 0 w = (Ok (), w')" "accepting fd (length data + m - length data) w'"
    by auto
  from send_loop_sends [OF _ w'(1)] obtain es as where
    "w' = set_tx fd es (w\<lparr>trace := trace w @ as\<rparr>)" "only_sent fd as" "wire_out fd as = data"
    by (auto simp: sends_def)
  with w' that show thesis
    by simp
qed

lemma ending_cong: "rx (socks w' fd) = rx (socks w fd) \<Longrightarrow> ending fd bs w' = ending fd bs w"
  by (simp add: ending_def)

lemma incoming_cong: "rx (socks w' fd) = rx (socks w fd) \<Longrightarrow> incoming fd bs w' = incoming fd bs w"
  by (simp add: incoming_def)

lemma accepting_set_rx [simp]: "accepting fd m (set_rx fd' es w) = accepting fd m w"
  by (simp add: accepting_def)

lemma only_rxD:
  assumes "only_rx fd w w'"
  shows "trace w' = trace w" "locals w' = locals w" "fds w' = fds w"
    "accepting fd' m w' = accepting fd' m w" "fd' \<noteq> fd \<Longrightarrow> socks w' fd' = socks w fd'"
  using assms by (auto simp: only_rx_def)

section \<open>Reading whole frames\<close>

text \<open>
  Whatever the kernel answers, the frame reader on a blocking socket takes some bytes of
  the stream; when it yields a packet they are that packet's frame.
\<close>

lemma framed_receive_takes:
  assumes "framed_receive (\<lambda>n. recv_loop on_eof fd n []) w = (r, w')"
  shows "\<exists>es got. w' = set_rx fd es w \<and> stream_bytes (rx (socks w fd)) = got @ stream_bytes es
    \<and> (case r of Ok p \<Rightarrow> small p \<and> got = frame p | _ \<Rightarrow> True)"
proof -
  obtain x w1 where h: "recv_loop on_eof fd 16 [] w = (x, w1)"
    by fastforce
  from recv_loop_takes [OF _ h] obtain es1 g1 where w1: "w1 = set_rx fd es1 w"
    "stream_bytes (rx (socks w fd)) = g1 @ stream_bytes es1" "\<And>out. x = Ok out \<Longrightarrow> out = g1 \<and> length out = 16"
    by (auto simp: takes_def)
  show ?thesis
  proof (cases "\<exists>header n. x = Ok header \<and> get_payload_length header = Inr n")
    case False
    then have "w' = w1" "\<And>p. r \<noteq> Ok p"
      using assms h by (cases x; cases "get_payload_length (case x of Ok header \<Rightarrow> header | _ \<Rightarrow> [])";
        auto simp: framed_receive_def bind_io_def throw_def)+
    with w1 show ?thesis
      by (intro exI [of _ es1] exI [of _ g1]) (auto split: result.splits)
  next
    case True
    then obtain header n where x: "x = Ok header" "get_payload_length header = Inr n"
      by blast
    obtain y w2 where pl: "recv_loop on_eof fd (unat n) [] w1 = (y, w2)"
      by fastforce
    from recv_loop_takes [OF _ pl] obtain es2 g2 where w2: "w2 = set_rx fd es2 w1"
      "stream_bytes (rx (socks w1 fd)) = g2 @ stream_bytes es2" "\<And>out. y = Ok out \<Longrightarrow> out = g2"
      by (auto simp: takes_def)
    have run: "bind_io (recv_loop on_eof fd (unat n) []) (\<lambda>pl. lift_codec (decode_packet header pl)) w1 = (r, w')"
      using assms h x by (simp add: framed_receive_def bind_io_Ok bind_ret)
    then have "w' = w2"
      using pl by (cases y) (auto simp: bind_io_def lift_codec_def ret_def throw_def split: sum.splits)
    moreover have "small p \<and> g1 @ g2 = frame p" if "r = Ok p" for p
    proof -
      from run pl that obtain body where "y = Ok body" "decode_packet header body = Inr p"
        by (cases y) (auto simp: bind_io_def lift_codec_def ret_def throw_def split: sum.splits)
      with w1(3) [OF x(1)] w2(3) show ?thesis
        by (auto simp: small_def frame_def dest: decode_packet_Inr)
    qed
    ultimately show ?thesis
      using w1(1,2) w2(1,2)
      by (intro exI [of _ es2] exI [of _ "g1 @ g2"]) (auto split: result.splits)
  qed
qed

end
