(* ===== verification/Delivery.thy ===== *)
theory Delivery
  imports Codec
begin

text \<open>
  What the two receivers promise, without sockets: a request is answered, a DATA request is
  handed to the application once per sequence number. \<open>serve_spec\<close> is the specification of the
  TCP receiver; the locale states the contract of a trace of deliveries under a monitor,
  which both receivers' traces meet.
\<close>

section \<open>The specification\<close>

datatype observation =
  Deliver u32 bytes   \<comment> \<open>the payload is handed to the application\<close>
| Reply packet        \<comment> \<open>an answer leaves the receiver\<close>

definition ack_packet :: "u32 \<Rightarrow> packet" where
  "ack_packet s = \<lparr>type_of = Ack, sequence = s, payload = []\<rparr>"

definition heartbeat_ack_packet :: "u32 \<Rightarrow> packet" where
  "heartbeat_ack_packet s = \<lparr>type_of = HeartbeatAck, sequence = s, payload = []\<rparr>"

definition is_request :: "packet \<Rightarrow> bool" where
  "is_request p \<longleftrightarrow> type_of p = Data \<or> type_of p = Heartbeat"

fun serve_spec :: "u32 set \<Rightarrow> packet list \<Rightarrow> observation list" where
  "serve_spec seen [] = []"
| "serve_spec seen (p # ps) =
     (if type_of p = Data then
        (if sequence p \<in> seen then [] else [Deliver (sequence p) (payload p)])
        @ Reply (ack_packet (sequence p)) # serve_spec (insert (sequence p) seen) ps
      else Reply (heartbeat_ack_packet (sequence p)) # serve_spec seen ps)"

fun seen_after :: "u32 set \<Rightarrow> packet list \<Rightarrow> u32 set" where
  "seen_after seen [] = seen"
| "seen_after seen (p # ps) =
     seen_after (if type_of p = Data then insert (sequence p) seen else seen) ps"

fun deliveries :: "observation list \<Rightarrow> (u32 \<times> bytes) list" where
  "deliveries [] = []"
| "deliveries (Deliver s pl # os) = (s, pl) # deliveries os"
| "deliveries (Reply p # os) = deliveries os"

fun replies :: "observation list \<Rightarrow> packet list" where
  "replies [] = []"
| "replies (Deliver s pl # os) = replies os"
| "replies (Reply p # os) = p # replies os"

lemma deliveries_append [simp]: "deliveries (as @ bs) = deliveries as @ deliveries bs"
  by (induction as rule: deliveries.induct) simp_all

lemma replies_append [simp]: "replies (as @ bs) = replies as @ replies bs"
  by (induction as rule: replies.induct) simp_all

text \<open>Each sequence number is delivered once, with the payload it first came with.\<close>

lemma serve_spec_deliveries_fresh:
  "fst ` set (deliveries (serve_spec seen ps)) \<inter> seen = {}"
  by (induction ps arbitrary: seen) (force split: if_splits)+

lemma serve_spec_at_most_once: "distinct (map fst (deliveries (serve_spec seen ps)))"
proof (induction ps arbitrary: seen)
  case (Cons p ps)
  have "sequence p \<notin> fst ` set (deliveries (serve_spec (insert (sequence p) seen) ps))"
    using serve_spec_deliveries_fresh [of "insert (sequence p) seen" ps] by blast
  with Cons show ?case
    by simp
qed simp

lemma serve_spec_complete:
  "fst ` set (deliveries (serve_spec seen ps)) = sequence ` {p \<in> set ps. type_of p = Data} - seen"
  by (induction ps arbitrary: seen) (auto simp: image_iff)

lemma serve_spec_replies:
  "replies (serve_spec seen ps) =
     map (\<lambda>p. if type_of p = Data then ack_packet (sequence p) else heartbeat_ack_packet (sequence p)) ps"
  by (induction ps arbitrary: seen) simp_all

lemma seen_after_eq: "seen_after seen ps = seen \<union> sequence ` {p \<in> set ps. type_of p = Data}"
  by (induction ps arbitrary: seen) auto

lemma serve_spec_append:
  "serve_spec seen (ps @ qs) = serve_spec seen ps @ serve_spec (seen_after seen ps) qs"
  by (induction ps arbitrary: seen) simp_all

lemma seen_after_append: "seen_after seen (ps @ qs) = seen_after (seen_after seen ps) qs"
  by (induction ps arbitrary: seen) simp_all

section \<open>The order of a receiver's events\<close>

text \<open>
  A receiver's trace is watched by a monitor that knows the sequence numbers handed over so
  far. The contract: the monitor goes through the trace event by event, and an event hands
  over only numbers that are new. Then no number is handed over twice in the whole trace.
\<close>

locale delivery_log =
  fixes handed :: "'a \<Rightarrow> (u32 \<times> bytes) list"
    and log :: "'a list \<Rightarrow> (u32 \<times> bytes) list"
    and watch :: "u32 set \<Rightarrow> 'a list \<Rightarrow> bool"
  assumes log_Nil: "log [] = []" and log_Cons: "log (a # as) = handed a @ log as"
    and watch_Nil: "watch seen []"
    and watch_Cons: "watch seen (a # as) \<longleftrightarrow> watch seen [a] \<and> watch (seen \<union> fst ` set (handed a)) as"
    and watch_fresh: "watch seen [a] \<Longrightarrow> distinct (map fst (handed a)) \<and> fst ` set (handed a) \<inter> seen = {}"
begin

lemma watch_append: "watch seen (as @ bs) \<longleftrightarrow> watch seen as \<and> watch (seen \<union> fst ` set (log as)) bs"
proof (induction as arbitrary: seen)
  case (Cons a as)
  have "watch seen ((a # as) @ bs) \<longleftrightarrow> watch seen [a] \<and> watch (seen \<union> fst ` set (handed a)) (as @ bs)"
    using watch_Cons [of seen a "as @ bs"] by simp
  then show ?case
    by (simp add: Cons.IH watch_Cons [of seen a as] log_Cons image_Un Un_assoc)
qed (simp add: log_Nil watch_Nil)

lemma watch_distinct: "watch seen as \<Longrightarrow> distinct (map fst (log as)) \<and> fst ` set (log as) \<inter> seen = {}"
proof (induction as arbitrary: seen)
  case (Cons a as)
  then have a: "watch seen [a]" and as: "watch (seen \<union> fst ` set (handed a)) as"
    using watch_Cons [of seen a as] by simp_all
  from watch_fresh [OF a] Cons.IH [OF as] show ?case
    by (auto simp: log_Cons)
qed (simp add: log_Nil)

text \<open>Events that hand over nothing and are always allowed.\<close>

lemma watch_silent: "list_all (\<lambda>a. handed a = [] \<and> (\<forall>seen. watch seen [a])) as \<Longrightarrow> watch seen as \<and> log as = []"
proof (induction as)
  case (Cons a as)
  then show ?case
    using watch_Cons [of seen a as] by (simp add: log_Cons)
qed (simp add: log_Nil watch_Nil)

end

end
