(* ===== verification/TcpReceiver.thy ===== *)
theory TcpReceiver
  imports Framing Delivery
begin

text \<open>
  The receiver of \<open>src/tcp/receiver.cpp\<close>: a server that accepts one connection after
  the other, answers the packets of each, and keeps the set of processed sequence
  numbers across connections.
\<close>

section \<open>The code\<close>

definition receiver_kPort :: nat where "receiver_kPort = 5001"

text \<open>Its output lines, and the variable of \<open>main\<close> that outlives a connection.\<close>

datatype receiver_line =
  ListeningOnPort nat
| SenderConnected
| ReceivedData u32 bytes
| DuplicateData u32
| SentAck u32
| ReceivedHeartbeat u32
| SentHeartbeatAck u32
| SenderDisconnected
| WaitingForConnection
| ReceiverError what

record receiver_state =
  processed_sequences :: "u32 set"

type_synonym receiver_world = "(receiver_line, receiver_state) world"
type_synonym 'a receiver_io = "(receiver_line, receiver_state, 'a) io"

definition receiver_send_all :: "fd \<Rightarrow> bytes \<Rightarrow> unit receiver_io" where
  "receiver_send_all fd data =
     send_loop (\<lambda>e. RuntimeError (Sys ''send failed: '' e))
       (RuntimeError (Msg ''connection closed while sending'')) fd data 0"

definition receiver_recv_exact :: "fd \<Rightarrow> nat \<Rightarrow> bytes receiver_io" where
  "receiver_recv_exact fd n = recv_loop (PeerDisconnected (Msg ''peer disconnected'')) fd n []"

definition receiver_send_packet :: "fd \<Rightarrow> packet \<Rightarrow> unit receiver_io" where
  "receiver_send_packet fd p =
     bind_io (lift_codec (encode_packet p)) (\<lambda>encoded. receiver_send_all fd encoded)"

definition receiver_receive_packet :: "fd \<Rightarrow> packet receiver_io" where
  "receiver_receive_packet fd = framed_receive (receiver_recv_exact fd)"

definition create_server_socket :: "fd receiver_io" where
  "create_server_socket =
     bind_io sys_open (\<lambda>r. case r of
       Inl e \<Rightarrow> throw (RuntimeError (Sys ''socket failed: '' e))
     | Inr server_fd \<Rightarrow>
         bind_io sys_call (\<lambda>r. case r of
           Some e \<Rightarrow> bind_io (sys_close server_fd)
             (\<lambda>_. throw (RuntimeError (Sys ''setsockopt failed: '' e)))
         | None \<Rightarrow>
             bind_io sys_call (\<lambda>r. case r of
               Some e \<Rightarrow> bind_io (sys_close server_fd)
                 (\<lambda>_. throw (RuntimeError (Sys ''bind failed: '' e)))
             | None \<Rightarrow>
                 bind_io sys_call (\<lambda>r. case r of
                   Some e \<Rightarrow> bind_io (sys_close server_fd)
                     (\<lambda>_. throw (RuntimeError (Sys ''listen failed: '' e)))
                 | None \<Rightarrow> ret server_fd))))"

text \<open>The \<open>try\<close> block of the inner loop, from the decoded packet on.\<close>

definition handle_packet :: "fd \<Rightarrow> packet \<Rightarrow> unit receiver_io" where
  "handle_packet client_fd p =
     (if type_of p = Data then
        bind_io (get_local (\<lambda>st. sequence p \<in> processed_sequences st)) (\<lambda>duplicate.
        bind_io
          (if \<not> duplicate then
             bind_io (cout (ReceivedData (sequence p) (payload p))) (\<lambda>_.
             upd_local (processed_sequences_update (insert (sequence p))))
           else cout (DuplicateData (sequence p))) (\<lambda>_.
        let ack = \<lparr>type_of = Ack, sequence = sequence p, payload = []\<rparr> in
        bind_io (receiver_send_packet client_fd ack) (\<lambda>_.
        cout (SentAck (sequence ack)))))
      else if type_of p = Heartbeat then
        bind_io (cout (ReceivedHeartbeat (sequence p))) (\<lambda>_.
        let heartbeat_ack = \<lparr>type_of = HeartbeatAck, sequence = sequence p, payload = []\<rparr> in
        bind_io (receiver_send_packet client_fd heartbeat_ack) (\<lambda>_.
        cout (SentHeartbeatAck (sequence heartbeat_ack))))
      else throw (RuntimeError (Msg ''unexpected packet type'')))"

definition serve_packet :: "fd \<Rightarrow> unit receiver_io" where
  "serve_packet client_fd = bind_io (receiver_receive_packet client_fd) (handle_packet client_fd)"

lemma receiver_receive_packet_eq:
  "receiver_receive_packet fd =
     framed_receive (\<lambda>n. recv_loop (PeerDisconnected (Msg ''peer disconnected'')) fd n [])"
  unfolding receiver_receive_packet_def receiver_recv_exact_def ..

lemma session_receiver_send_packet: "within session_le (receiver_send_packet fd p)"
  unfolding receiver_send_packet_def receiver_send_all_def
  by (intro session.within_bind session_lift_codec session_send_loop)

lemma session_handle_packet: "within session_le (handle_packet fd p)"
  unfolding handle_packet_def Let_def
  by (intro session.within_rules session_receiver_send_packet session_calls)

lemma serve_packet_less:
  assumes "serve_packet fd w = (Ok (), w')"
  shows "rx_size (rx (socks w' fd)) < rx_size (rx (socks w fd))"
proof -
  from assms obtain p w1 where "receiver_receive_packet fd w = (Ok p, w1)"
    and rest: "handle_packet fd p w1 = (Ok (), w')"
    by (auto simp: serve_packet_def bind_io_eq_Ok)
  then have "rx_size (rx (socks w1 fd)) < rx_size (rx (socks w fd))"
    by (auto simp: receiver_receive_packet_eq dest: framed_receive_less)
  moreover have "rx_size (rx (socks w' fd)) \<le> rx_size (rx (socks w1 fd))"
    using withinD [OF session_handle_packet rest] by (simp add: session_le_def sock_le_def)
  ultimately show ?thesis
    by simp
qed

text \<open>The inner \<open>while (true)\<close>: packets of one connection, until the peer disconnects.\<close>

function serve_connection :: "fd \<Rightarrow> receiver_world \<Rightarrow> unit result \<times> receiver_world" where
  "serve_connection client_fd w =
     (case serve_packet client_fd w of
        (Ok _, w') \<Rightarrow> serve_connection client_fd w'
      | (Throw (PeerDisconnected m), w') \<Rightarrow> cout SenderDisconnected w'
      | (Throw e, w') \<Rightarrow> (Throw e, w')
      | (Blocked, w') \<Rightarrow> (Blocked, w'))"
  by pat_completeness auto
termination
  by (relation "measure (\<lambda>(fd, w). rx_size (rx (socks w fd)))") (auto dest: serve_packet_less [OF sym])

declare serve_connection.simps [simp del]

text \<open>From \<open>accept\<close> to \<open>close\<close>, for one client.\<close>

definition serve_client :: "fd \<Rightarrow> unit receiver_io" where
  "serve_client client_fd =
     bind_io (cout SenderConnected) (\<lambda>_.
     bind_io (serve_connection client_fd) (\<lambda>_.
     bind_io (sys_close client_fd) (\<lambda>_.
     cout WaitingForConnection)))"

lemma session_serve_connection: "within session_le (serve_connection fd)"
proof (rule withinI)
  fix w
  show "session_le w (snd (serve_connection fd w))"
  proof (induction fd w rule: serve_connection.induct)
    case (1 fd w)
    obtain r w1 where step: "serve_packet fd w = (r, w1)"
      by fastforce
    have "within session_le (serve_packet fd)"
      unfolding serve_packet_def receiver_receive_packet_eq
      by (intro session.within_bind session_handle_packet session_framed_receive session_recv_loop)
    note le = withinD [OF this step]
    have line: "session_le w1 (snd (cout SenderDisconnected w1))"
      by (simp add: session_outputs(1) [unfolded within_def, rule_format])
    have again: "session_le w1 (snd (serve_connection fd w1))" if "r = Ok ()"
      using that by (intro "1.IH" [OF step [symmetric]]) simp_all
    show ?case
      using step le session.trans [OF le line] session.trans [OF le again]
      by (subst serve_connection.simps) (simp split: result.splits exn.splits)
  qed
qed

lemma session_serve_client: "within session_le (serve_client fd)"
  unfolding serve_client_def
  by (intro session.within_bind session_serve_connection session_calls)

text \<open>The outer \<open>while (true)\<close>.\<close>

function accept_loop :: "receiver_world \<Rightarrow> unit result \<times> receiver_world" where
  "accept_loop w =
     (case sys_open w of
        (Ok (Inl e), w') \<Rightarrow>
          if e = EINTR then accept_loop w'
          else (Throw (RuntimeError (Sys ''accept failed: '' e)), w')
      | (Ok (Inr client_fd), w') \<Rightarrow>
          (case serve_client client_fd w' of
             (Ok _, w'') \<Rightarrow> accept_loop w''
           | (Throw e, w'') \<Rightarrow> (Throw e, w'')
           | (Blocked, w'') \<Rightarrow> (Blocked, w''))
      | (Throw e, w') \<Rightarrow> (Throw e, w')
      | (Blocked, w') \<Rightarrow> (Blocked, w'))"
  by pat_completeness auto
termination
proof (relation "measure (\<lambda>w. length (fds w))")
  fix w x w1 y client_fd x' w2
  assume "(x, w1) = sys_open w" "x = Ok y" "(x', w2) = serve_client client_fd w1"
  then show "(w2, w) \<in> measure (\<lambda>w. length (fds w))"
    using withinD [OF session_serve_client, of client_fd w1 x' w2] sys_open_less [of w y w1]
    by (simp add: session_le_def)
qed (auto dest: sys_open_less [OF sym])

declare accept_loop.simps [simp del]

definition receiver_main :: "int receiver_io" where
  "receiver_main =
     catch_io
       (bind_io create_server_socket (\<lambda>server_fd.
        bind_io (cout (ListeningOnPort receiver_kPort)) (\<lambda>_.
        bind_io (upd_local (processed_sequences_update (\<lambda>_. {}))) (\<lambda>_.
        bind_io accept_loop (\<lambda>_.
        bind_io (sys_close server_fd) (\<lambda>_.
        ret 0))))))
       (\<lambda>e. map_option (\<lambda>m. bind_io (cout (ReceiverError m)) (\<lambda>_. ret 1)) (std_what e))"

section \<open>Trace of the receiver\<close>

text \<open>Printing \<open>Received DATA\<close> is where the payload reaches the application.\<close>

fun delivered_by :: "receiver_line action \<Rightarrow> (u32 \<times> bytes) list" where
  "delivered_by (Line (ReceivedData s pl)) = [(s, pl)]"
| "delivered_by _ = []"

definition delivered :: "receiver_line action list \<Rightarrow> (u32 \<times> bytes) list" where
  "delivered as = concat (map delivered_by as)"

lemma delivered_simps [simp]:
  "delivered [] = []" "delivered (a # as) = delivered_by a @ delivered as"
  "delivered (as @ bs) = delivered as @ delivered bs"
  by (simp_all add: delivered_def)

text \<open>
  The order of events a correct receiver shows: new data is new, duplicates and
  acknowledged sequence numbers have been delivered before.
\<close>

fun monitor :: "u32 set \<Rightarrow> receiver_line action list \<Rightarrow> bool" where
  "monitor seen [] = True"
| "monitor seen (a # as) =
     (case a of
        Line (ReceivedData s pl) \<Rightarrow> s \<notin> seen \<and> monitor (insert s seen) as
      | Line (DuplicateData s) \<Rightarrow> s \<in> seen \<and> monitor seen as
      | Line (SentAck s) \<Rightarrow> s \<in> seen \<and> monitor seen as
      | _ \<Rightarrow> monitor seen as)"

definition quiet :: "receiver_line action \<Rightarrow> bool" where
  "quiet a \<longleftrightarrow> (case a of
      Line (ReceivedData s pl) \<Rightarrow> False
    | Line (DuplicateData s) \<Rightarrow> False
    | Line (SentAck s) \<Rightarrow> False
    | _ \<Rightarrow> True)"

lemma quiet_simps [simp]: "quiet (Sent fd bs)" "quiet (Closed fd)" "quiet (Line SenderConnected)"
  "quiet (Line SenderDisconnected)" "quiet (Line WaitingForConnection)" "quiet (Line (ReceivedHeartbeat s))"
  "quiet (Line (SentHeartbeatAck s))" "quiet (Line (ListeningOnPort n))" "quiet (Line (ReceiverError m))"
  by (simp_all add: quiet_def)

interpretation tcp_log: delivery_log delivered_by delivered monitor
proof unfold_locales
  show "monitor seen (a # as) \<longleftrightarrow> monitor seen [a] \<and> monitor (seen \<union> fst ` set (delivered_by a)) as" for seen a as
    by (cases a rule: delivered_by.cases) (auto split: action.splits receiver_line.splits)
  show "distinct (map fst (delivered_by a)) \<and> fst ` set (delivered_by a) \<inter> seen = {}" if "monitor seen [a]" for seen a
    using that by (cases a rule: delivered_by.cases) auto
qed simp_all

lemmas monitor_append = tcp_log.watch_append
lemmas monitor_distinct = tcp_log.watch_distinct

lemma quiet_step: "quiet a \<Longrightarrow> delivered_by a = [] \<and> (\<forall>seen. monitor seen [a])"
  by (auto simp: quiet_def split: action.splits receiver_line.splits)

lemma quiet_all: "list_all quiet as \<Longrightarrow> monitor seen as \<and> delivered as = []"
  by (rule tcp_log.watch_silent) (auto simp: list_all_iff simp del: monitor.simps dest: quiet_step)

section \<open>The invariant of the receiver process\<close>

definition tracks :: "receiver_line action list \<Rightarrow> receiver_world \<Rightarrow> bool" where
  "tracks pre w \<longleftrightarrow> (\<exists>as. trace w = pre @ as \<and> monitor {} as
      \<and> fst ` set (delivered as) = processed_sequences (locals w))"

lemma tracks_quiet: "appends quiet w w' \<Longrightarrow> preserves (tracks pre) w w'"
  unfolding preserves_def tracks_def appends_def
  by (auto dest!: quiet_all simp: monitor_append)

lemma tracks_within: "within (appends quiet) m \<Longrightarrow> within (preserves (tracks pre)) m"
  by (erule within_mono) (rule tracks_quiet)

lemma quiet_send_packet: "within (appends quiet) (receiver_send_packet fd p)"
  unfolding receiver_send_packet_def receiver_send_all_def
  by (intro appends.within_bind appends_lift_codec appends_send_loop) simp

lemma quiet_receive_packet: "within (appends quiet) (receiver_receive_packet fd)"
  unfolding receiver_receive_packet_eq
  by (intro appends_framed_receive appends_recv_loop)

lemma tracks_sent_ack:
  "s \<in> processed_sequences (locals w) \<Longrightarrow> tracks pre w \<Longrightarrow>
     tracks pre (w\<lparr>trace := trace w @ [Line (SentAck s)]\<rparr>)"
  by (fastforce simp: tracks_def monitor_append)

lemma tracks_answer:
  assumes "tracks pre w" "sequence p \<in> processed_sequences (locals w)"
  shows "tracks pre (snd (bind_io (receiver_send_packet fd ack) (\<lambda>_. cout (SentAck (sequence p))) w))"
proof -
  obtain r w1 where send: "receiver_send_packet fd ack w = (r, w1)"
    by fastforce
  note q = withinD [OF quiet_send_packet send]
  then have "tracks pre w1"
    using assms(1) tracks_quiet by (auto simp: preserves_def)
  moreover have "sequence p \<in> processed_sequences (locals w1)"
    using q assms(2) by (simp add: appends_def)
  ultimately show ?thesis
    using send by (cases r) (auto simp: bind_io_def apply_io intro: tracks_sent_ack)
qed

lemma tracks_handle_packet: "within (preserves (tracks pre)) (handle_packet fd p)"
proof (rule withinI)
  fix w
  show "preserves (tracks pre) w (snd (handle_packet fd p w))"
  proof (cases "type_of p = Data")
    case False
    have "within (appends quiet) (handle_packet fd p)"
      unfolding handle_packet_def Let_def if_not_P [OF False]
      by (intro appends.within_rules quiet_send_packet appends_cout) simp_all
    then show ?thesis
      using tracks_quiet by (simp add: within_def)
  next
    case True
    have fresh: "tracks pre (w\<lparr>trace := trace w @ [Line (ReceivedData (sequence p) (payload p))],
        locals := processed_sequences_update (insert (sequence p)) (locals w)\<rparr>)"
      if "tracks pre w" "sequence p \<notin> processed_sequences (locals w)"
      using that unfolding tracks_def by (fastforce simp: monitor_append)
    have dup: "tracks pre (w\<lparr>trace := trace w @ [Line (DuplicateData (sequence p))]\<rparr>)"
      if "tracks pre w" "sequence p \<in> processed_sequences (locals w)"
      using that by (fastforce simp: tracks_def monitor_append)
    show ?thesis
      using True tracks_answer [OF fresh] tracks_answer [OF dup]
      by (auto simp: preserves_def handle_packet_def io_simps Let_def)
  qed
qed

lemma tracks_serve_packet: "within (preserves (tracks pre)) (serve_packet fd)"
  unfolding serve_packet_def
  by (rule preserves.within_bind [OF tracks_within [OF quiet_receive_packet] tracks_handle_packet])

lemma tracks_lines:
  "within (preserves (tracks pre)) (cout SenderConnected)"
  "within (preserves (tracks pre)) (cout SenderDisconnected)"
  "within (preserves (tracks pre)) (cout WaitingForConnection)"
  "within (preserves (tracks pre)) (cout (ReceiverError m))"
  "within (preserves (tracks pre)) (sys_close fd)"
  "within (preserves (tracks pre)) sys_open"
proof -
  have "within (preserves (tracks pre)) (cout l)" if "quiet (Line l)" for l
    by (rule tracks_within [OF appends_cout]) (rule that)
  then show "within (preserves (tracks pre)) (cout SenderConnected)"
    "within (preserves (tracks pre)) (cout SenderDisconnected)"
    "within (preserves (tracks pre)) (cout WaitingForConnection)"
    "within (preserves (tracks pre)) (cout (ReceiverError m))"
    by simp_all
  show "within (preserves (tracks pre)) (sys_close fd)"
    by (rule tracks_within [OF appends_close]) simp
  show "within (preserves (tracks pre)) sys_open"
    by (rule tracks_within [OF appends_open])
qed

lemma tracks_serve_connection: "within (preserves (tracks pre)) (serve_connection fd)"
proof (rule withinI)
  fix w
  show "preserves (tracks pre) w (snd (serve_connection fd w))"
  proof (induction fd w rule: serve_connection.induct)
    case (1 fd w)
    obtain r w1 where step: "serve_packet fd w = (r, w1)"
      by fastforce
    note le = withinD [OF tracks_serve_packet step, of pre]
    have line: "preserves (tracks pre) w1 (snd (cout SenderDisconnected w1))"
      using tracks_lines(2) by (simp add: within_def)
    have again: "preserves (tracks pre) w1 (snd (serve_connection fd w1))" if "r = Ok ()"
      using that by (intro "1.IH" [OF step [symmetric]]) simp_all
    show ?case
      using step le preserves.trans [OF le line] preserves.trans [OF le again]
      by (subst serve_connection.simps) (simp split: result.splits exn.splits)
  qed
qed

lemma tracks_serve_client: "within (preserves (tracks pre)) (serve_client fd)"
  unfolding serve_client_def
  by (intro preserves.within_bind tracks_serve_connection tracks_lines)

lemma tracks_accept_loop: "within (preserves (tracks pre)) accept_loop"
proof (rule withinI)
  fix w
  show "preserves (tracks pre) w (snd (accept_loop w))"
  proof (induction w rule: accept_loop.induct)
    case (1 w)
    obtain r w1 where step: "sys_open w = (r, w1)"
      by fastforce
    note le = withinD [OF tracks_lines(6) step, of pre]
    show ?case
    proof (cases "\<exists>fd. r = Ok (Inr fd)")
      case True
      then obtain fd where r: "r = Ok (Inr fd)" ..
      obtain r' w2 where serve: "serve_client fd w1 = (r', w2)"
        by fastforce
      note le' = preserves.trans [OF le withinD [OF tracks_serve_client serve, of pre]]
      have "preserves (tracks pre) w2 (snd (accept_loop w2))" if "r' = Ok ()"
        using that r by (intro "1.IH"(2) [OF step [symmetric] r refl serve [symmetric]]) simp_all
      with step r serve le' preserves.trans [OF le'] show ?thesis
        by (subst accept_loop.simps) (simp split: result.splits)
    next
      case False
      have "preserves (tracks pre) w1 (snd (accept_loop w1))" if "r = Ok (Inl EINTR)"
        using that by (intro "1.IH"(1) [OF step [symmetric]]) simp_all
      with False step le preserves.trans [OF le] show ?thesis
        by (subst accept_loop.simps) (auto split: result.splits sum.splits)
    qed
  qed
qed

text \<open>The process starts its loop with an empty record and a trace that shows nothing yet.\<close>

definition starts :: "receiver_line action list \<Rightarrow> receiver_world \<Rightarrow> bool" where
  "starts pre w \<longleftrightarrow> (\<exists>as. trace w = pre @ as \<and> monitor {} as \<and> delivered as = [])"

lemma starts_quiet: "appends quiet w w' \<Longrightarrow> starts pre w \<Longrightarrow> starts pre w'"
  unfolding starts_def appends_def by (auto dest!: quiet_all simp: monitor_append)

lemma quiet_create_server_socket: "within (appends quiet) create_server_socket"
  unfolding create_server_socket_def
  by (intro appends.within_rules appends_calls appends_close) simp_all

lemma monitor_receiver_main:
  "\<exists>as. trace (snd (receiver_main w)) = trace w @ as \<and> monitor {} as"
proof -
  let ?loop = "\<lambda>server_fd. bind_io accept_loop (\<lambda>_. bind_io (sys_close server_fd) (\<lambda>_. ret (0::int)))"
  let ?handler = "\<lambda>e. map_option (\<lambda>m. bind_io (cout (ReceiverError m)) (\<lambda>_. ret (1::int))) (std_what e)"
  let ?body = "bind_io create_server_socket (\<lambda>server_fd.
        bind_io (cout (ListeningOnPort receiver_kPort)) (\<lambda>_.
        bind_io (upd_local (processed_sequences_update (\<lambda>_. {}))) (\<lambda>_. ?loop server_fd)))"
  let ?pre = "trace w"
  define ok where "ok v \<longleftrightarrow> (\<exists>as. trace v = ?pre @ as \<and> monitor {} as)" for v :: receiver_world
  have tracks_ok: "tracks ?pre v \<Longrightarrow> ok v" and starts_ok: "starts ?pre v \<Longrightarrow> ok v" for v
    by (auto simp: ok_def tracks_def starts_def)
  have ok_error: "ok v \<Longrightarrow> ok (v\<lparr>trace := trace v @ [Line (ReceiverError m)]\<rparr>)" for v m
    by (auto simp: ok_def monitor_append)
  obtain r w1 where create: "create_server_socket w = (r, w1)"
    by fastforce
  have "starts ?pre w"
    by (simp add: starts_def)
  then have s1: "starts ?pre w1"
    using withinD [OF quiet_create_server_socket create] by (rule_tac starts_quiet)
  have loop: "ok (snd (?loop fd v))" if "tracks ?pre v" for fd v
  proof -
    have "within (preserves (tracks ?pre)) (?loop fd)"
      by (intro preserves.within_bind tracks_accept_loop tracks_lines preserves.within_ret)
    with that tracks_ok show ?thesis
      by (simp add: within_def preserves_def)
  qed
  have "ok (snd (?body w))"
  proof (cases r)
    case (Ok fd)
    have "tracks ?pre (w1\<lparr>trace := trace w1 @ [Line (ListeningOnPort receiver_kPort)],
        locals := processed_sequences_update (\<lambda>_. {}) (locals w1)\<rparr>)"
      using s1 by (auto simp: starts_def tracks_def monitor_append)
    from loop [OF this, of fd] show ?thesis
      using create Ok by (simp add: bind_io_Ok io_simps)
  qed (use create s1 starts_ok in \<open>simp_all add: bind_io_def\<close>)
  then have "ok (snd (receiver_main w))"
    unfolding receiver_main_def catch_io_def
    using ok_error by (auto simp: io_simps split: prod.splits result.splits option.splits)
  then show ?thesis
    by (simp add: ok_def)
qed

end
