(* ===== verification/TcpSessions.thy ===== *)
theory TcpSessions
  imports TcpReceiver
begin

text \<open>
  The receiver against its specification: what one connection shows is what
  \<open>serve_spec\<close> prescribes for the packets it carried, for any segmentation of the
  stream, and the record of processed sequence numbers links the connections.
\<close>

section \<open>Observations\<close>

fun observed_by :: "receiver_line action \<Rightarrow> observation list" where
  "observed_by (Line (ReceivedData s pl)) = [Deliver s pl]"
| "observed_by (Line (SentAck s)) = [Reply (ack_packet s)]"
| "observed_by (Line (SentHeartbeatAck s)) = [Reply (heartbeat_ack_packet s)]"
| "observed_by _ = []"

definition observed :: "receiver_line action list \<Rightarrow> observation list" where
  "observed as = concat (map observed_by as)"

lemma observed_simps [simp]:
  "observed [] = []" "observed (a # as) = observed_by a @ observed as"
  "observed (as @ bs) = observed as @ observed bs"
  by (simp_all add: observed_def)

lemma only_sent_observed: "only_sent fd as \<Longrightarrow> observed as = []"
  by (induction as) (auto simp: only_sent_def)

lemma observed_deliveries: "deliveries (observed as) = delivered as"
proof (induction as)
  case (Cons a as)
  then show ?case
    by (cases a rule: observed_by.cases) simp_all
qed simp

section \<open>One packet\<close>

text \<open>
  \<open>shows_obs fd os w w'\<close>: between the worlds the receiver shows the observations \<open>os\<close>
  and writes the frames of the replies among them to \<open>fd\<close>, and nothing to other sockets.
\<close>

definition shows_obs :: "fd \<Rightarrow> observation list \<Rightarrow> receiver_world \<Rightarrow> receiver_world \<Rightarrow> bool" where
  "shows_obs fd os w w' \<longleftrightarrow> (\<exists>as. trace w' = trace w @ as \<and> observed as = os
     \<and> (\<forall>fd'. wire_out fd' as = (if fd' = fd then concat (map frame (replies os)) else [])))"

lemma shows_obs_Nil: "trace w' = trace w \<Longrightarrow> shows_obs fd [] w w'"
  by (simp add: shows_obs_def)

lemma shows_obs_append:
  assumes "shows_obs fd os w w'" "shows_obs fd os' w' w''"
  shows "shows_obs fd (os @ os') w w''"
proof -
  from assms obtain as as' where "trace w'' = trace w @ (as @ as')" "observed (as @ as') = os @ os'"
    "\<forall>fd'. wire_out fd' (as @ as') = (if fd' = fd then concat (map frame (replies (os @ os'))) else [])"
    by (auto simp: shows_obs_def)
  then show ?thesis
    unfolding shows_obs_def by blast
qed

text \<open>What serving a packet leaves alone, and the room for answers that is left.\<close>

definition calm :: "fd \<Rightarrow> nat \<Rightarrow> receiver_world \<Rightarrow> receiver_world \<Rightarrow> bool" where
  "calm fd m w w' \<longleftrightarrow> accepting fd m w' \<and> rx (socks w' fd) = rx (socks w fd) \<and> fds w' = fds w
     \<and> (\<forall>fd'. fd' \<noteq> fd \<longrightarrow> socks w' fd' = socks w fd')"

lemma receiver_answers:
  assumes "accepting fd (16 + m) w" "payload r = []" "observed_by (Line l) = [Reply r]"
  obtains w' where "bind_io (receiver_send_packet fd r) (\<lambda>_. cout l) w = (Ok (), w')"
    "shows_obs fd [Reply r] w w'" "locals w' = locals w" "calm fd m w w'"
proof -
  have "small r" "length (frame r) = 16"
    using assms(2) by (simp_all add: small_def length_frame)
  with assms(1) have "accepting fd (length (frame r) + m) w"
    by simp
  then obtain es as where
    sent: "send_loop (\<lambda>e. RuntimeError (Sys ''send failed: '' e)) (RuntimeError (Msg ''connection closed while sending''))
        fd (frame r) 0 w = (Ok (), set_tx fd es (w\<lparr>trace := trace w @ as\<rparr>))"
    and as: "only_sent fd as" "wire_out fd as = frame r"
    and acc: "accepting fd m (set_tx fd es (w\<lparr>trace := trace w @ as\<rparr>))"
    by (rule send_loop_delivers)
  let ?w1 = "set_tx fd es (w\<lparr>trace := trace w @ as\<rparr>)"
  let ?w' = "?w1\<lparr>trace := trace ?w1 @ [Line l]\<rparr>"
  have run: "bind_io (receiver_send_packet fd r) (\<lambda>_. cout l) w = (Ok (), ?w')"
    using sent \<open>small r\<close>
    by (simp add: receiver_send_packet_def receiver_send_all_def encode_small io_simps bind_io_Ok)
  show thesis
  proof (rule that [OF run])
    show "shows_obs fd [Reply r] w ?w'"
      using as assms(3) only_sent_observed [OF as(1)] only_sent_other [OF as(1)] by (auto simp: shows_obs_def)
    show "calm fd m w ?w'"
      using acc by (simp add: calm_def accepting_def) (simp add: set_tx_def)
  qed simp
qed

lemma answer_payload: "payload (ack_packet s) = []" "payload (heartbeat_ack_packet s) = []"
  by (simp_all add: ack_packet_def heartbeat_ack_packet_def)

lemma handle_packet_serves:
  assumes "accepting fd (16 + m) w" "is_request p"
  obtains w' where "handle_packet fd p w = (Ok (), w')"
    "shows_obs fd (serve_spec (processed_sequences (locals w)) [p]) w w'"
    "processed_sequences (locals w') = seen_after (processed_sequences (locals w)) [p]"
    "calm fd m w w'"
proof (cases "type_of p = Data")
  case True
  let ?s = "sequence p"
  let ?seen = "processed_sequences (locals w)"
  define w1 where "w1 = (if ?s \<in> ?seen then w\<lparr>trace := trace w @ [Line (DuplicateData ?s)]\<rparr>
    else w\<lparr>trace := trace w @ [Line (ReceivedData ?s (payload p))],
           locals := processed_sequences_update (insert ?s) (locals w)\<rparr>)"
  have acc: "accepting fd (16 + m) w1"
    using assms(1) by (simp add: w1_def)
  obtain w' where w': "bind_io (receiver_send_packet fd (ack_packet ?s)) (\<lambda>_. cout (SentAck ?s)) w1 = (Ok (), w')"
    "shows_obs fd [Reply (ack_packet ?s)] w1 w'" "locals w' = locals w1" "calm fd m w1 w'"
    by (rule receiver_answers [OF acc answer_payload(1) observed_by.simps(2)])
  have first: "shows_obs fd (if ?s \<in> ?seen then [] else [Deliver ?s (payload p)]) w w1"
    by (simp add: shows_obs_def w1_def)
  show thesis
  proof (rule that)
    show "handle_packet fd p w = (Ok (), w')"
      using w'(1) True by (auto simp: handle_packet_def io_simps Let_def ack_packet_def w1_def)
    show "shows_obs fd (serve_spec ?seen [p]) w w'"
      using shows_obs_append [OF first w'(2)] True by simp
    show "processed_sequences (locals w') = seen_after ?seen [p]"
      using w'(3) True by (auto simp: w1_def)
    show "calm fd m w w'"
      using w'(4) by (simp add: calm_def w1_def)
  qed
next
  case False
  with assms(2) have hb: "type_of p = Heartbeat"
    by (simp add: is_request_def)
  let ?s = "sequence p"
  define w1 where "w1 = w\<lparr>trace := trace w @ [Line (ReceivedHeartbeat ?s)]\<rparr>"
  have acc: "accepting fd (16 + m) w1"
    using assms(1) by (simp add: w1_def)
  obtain w' where
    w': "bind_io (receiver_send_packet fd (heartbeat_ack_packet ?s)) (\<lambda>_. cout (SentHeartbeatAck ?s)) w1 = (Ok (), w')"
    "shows_obs fd [Reply (heartbeat_ack_packet ?s)] w1 w'" "locals w' = locals w1" "calm fd m w1 w'"
    by (rule receiver_answers [OF acc answer_payload(2) observed_by.simps(3)])
  have first: "shows_obs fd [] w w1"
    by (simp add: shows_obs_def w1_def)
  show thesis
  proof (rule that)
    show "handle_packet fd p w = (Ok (), w')"
      using w'(1) hb by (simp add: handle_packet_def io_simps Let_def heartbeat_ack_packet_def w1_def)
    show "shows_obs fd (serve_spec (processed_sequences (locals w)) [p]) w w'"
      using shows_obs_append [OF first w'(2)] hb by simp
    show "processed_sequences (locals w') = seen_after (processed_sequences (locals w)) [p]"
      using w'(3) hb by (simp add: w1_def)
    show "calm fd m w w'"
      using w'(4) by (simp add: calm_def w1_def)
  qed
qed

section \<open>The packets of one connection\<close>

text \<open>
  \<open>progress fd ps w w'\<close>: the receiver has served \<open>ps\<close> on \<open>fd\<close>; other sockets and the
  connections still to come are as they were.
\<close>

definition progress :: "fd \<Rightarrow> packet list \<Rightarrow> receiver_world \<Rightarrow> receiver_world \<Rightarrow> bool" where
  "progress fd ps w w' \<longleftrightarrow>
     shows_obs fd (serve_spec (processed_sequences (locals w)) ps) w w'
     \<and> processed_sequences (locals w') = seen_after (processed_sequences (locals w)) ps
     \<and> fds w' = fds w \<and> (\<forall>fd'. fd' \<noteq> fd \<longrightarrow> socks w' fd' = socks w fd')"

lemma progress_Nil: "only_rx fd w w' \<Longrightarrow> progress fd [] w w'"
  by (auto simp: progress_def only_rxD intro: shows_obs_Nil)

lemma progress_append:
  assumes "progress fd ps w w'" "progress fd qs w' w''"
  shows "progress fd (ps @ qs) w w''"
proof -
  have "shows_obs fd (serve_spec (processed_sequences (locals w)) (ps @ qs)) w w''"
    using assms shows_obs_append [of fd _ w w' _ w''] by (simp add: progress_def serve_spec_append)
  with assms show ?thesis
    by (simp add: progress_def seen_after_append)
qed

definition served :: "packet \<Rightarrow> bool" where
  "served p \<longleftrightarrow> small p \<and> is_request p"

locale served_stream = framed_reader "receiver_recv_exact fd" stream "\<lambda>_. only_rx fd"
  for fd :: fd and stream :: "bytes \<Rightarrow> receiver_world \<Rightarrow> bool" +
  assumes stream_cong: "rx (socks w' fd) = rx (socks w fd) \<Longrightarrow> stream bs w \<Longrightarrow> stream bs w'"
begin

lemma serve_packet_step:
  assumes "stream (frame p @ rest) w" "served p" "accepting fd (16 + m) w"
  obtains w' where "serve_packet fd w = (Ok (), w')" "progress fd [p] w w'" "stream rest w'" "accepting fd m w'"
proof -
  from assms(2) have "small p" "is_request p"
    by (simp_all add: served_def)
  from receive_frame [OF assms(1) this(1)] obtain w1 where
    recv: "receiver_receive_packet fd w = (Ok p, w1)" and rest: "stream rest w1" and only: "only_rx fd w w1"
    by (auto simp: receiver_receive_packet_def)
  note same = only_rxD [OF only]
  have "accepting fd (16 + m) w1"
    using assms(3) same by simp
  then obtain w' where w': "handle_packet fd p w1 = (Ok (), w')"
    "shows_obs fd (serve_spec (processed_sequences (locals w1)) [p]) w1 w'"
    "processed_sequences (locals w') = seen_after (processed_sequences (locals w1)) [p]" "calm fd m w1 w'"
    using \<open>is_request p\<close> by (rule handle_packet_serves)
  show thesis
  proof (rule that)
    show "serve_packet fd w = (Ok (), w')"
      using recv w'(1) by (simp add: serve_packet_def bind_io_Ok)
    have "progress fd [p] w1 w'"
      using w' by (simp add: progress_def calm_def)
    then show "progress fd [p] w w'"
      using progress_append [OF progress_Nil [OF only]] by simp
    show "stream rest w'"
      using stream_cong [OF _ rest, of w'] w'(4) by (simp add: calm_def)
    show "accepting fd m w'"
      using w'(4) by (simp add: calm_def)
  qed
qed

lemma serve_packets:
  assumes "stream (concat (map frame ps) @ rest) w" "list_all served ps"
    and "accepting fd (16 * length ps) w"
  shows "\<exists>w'. serve_connection fd w = serve_connection fd w' \<and> progress fd ps w w' \<and> stream rest w'"
  using assms
proof (induction ps arbitrary: w)
  case Nil
  then show ?case
    using progress_Nil [OF only_rx_refl] by auto
next
  case (Cons p ps)
  from Cons.prems(2) have rest: "list_all served ps"
    by simp
  from Cons.prems have "stream (frame p @ (concat (map frame ps) @ rest)) w" "served p"
    "accepting fd (16 + 16 * length ps) w"
    by simp_all
  then obtain w1 where w1: "serve_packet fd w = (Ok (), w1)" "progress fd [p] w w1"
    "stream (concat (map frame ps) @ rest) w1" "accepting fd (16 * length ps) w1"
    by (rule serve_packet_step)
  from Cons.IH [OF w1(3) rest w1(4)] obtain w' where
    w': "serve_connection fd w1 = serve_connection fd w'" "progress fd ps w1 w'" "stream rest w'"
    by blast
  have "serve_connection fd w = serve_connection fd w1"
    using w1(1) by (subst serve_connection.simps) simp
  with w' progress_append [OF w1(2) w'(2)] show ?case
    by auto
qed

end

lemma receiver_recv_exact_eq:
  "receiver_recv_exact fd = (\<lambda>n. recv_loop (PeerDisconnected (Msg ''peer disconnected'')) fd n [])"
  by (rule ext) (simp add: receiver_recv_exact_def)

interpretation open_stream: served_stream fd "incoming fd" for fd :: fd
proof (intro served_stream.intro served_stream_axioms.intro)
  show "framed_reader (receiver_recv_exact fd) (incoming fd) (\<lambda>_. only_rx fd)"
    unfolding receiver_recv_exact_eq by (rule blocking.framed_reader_axioms)
qed (simp add: incoming_def)

interpretation ended_stream: served_stream fd "ending fd" for fd :: fd
proof (intro served_stream.intro served_stream_axioms.intro)
  show "framed_reader (receiver_recv_exact fd) (ending fd) (\<lambda>_. only_rx fd)"
    unfolding receiver_recv_exact_eq by (rule blocking_end.framed_reader_axioms)
qed (simp add: ending_def)

section \<open>How a connection ends\<close>

text \<open>The script of a connection that carries the packets \<open>ps\<close>, perhaps part of a further frame, and closes.\<close>

definition session_script :: "sock \<Rightarrow> packet list \<Rightarrow> bool" where
  "session_script s ps \<longleftrightarrow>
     (\<exists>es tail part q. rx s = es @ Fin # tail \<and> list_all benign es
        \<and> stream_bytes es = concat (map frame ps) @ part \<and> small q \<and> strict_prefix part (frame q))
     \<and> list_all served ps \<and> list_all good_tx (tx s) \<and> 16 * length ps \<le> accepts (tx s)"

lemma progress_line:
  "progress fd ps w w' \<Longrightarrow> observed_by a = [] \<Longrightarrow> (\<And>fd'. wire_out fd' [a] = []) \<Longrightarrow>
     progress fd ps w (w'\<lparr>trace := trace w' @ [a]\<rparr>)"
  by (auto simp: progress_def shows_obs_def simp del: wire_out.simps)

lemma serve_connection_session:
  assumes "session_script (socks w fd) ps"
  shows "\<exists>w'. serve_connection fd w = (Ok (), w') \<and> progress fd ps w w'"
proof -
  from assms obtain part q where stream: "ending fd (concat (map frame ps) @ part) w"
    and part: "strict_prefix part (frame q)" "small q"
    by (auto simp: session_script_def ending_def)
  from assms have "list_all served ps" "accepting fd (16 * length ps) w"
    by (auto simp: session_script_def accepting_def)
  with ended_stream.serve_packets [OF stream] obtain w1 where
    w1: "serve_connection fd w = serve_connection fd w1" "progress fd ps w w1" "ending fd part w1"
    by blast
  obtain w2 where "receiver_receive_packet fd w1 = (Throw (PeerDisconnected (Msg ''peer disconnected'')), w2)"
    and only: "only_rx fd w1 w2"
    using blocking_end.receive_partial_frame [OF w1(3) part, of "PeerDisconnected (Msg ''peer disconnected'')"]
    by (auto simp: receiver_receive_packet_eq)
  then have "serve_connection fd w1 = (Ok (), w2\<lparr>trace := trace w2 @ [Line SenderDisconnected]\<rparr>)"
    by (subst serve_connection.simps) (simp add: serve_packet_def bind_io_Throw apply_io)
  moreover have "progress fd ps w w2"
    using progress_append [OF w1(2) progress_Nil [OF only]] by simp
  ultimately show ?thesis
    using w1(1) progress_line [of fd ps w w2 "Line SenderDisconnected"] by simp
qed

lemma serve_connection_damaged:
  assumes "incoming fd (concat (map frame ps) @ h @ pl @ rest) w" "list_all served ps"
    and "accepting fd (16 * length ps) w"
    and "get_payload_length h = Inr n" "length pl = unat n" "decode_packet h pl = Inl e"
  shows "\<exists>w'. serve_connection fd w = (Throw (RuntimeError (Msg (codec_message e))), w') \<and> progress fd ps w w'"
proof -
  from open_stream.serve_packets [OF assms(1-3)] obtain w1 where
    w1: "serve_connection fd w = serve_connection fd w1" "progress fd ps w w1" "incoming fd (h @ pl @ rest) w1"
    by blast
  from blocking.receive_decodes [OF w1(3) assms(4,5)] assms(6) obtain w2 where
    "receiver_receive_packet fd w1 = (Throw (RuntimeError (Msg (codec_message e))), w2)" and only: "only_rx fd w1 w2"
    by (auto simp: receiver_receive_packet_eq apply_io)
  then have "serve_connection fd w1 = (Throw (RuntimeError (Msg (codec_message e))), w2)"
    by (subst serve_connection.simps) (simp add: serve_packet_def bind_io_Throw)
  with w1(1) progress_append [OF w1(2) progress_Nil [OF only]] show ?thesis
    by auto
qed

section \<open>Connection after connection\<close>

definition saw :: "observation list \<Rightarrow> receiver_world \<Rightarrow> receiver_world \<Rightarrow> bool" where
  "saw os w w' \<longleftrightarrow> (\<exists>as. trace w' = trace w @ as \<and> observed as = os)"

lemma saw_append: "saw os u v \<Longrightarrow> saw os' v w \<Longrightarrow> saw (os @ os') u w"
  by (fastforce simp: saw_def)

lemma serve_client_session:
  assumes "session_script (socks w fd) ps"
  obtains w' where "serve_client fd w = (Ok (), w')" "fds w' = fds w"
    "saw (serve_spec (processed_sequences (locals w)) ps) w w'"
    "processed_sequences (locals w') = seen_after (processed_sequences (locals w)) ps"
proof -
  let ?w1 = "w\<lparr>trace := trace w @ [Line SenderConnected]\<rparr>"
  from assms have "session_script (socks ?w1 fd) ps"
    by simp
  from serve_connection_session [OF this] obtain w2 where
    run: "serve_connection fd ?w1 = (Ok (), w2)" and p: "progress fd ps ?w1 w2"
    by blast
  show thesis
  proof (rule that)
    show "serve_client fd w =
        (Ok (), w2\<lparr>trace := trace w2 @ [Closed fd, Line WaitingForConnection]\<rparr>)"
      using run by (simp add: serve_client_def io_simps bind_io_Ok)
    show "saw (serve_spec (processed_sequences (locals w)) ps) w
        (w2\<lparr>trace := trace w2 @ [Closed fd, Line WaitingForConnection]\<rparr>)"
      using p by (auto simp: progress_def shows_obs_def saw_def)
  qed (use p in \<open>simp_all add: progress_def\<close>)
qed

type_synonym visit = "fd \<times> sock \<times> packet list"

definition visit_fd :: "visit \<Rightarrow> errno + fd \<times> sock" where
  "visit_fd v = Inr (fst v, fst (snd v))"

definition good_visit :: "visit \<Rightarrow> bool" where
  "good_visit v \<longleftrightarrow> session_script (fst (snd v)) (snd (snd v))"

definition visit_packets :: "visit list \<Rightarrow> packet list" where
  "visit_packets vs = concat (map (snd \<circ> snd) vs)"

lemma accept_loop_sessions:
  assumes "fds w = map visit_fd visits" "list_all good_visit visits"
  shows "\<exists>w'. accept_loop w = (Blocked, w')
    \<and> saw (serve_spec (processed_sequences (locals w)) (visit_packets visits)) w w'"
  using assms
proof (induction visits arbitrary: w)
  case Nil
  then show ?case
    by (subst accept_loop.simps) (simp add: sys_open_def saw_def visit_packets_def)
next
  case (Cons v visits)
  obtain fd s ps where v: "v = (fd, s, ps)"
    by (cases v) auto
  let ?w1 = "w\<lparr>fds := map visit_fd visits, socks := (socks w)(fd := s)\<rparr>"
  have accept: "sys_open w = (Ok (Inr fd), ?w1)"
    using Cons.prems(1) v by (simp add: sys_open_def visit_fd_def)
  have "session_script (socks ?w1 fd) ps"
    using Cons.prems(2) v by (simp add: good_visit_def)
  then obtain w2 where w2: "serve_client fd ?w1 = (Ok (), w2)" "fds w2 = fds ?w1"
    "saw (serve_spec (processed_sequences (locals ?w1)) ps) ?w1 w2"
    "processed_sequences (locals w2) = seen_after (processed_sequences (locals ?w1)) ps"
    by (rule serve_client_session)
  from Cons.IH [of w2] w2(2) Cons.prems(2) obtain w' where
    w': "accept_loop w2 = (Blocked, w')"
    "saw (serve_spec (processed_sequences (locals w2)) (visit_packets visits)) w2 w'"
    by auto
  have "accept_loop w = (Blocked, w')"
    using accept w2(1) w'(1) by (subst accept_loop.simps) simp
  moreover have "saw (serve_spec (processed_sequences (locals w)) ps) w w2"
    using w2(3) by (simp add: saw_def)
  from saw_append [OF this w'(2)]
  have "saw (serve_spec (processed_sequences (locals w)) (visit_packets (v # visits))) w w'"
    using w2(4) v by (simp add: visit_packets_def serve_spec_append)
  ultimately show ?case
    by blast
qed

text \<open>The process started on a free port.\<close>

definition starts_listening :: "(errno + fd \<times> sock) list \<Rightarrow> receiver_world \<Rightarrow> bool" where
  "starts_listening arrivals w \<longleftrightarrow>
     (\<exists>server_fd s cs. fds w = Inr (server_fd, s) # arrivals \<and> calls w = None # None # None # cs)"

lemma receiver_main_sessions:
  assumes "starts_listening (map visit_fd visits) w" "list_all good_visit visits"
  shows "\<exists>w'. receiver_main w = (Blocked, w') \<and> saw (serve_spec {} (visit_packets visits)) w w'"
proof -
  from assms(1) obtain server_fd s cs where
    w: "fds w = Inr (server_fd, s) # map visit_fd visits" "calls w = None # None # None # cs"
    by (auto simp: starts_listening_def)
  let ?w1 = "w\<lparr>fds := map visit_fd visits, socks := (socks w)(server_fd := s), calls := cs\<rparr>"
  let ?w2 = "?w1\<lparr>trace := trace w @ [Line (ListeningOnPort receiver_kPort)],
    locals := processed_sequences_update (\<lambda>_. {}) (locals w)\<rparr>"
  have create: "create_server_socket w = (Ok server_fd, ?w1)"
    using w by (simp add: create_server_socket_def bind_io_def sys_open_def sys_call_def ret_def)
  from accept_loop_sessions [of ?w2 visits] assms(2) obtain w' where
    w': "accept_loop ?w2 = (Blocked, w')" "saw (serve_spec {} (visit_packets visits)) ?w2 w'"
    by auto
  have "saw [] w ?w2"
    by (auto simp: saw_def)
  from saw_append [OF this w'(2)] have "saw (serve_spec {} (visit_packets visits)) w w'"
    by simp
  moreover have "receiver_main w = (Blocked, w')"
    unfolding receiver_main_def
    by (rule catch_io_Blocked) (simp add: create bind_io_Ok io_simps w'(1) bind_io_Blocked)
  ultimately show ?thesis
    by blast
qed

section \<open>Exceptions\<close>

lemma standard_handle_packet: "raises standard (handle_packet fd p)"
  unfolding handle_packet_def Let_def receiver_send_packet_def receiver_send_all_def
  by (intro raises_rules raises_lift_codec raises_send_loop) simp_all

lemma standard_serve_packet: "raises standard (serve_packet fd)"
  unfolding serve_packet_def receiver_receive_packet_eq
  by (intro raises_bind standard_handle_packet raises_framed_receive raises_recv_loop) simp_all

lemma standard_serve_connection: "raises standard (serve_connection fd)"
proof -
  have "serve_connection fd w = (Throw e, w') \<Longrightarrow> standard e" for w e w'
  proof (induction fd w rule: serve_connection.induct)
    case (1 fd w)
    from "1.prems" [unfolded serve_connection.simps [of fd w]] show ?case
      using "1.IH" raisesD [OF standard_serve_packet, of fd w]
      by (auto simp: apply_io split: prod.splits result.splits exn.splits)
  qed
  then show ?thesis
    by (rule raisesI)
qed

lemma accept_loop_never_returns: "accept_loop w \<noteq> (Ok u, w')"
proof (induction w rule: accept_loop.induct)
  case (1 w)
  then show ?case
    by (subst accept_loop.simps) (auto split: prod.splits result.splits sum.splits)
qed

lemma standard_accept_loop: "raises standard accept_loop"
proof -
  have client: "raises standard (serve_client fd)" for fd
    unfolding serve_client_def by (intro raises_rules standard_serve_connection)
  have "accept_loop w = (Throw e, w') \<Longrightarrow> standard e" for w e w'
  proof (induction w rule: accept_loop.induct)
    case (1 w)
    from "1.prems" [unfolded accept_loop.simps [of w]] show ?case
      using "1.IH" raisesD [OF client]
      by (auto simp: sys_calls_no_throw split: prod.splits result.splits sum.splits if_splits)
  qed
  then show ?thesis
    by (rule raisesI)
qed

section \<open>Properties\<close>

text \<open>
  C22: \<open>send_all\<close> neither skips nor repeats a byte. Whatever \<open>send\<close> answers, it ends; the
  bytes put on the wire are a prefix of the data, and all of it if and only if it returns.
\<close>

theorem receiver_send_all_exact:
  "case receiver_send_all fd data w of (r, w') \<Rightarrow>
     \<exists>as. trace w' = trace w @ as \<and> only_sent fd as \<and> locals w' = locals w
       \<and> (if r = Ok () then wire_out fd as = data else strict_prefix (wire_out fd as) data)"
proof -
  obtain r w' where run: "receiver_send_all fd data w = (r, w')"
    by fastforce
  from send_loop_sends [OF _ run [unfolded receiver_send_all_def]] show ?thesis
    by (simp add: run) (fastforce simp: sends_def strict_prefix_def)
qed

text \<open>
  C23: \<open>recv_exact\<close> takes exactly what it was asked for. Whatever \<open>recv\<close> answers, it ends; the
  bytes it returns are the next ones of the stream, as many as requested, and the rest is
  left; it fails only with \<open>PeerDisconnected\<close> or a receive error that is no interruption.
\<close>

theorem receiver_recv_exact_stream:
  "case receiver_recv_exact fd n w of (r, w') \<Rightarrow>
     \<exists>es. w' = set_rx fd es w \<and> (case r of
         Ok out \<Rightarrow> length out = n \<and> stream_bytes (rx (socks w fd)) = out @ stream_bytes es
       | Throw e \<Rightarrow> e \<in> insert (PeerDisconnected (Msg ''peer disconnected''))
           {RuntimeError (Sys ''recv failed: '' err) |err. err \<noteq> EINTR}
       | Blocked \<Rightarrow> True)"
proof -
  obtain r w' where run: "receiver_recv_exact fd n w = (r, w')"
    by fastforce
  from recv_loop_takes [OF _ run [unfolded receiver_recv_exact_def]] show ?thesis
    by (simp add: run) (fastforce simp: takes_def split: result.splits)
qed

text \<open>
  C4: at-most-once delivery. Whatever the peers, the network and the kernel do, one run of
  the receiver hands no sequence number to the application twice, reconnections included.
\<close>

theorem receiver_at_most_once:
  "\<exists>as. trace (snd (receiver_main w)) = trace w @ as \<and> distinct (map fst (delivered as))"
  using monitor_receiver_main [of w] monitor_distinct by blast

text \<open>
  C21: the receiver never reports success: \<open>main\<close> is still waiting in some call, or it has
  returned 1, having reported the error as its last output. No exception leaves it.
\<close>

theorem receiver_main_outcome:
  "case receiver_main w of (x, w') \<Rightarrow>
     x = Blocked \<or> x = Ok 1 \<and> (\<exists>m. last (trace w') = Line (ReceiverError m))"
proof -
  let ?body = "bind_io create_server_socket (\<lambda>server_fd.
        bind_io (cout (ListeningOnPort receiver_kPort)) (\<lambda>_.
        bind_io (upd_local (processed_sequences_update (\<lambda>_. {}))) (\<lambda>_.
        bind_io accept_loop (\<lambda>_. bind_io (sys_close server_fd) (\<lambda>_. ret (0::int))))))"
  have "raises standard create_server_socket"
    unfolding create_server_socket_def by (intro raises_rules) simp_all
  then have body: "raises standard ?body"
    by (intro raises_bind standard_accept_loop raises_rules)
  obtain x v where run: "?body w = (x, v)"
    by fastforce
  have "x = Blocked \<or> (\<exists>e m. x = Throw e \<and> std_what e = Some m)"
    using run raisesD [OF body, of w]
    by (cases x) (auto simp: standard_def io_simps bind_io_eq_Ok accept_loop_never_returns)
  with run show ?thesis
    by (auto simp: receiver_main_def catch_io_def io_simps)
qed

text \<open>
  C6: one connection refines the specification. A connection carries the frames of any list
  of requests, cut into segments in any way, with interrupted calls anywhere, perhaps
  followed by an incomplete frame, and the peer closes it; the socket takes the answers in
  pieces of any size. Then the connection ends in order, the receiver has shown exactly the
  deliveries and replies \<open>serve_spec\<close> prescribes, in that order, has written exactly the
  frames of the replies, and remembers exactly the sequence numbers it had to.
\<close>

theorem receiver_session_refines:
  assumes "session_script (socks w fd) ps"
  shows "\<exists>w' as. serve_connection fd w = (Ok (), w') \<and> trace w' = trace w @ as
    \<and> observed as = serve_spec (processed_sequences (locals w)) ps
    \<and> wire_out fd as = concat (map frame (replies (observed as)))
    \<and> processed_sequences (locals w') = seen_after (processed_sequences (locals w)) ps"
  using serve_connection_session [OF assms] by (fastforce simp: progress_def shows_obs_def)

definition example_data :: packet where
  "example_data = \<lparr>type_of = Data, sequence = 1, payload = [104, 105]\<rparr>"

definition example_heartbeat :: packet where
  "example_heartbeat = \<lparr>type_of = Heartbeat, sequence = 2, payload = []\<rparr>"

text \<open>A connection that repeats a DATA packet, is interrupted, and ends inside a frame.\<close>

definition example_sock :: sock where
  "example_sock = idle_sock\<lparr>
     rx := [Segment (frame example_data), RxFail EINTR,
            Segment (frame example_data @ frame example_heartbeat @ [0xAA]), Fin],
     tx := replicate 48 (TxAccept 1)\<rparr>"

lemma example_served: "served example_data" "served example_heartbeat"
  by (simp_all add: served_def small_def is_request_def example_data_def example_heartbeat_def kMaxPayloadSize_def)

lemma accepts_replicate: "accepts (replicate n (TxAccept k)) = n"
  by (induction n) simp_all

lemma example_script: "session_script example_sock [example_data, example_data, example_heartbeat]"
  unfolding session_script_def
proof (intro conjI exI)
  show "rx example_sock = [Segment (frame example_data), RxFail EINTR,
      Segment (frame example_data @ frame example_heartbeat @ [0xAA])] @ Fin # []"
    by (simp add: example_sock_def)
  show "small example_heartbeat"
    by (simp add: example_heartbeat_def)
  show "strict_prefix [0xAA] (frame example_heartbeat)"
    by (rule magic_prefix)
qed (simp_all add: example_sock_def example_served accepts_replicate list_all_iff)

theorem receiver_session_refines_witness:
  "\<exists>w' as. serve_connection 4 (set_sock 4 example_sock (idle_world \<lparr>processed_sequences = {}\<rparr>)) = (Ok (), w')
    \<and> trace w' = as
    \<and> observed as = [Deliver 1 [104, 105], Reply (ack_packet 1), Reply (ack_packet 1), Reply (heartbeat_ack_packet 2)]
    \<and> wire_out 4 as = concat (map frame (replies (observed as)))
    \<and> processed_sequences (locals w') = {1}"
proof -
  have "session_script (socks (set_sock 4 example_sock (idle_world \<lparr>processed_sequences = {}\<rparr>)) 4)
      [example_data, example_data, example_heartbeat]"
    by (simp add: set_sock_def example_script)
  from receiver_session_refines [OF this] show ?thesis
    by (auto simp: set_sock_def example_data_def example_heartbeat_def)
qed

text \<open>
  C20: a damaged frame stops the receiver before anything of it is used. When the frames of
  \<open>ps\<close> are followed by a frame whose header is readable but which does not decode, the
  receiver serves \<open>ps\<close>, then fails with the decoder's message; the damaged frame is neither
  delivered nor answered nor remembered.
\<close>

theorem receiver_rejects_damaged:
  assumes "incoming fd (concat (map frame ps) @ h @ pl @ rest) w" "list_all served ps"
    and "accepting fd (16 * length ps) w"
    and "get_payload_length h = Inr n" "length pl = unat n" "decode_packet h pl = Inl e"
  shows "\<exists>w' as. serve_connection fd w = (Throw (RuntimeError (Msg (codec_message e))), w')
    \<and> trace w' = trace w @ as \<and> observed as = serve_spec (processed_sequences (locals w)) ps
    \<and> wire_out fd as = concat (map frame (replies (observed as)))
    \<and> processed_sequences (locals w') = seen_after (processed_sequences (locals w)) ps"
  using serve_connection_damaged [OF assms] by (fastforce simp: progress_def shows_obs_def)

definition damaged_sock :: sock where
  "damaged_sock = idle_sock\<lparr>
     rx := [Segment (frame example_heartbeat @ header_of example_data), Segment [104, 255]],
     tx := replicate 16 (TxAccept 1)\<rparr>"

theorem receiver_rejects_damaged_witness:
  "\<exists>w' as. serve_connection 4 (set_sock 4 damaged_sock (idle_world \<lparr>processed_sequences = {}\<rparr>)) =
      (Throw (RuntimeError (Msg ''CRC mismatch'')), w')
    \<and> trace w' = as \<and> observed as = [Reply (heartbeat_ack_packet 2)]
    \<and> wire_out 4 as = concat (map frame (replies (observed as)))
    \<and> processed_sequences (locals w') = {}"
proof -
  let ?w = "set_sock 4 damaged_sock (idle_world \<lparr>processed_sequences = {}\<rparr>)"
  have in_stream: "incoming 4 (concat (map frame [example_heartbeat]) @ header_of example_data @ [104, 255] @ []) ?w"
    unfolding incoming_def
    by (intro exI [of _ "rx damaged_sock"] exI [of _ "[]"]) (simp add: set_sock_def damaged_sock_def)
  have acc: "accepting 4 (16 * length [example_heartbeat]) ?w"
    by (simp add: accepting_def set_sock_def damaged_sock_def accepts_replicate list_all_iff)
  have "decode_packet (header_of example_data) ([104] @ [255] @ []) = Inl CrcMismatch"
    by (rule payload_burst_decode [where xs = "[105]"]) (simp_all add: example_data_def kMaxPayloadSize_def)
  then have bad: "decode_packet (header_of example_data) [104, 255] = Inl CrcMismatch"
    by simp
  have len: "get_payload_length (header_of example_data) = Inr 2"
    using get_payload_length_header [of example_data] by (simp add: example_data_def kMaxPayloadSize_def)
  show ?thesis
    using receiver_rejects_damaged [OF in_stream _ acc len _ bad] example_served(2)
    by (auto simp: set_sock_def example_heartbeat_def)
qed

text \<open>
  C3: the receiver process refines the specification across reconnections. Started on a free
  port, it serves any list of connections, each of them carrying requests and ending
  anywhere in a frame, and then waits for the next one; all it has shown is what
  \<open>serve_spec\<close> prescribes for the requests of all connections together, so the sequence
  numbers handed to the application are those that occurred in DATA requests, each once.
\<close>

theorem receiver_refines_across_reconnects:
  assumes "starts_listening (map visit_fd visits) w" "list_all good_visit visits"
  shows "\<exists>w' as. receiver_main w = (Blocked, w') \<and> trace w' = trace w @ as
    \<and> observed as = serve_spec {} (visit_packets visits) \<and> distinct (map fst (delivered as))
    \<and> fst ` set (delivered as) = sequence ` {p \<in> set (visit_packets visits). type_of p = Data}"
proof -
  from receiver_main_sessions [OF assms] obtain w' as where
    "receiver_main w = (Blocked, w')" "trace w' = trace w @ as"
    and obs: "observed as = serve_spec {} (visit_packets visits)"
    by (auto simp: saw_def)
  moreover have "distinct (map fst (delivered as))"
    "fst ` set (delivered as) = sequence ` {p \<in> set (visit_packets visits). type_of p = Data}"
    by (simp_all add: observed_deliveries [symmetric] obs serve_spec_at_most_once serve_spec_complete)
  ultimately show ?thesis
    by blast
qed

theorem receiver_refines_across_reconnects_witness:
  "\<exists>w' as. receiver_main ((idle_world \<lparr>processed_sequences = {9}\<rparr>)\<lparr>calls := [None, None, None],
        fds := [Inr (3, idle_sock), Inr (4, example_sock), Inr (4, example_sock)]\<rparr>) = (Blocked, w')
    \<and> trace w' = as
    \<and> observed as = [Deliver 1 [104, 105], Reply (ack_packet 1), Reply (ack_packet 1), Reply (heartbeat_ack_packet 2),
        Reply (ack_packet 1), Reply (ack_packet 1), Reply (heartbeat_ack_packet 2)]
    \<and> distinct (map fst (delivered as)) \<and> fst ` set (delivered as) = {1}"
proof -
  let ?visit = "(4, example_sock, [example_data, example_data, example_heartbeat])"
  let ?w = "(idle_world \<lparr>processed_sequences = {9}\<rparr>)\<lparr>calls := [None, None, None],
    fds := [Inr (3, idle_sock), Inr (4, example_sock), Inr (4, example_sock)]\<rparr>"
  have "starts_listening (map visit_fd [?visit, ?visit]) ?w"
    by (simp add: starts_listening_def visit_fd_def)
  moreover have "list_all good_visit [?visit, ?visit]"
    by (simp add: good_visit_def example_script)
  moreover have "sequence ` {p \<in> set (visit_packets [?visit, ?visit]). type_of p = Data} = {1}"
    by (auto simp: visit_packets_def example_data_def example_heartbeat_def
        intro!: image_eqI [of _ _ example_data])
  moreover have "serve_spec {} (visit_packets [?visit, ?visit]) =
      [Deliver 1 [104, 105], Reply (ack_packet 1), Reply (ack_packet 1), Reply (heartbeat_ack_packet 2),
       Reply (ack_packet 1), Reply (ack_packet 1), Reply (heartbeat_ack_packet 2)]"
    by (simp add: visit_packets_def example_data_def example_heartbeat_def)
  ultimately show ?thesis
    using receiver_refines_across_reconnects [of "[?visit, ?visit]" ?w] by (simp only:) simp
qed

end
