(* ===== verification/ReceiverRuns.thy ===== *)
theory ReceiverRuns
  imports TcpSessions
begin

text \<open>
  One connection of the TCP receiver whatever the peer sends and the kernel answers: what
  the receiver has handed over, shown and written, wherever the run stops.
\<close>

section \<open>Any behaviour of the peer\<close>

text \<open>
  Whatever arrives on the connection and whatever the kernel answers, the receiver has read
  the frames of some requests \<open>ps\<close> and has handed over what is new among them; what it has
  shown and written is a prefix of what the specification prescribes for them.
\<close>

definition serving :: "fd \<Rightarrow> packet list \<Rightarrow> receiver_world \<Rightarrow> receiver_world \<Rightarrow> bool" where
  "serving fd ps w w' \<longleftrightarrow> list_all served ps
     \<and> prefix (concat (map frame ps)) (stream_bytes (rx (socks w fd)))
     \<and> processed_sequences (locals w') = seen_after (processed_sequences (locals w)) ps
     \<and> (\<exists>as. trace w' = trace w @ as
          \<and> delivered as = deliveries (serve_spec (processed_sequences (locals w)) ps)
          \<and> prefix (observed as) (serve_spec (processed_sequences (locals w)) ps)
          \<and> prefix (wire_out fd as) (concat (map frame (replies (serve_spec (processed_sequences (locals w)) ps)))))"

definition served_all :: "fd \<Rightarrow> packet list \<Rightarrow> receiver_world \<Rightarrow> receiver_world \<Rightarrow> bool" where
  "served_all fd ps w w' \<longleftrightarrow> list_all served ps
     \<and> stream_bytes (rx (socks w fd)) = concat (map frame ps) @ stream_bytes (rx (socks w' fd))
     \<and> processed_sequences (locals w') = seen_after (processed_sequences (locals w)) ps
     \<and> (\<exists>as. trace w' = trace w @ as
          \<and> observed as = serve_spec (processed_sequences (locals w)) ps
          \<and> wire_out fd as = concat (map frame (replies (serve_spec (processed_sequences (locals w)) ps))))"

lemma serving_line:
  assumes "serving fd ps w w'" "observed_by (Line l) = []"
  shows "serving fd ps w (w'\<lparr>trace := trace w' @ [Line l]\<rparr>)"
proof -
  from assms(1) obtain as where as: "trace w' = trace w @ as"
    "delivered as = deliveries (serve_spec (processed_sequences (locals w)) ps)"
    "prefix (observed as) (serve_spec (processed_sequences (locals w)) ps)"
    "prefix (wire_out fd as) (concat (map frame (replies (serve_spec (processed_sequences (locals w)) ps))))"
    by (auto simp: serving_def)
  moreover have "delivered (as @ [Line l]) = delivered as" "observed (as @ [Line l]) = observed as"
    "wire_out fd (as @ [Line l]) = wire_out fd as"
    using observed_deliveries [of "[Line l]"] assms(2) by simp_all
  ultimately have "\<exists>as'. trace w' @ [Line l] = trace w @ as'
      \<and> delivered as' = deliveries (serve_spec (processed_sequences (locals w)) ps)
      \<and> prefix (observed as') (serve_spec (processed_sequences (locals w)) ps)
      \<and> prefix (wire_out fd as') (concat (map frame (replies (serve_spec (processed_sequences (locals w)) ps))))"
    by (intro exI [of _ "as @ [Line l]"]) simp
  with assms(1) show ?thesis
    by (simp add: serving_def)
qed

lemma serving_append:
  assumes "served_all fd ps u v" "serving fd qs v w"
  shows "serving fd (ps @ qs) u w"
proof -
  let ?os = "serve_spec (processed_sequences (locals u)) ps"
  from assms(1) obtain as where as: "trace v = trace u @ as" "observed as = ?os" "wire_out fd as = concat (map frame (replies ?os))"
    by (auto simp: served_all_def)
  have "delivered as = deliveries ?os"
    by (simp add: as(2) flip: observed_deliveries)
  with assms as show ?thesis
    unfolding serving_def served_all_def
    by (fastforce simp: serve_spec_append seen_after_append intro!: exI [of _ "as @ _"])
qed

text \<open>An answer may be cut short; everything before it has happened.\<close>

lemma delivered_only_sent: "only_sent fd as \<Longrightarrow> delivered as = []"
  using only_sent_observed [of fd as] observed_deliveries [of as] by simp

lemma receiver_reply:
  assumes run: "bind_io (receiver_send_packet fd r) (\<lambda>_. cout l) w = (x, w')"
    and r: "payload r = []" "observed_by (Line l) = [Reply r]"
  obtains as where "trace w' = trace w @ as" "delivered as = []" "locals w' = locals w" "rx (socks w' fd) = rx (socks w fd)"
    "case x of Ok _ \<Rightarrow> observed as = [Reply r] \<and> wire_out fd as = frame r
     | _ \<Rightarrow> observed as = [] \<and> prefix (wire_out fd as) (frame r)"
proof -
  have "small r"
    using r(1) by (simp add: small_def)
  obtain y w1 where send: "receiver_send_packet fd r w = (y, w1)"
    by fastforce
  with \<open>small r\<close> have "sends fd (frame r) w y w1"
    using send_loop_sends [of 0 "frame r"]
    by (simp add: receiver_send_packet_def receiver_send_all_def encode_small bind_ret)
  then obtain es as where w1: "w1 = set_tx fd es (w\<lparr>trace := trace w @ as\<rparr>)" "only_sent fd as"
    "prefix (wire_out fd as) (frame r)" "(\<exists>u. y = Ok u) \<longleftrightarrow> wire_out fd as = frame r"
    by (auto simp: sends_def)
  note none = only_sent_observed [OF w1(2)] delivered_only_sent [OF w1(2)]
  show thesis
  proof (cases "\<exists>u. y = Ok u")
    case True
    with run send have "x = Ok ()" "w' = w1\<lparr>trace := trace w1 @ [Line l]\<rparr>"
      by (auto simp: bind_io_Ok apply_io)
    moreover have "delivered [Line l] = []"
      using observed_deliveries [of "[Line l]"] r(2) by simp
    ultimately show thesis
      using True w1 none r(2) by (intro that [of "as @ [Line l]"]) simp_all
  next
    case False
    with run send have "w' = w1" "\<not> (\<exists>u. x = Ok u)"
      by (cases y; auto simp: bind_io_def)+
    with w1 none show thesis
      by (intro that [of as]) (auto split: result.splits)
  qed
qed

text \<open>One request.\<close>

lemma handle_request:
  assumes run: "handle_packet fd p w = (x, w')" and p: "is_request p"
  obtains as where "trace w' = trace w @ as" "rx (socks w' fd) = rx (socks w fd)"
    "delivered as = deliveries (serve_spec (processed_sequences (locals w)) [p])"
    "processed_sequences (locals w') = seen_after (processed_sequences (locals w)) [p]"
    "case x of Ok _ \<Rightarrow> observed as = serve_spec (processed_sequences (locals w)) [p]
         \<and> wire_out fd as = concat (map frame (replies (serve_spec (processed_sequences (locals w)) [p])))
     | _ \<Rightarrow> prefix (observed as) (serve_spec (processed_sequences (locals w)) [p])
         \<and> prefix (wire_out fd as) (concat (map frame (replies (serve_spec (processed_sequences (locals w)) [p]))))"
proof (cases "type_of p = Data")
  case True
  let ?s = "sequence p"
  let ?seen = "processed_sequences (locals w)"
  define new where "new = (if ?s \<in> ?seen then [Line (DuplicateData ?s)] else [Line (ReceivedData ?s (payload p))])"
  define w1 where "w1 = (if ?s \<in> ?seen then w\<lparr>trace := trace w @ [Line (DuplicateData ?s)]\<rparr>
    else w\<lparr>trace := trace w @ [Line (ReceivedData ?s (payload p))],
           locals := processed_sequences_update (insert ?s) (locals w)\<rparr>)"
  have w1: "trace w1 = trace w @ new" "rx (socks w1 fd) = rx (socks w fd)"
      "processed_sequences (locals w1) = insert ?s ?seen"
    by (auto simp: w1_def new_def)
  have "bind_io (receiver_send_packet fd (ack_packet ?s)) (\<lambda>_. cout (SentAck ?s)) w1 = (x, w')"
    using run True by (auto simp: handle_packet_def io_simps Let_def ack_packet_def w1_def split: if_splits)
  from receiver_reply [OF this answer_payload(1) observed_by.simps(2)] obtain as where
    as: "trace w' = trace w1 @ as" "delivered as = []" "locals w' = locals w1" "rx (socks w' fd) = rx (socks w1 fd)"
    "case x of Ok _ \<Rightarrow> observed as = [Reply (ack_packet ?s)] \<and> wire_out fd as = frame (ack_packet ?s)
     | _ \<Rightarrow> observed as = [] \<and> prefix (wire_out fd as) (frame (ack_packet ?s))"
    by blast
  have new: "wire_out fd new = []" "observed new = (if ?s \<in> ?seen then [] else [Deliver ?s (payload p)])"
    "delivered new = (if ?s \<in> ?seen then [] else [(?s, payload p)])"
    by (simp_all add: new_def)
  show thesis
  proof (rule that [of "new @ as"])
    show "case x of Ok _ \<Rightarrow> observed (new @ as) = serve_spec ?seen [p]
         \<and> wire_out fd (new @ as) = concat (map frame (replies (serve_spec ?seen [p])))
     | _ \<Rightarrow> prefix (observed (new @ as)) (serve_spec ?seen [p])
         \<and> prefix (wire_out fd (new @ as)) (concat (map frame (replies (serve_spec ?seen [p]))))"
      using as(5) new True by (cases x) simp_all
  qed (use as new w1 True in simp_all)
next
  case False
  with p have hb: "type_of p = Heartbeat"
    by (simp add: is_request_def)
  let ?s = "sequence p"
  let ?new = "[Line (ReceivedHeartbeat ?s)]"
  have "bind_io (receiver_send_packet fd (heartbeat_ack_packet ?s)) (\<lambda>_. cout (SentHeartbeatAck ?s))
      (w\<lparr>trace := trace w @ ?new\<rparr>) = (x, w')"
    using run hb by (simp add: handle_packet_def io_simps Let_def heartbeat_ack_packet_def)
  from receiver_reply [OF this answer_payload(2) observed_by.simps(3)] obtain as where
    as: "trace w' = trace w @ ?new @ as" "delivered as = []" "locals w' = locals w" "rx (socks w' fd) = rx (socks w fd)"
    "case x of Ok _ \<Rightarrow> observed as = [Reply (heartbeat_ack_packet ?s)] \<and> wire_out fd as = frame (heartbeat_ack_packet ?s)
     | _ \<Rightarrow> observed as = [] \<and> prefix (wire_out fd as) (frame (heartbeat_ack_packet ?s))"
    by auto
  show thesis
  proof (rule that [of "?new @ as"])
    show "case x of Ok _ \<Rightarrow> observed (?new @ as) = serve_spec (processed_sequences (locals w)) [p]
         \<and> wire_out fd (?new @ as) = concat (map frame (replies (serve_spec (processed_sequences (locals w)) [p])))
     | _ \<Rightarrow> prefix (observed (?new @ as)) (serve_spec (processed_sequences (locals w)) [p])
         \<and> prefix (wire_out fd (?new @ as)) (concat (map frame (replies (serve_spec (processed_sequences (locals w)) [p]))))"
      using as(5) hb by (cases x) simp_all
  qed (use as hb in simp_all)
qed

text \<open>One pass of the inner loop.\<close>

lemma serving_none:
  assumes "trace w' = trace w" "locals w' = locals w"
  shows "serving fd [] w w'"
  using assms by (auto simp: serving_def)

lemma serve_packet_serving:
  assumes run: "serve_packet fd w = (x, w')"
  shows "\<exists>ps. case x of Ok _ \<Rightarrow> served_all fd ps w w' | _ \<Rightarrow> serving fd ps w w'"
proof -
  obtain y w1 where recv: "receiver_receive_packet fd w = (y, w1)"
    by fastforce
  from framed_receive_takes [OF recv [unfolded receiver_receive_packet_eq]] obtain es got where
    w1: "w1 = set_rx fd es w" "stream_bytes (rx (socks w fd)) = got @ stream_bytes es"
    and y: "case y of Ok p \<Rightarrow> small p \<and> got = frame p | _ \<Rightarrow> True"
    by blast
  have none: "serving fd [] w w1"
    using w1(1) by (intro serving_none) simp_all
  show ?thesis
  proof (cases "\<exists>p. y = Ok p \<and> is_request p")
    case False
    have "w' = w1 \<and> (\<forall>u. x \<noteq> Ok u)"
    proof (cases y)
      case (Ok p)
      with False have "type_of p \<noteq> Data" "type_of p \<noteq> Heartbeat"
        by (auto simp: is_request_def)
      with run recv Ok show ?thesis
        by (auto simp: serve_packet_def bind_io_Ok handle_packet_def throw_def)
    qed (use run recv in \<open>auto simp: serve_packet_def bind_io_def\<close>)
    with none show ?thesis
      by (auto split: result.splits)
  next
    case True
    then obtain p where p: "y = Ok p" "is_request p" "small p" "got = frame p"
      using y by auto
    have "handle_packet fd p w1 = (x, w')"
      using run recv p(1) by (simp add: serve_packet_def bind_io_Ok)
    then obtain as where as: "trace w' = trace w1 @ as" "rx (socks w' fd) = rx (socks w1 fd)"
      "delivered as = deliveries (serve_spec (processed_sequences (locals w1)) [p])"
      "processed_sequences (locals w') = seen_after (processed_sequences (locals w1)) [p]"
      "case x of Ok _ \<Rightarrow> observed as = serve_spec (processed_sequences (locals w1)) [p]
         \<and> wire_out fd as = concat (map frame (replies (serve_spec (processed_sequences (locals w1)) [p])))
       | _ \<Rightarrow> prefix (observed as) (serve_spec (processed_sequences (locals w1)) [p])
         \<and> prefix (wire_out fd as) (concat (map frame (replies (serve_spec (processed_sequences (locals w1)) [p]))))"
      by (rule handle_request [OF _ p(2)])
    have same: "trace w1 = trace w" "locals w1 = locals w" "rx (socks w1 fd) = es"
      using w1(1) by simp_all
    have served: "list_all served [p]"
      using p by (simp add: served_def)
    show ?thesis
    proof (cases "\<exists>u. x = Ok u")
      case True
      then have "served_all fd [p] w w'"
        using as same served w1(2) p(4) unfolding served_all_def by auto
      with True show ?thesis
        by auto
    next
      case False
      then have "prefix (observed as) (serve_spec (processed_sequences (locals w)) [p])"
        "prefix (wire_out fd as) (concat (map frame (replies (serve_spec (processed_sequences (locals w)) [p]))))"
        using as(5) unfolding same by (cases x; simp)+
      then have "serving fd [p] w w'"
        using as(1,3,4) served w1(2) p(4) unfolding serving_def same by auto
      with False show ?thesis
        by (auto split: result.splits)
    qed
  qed
qed

lemma serve_connection_serving: "serve_connection fd w = (x, w') \<Longrightarrow> \<exists>ps. serving fd ps w w'"
proof (induction fd w arbitrary: x w' rule: serve_connection.induct)
  case (1 fd w)
  obtain y w1 where step: "serve_packet fd w = (y, w1)"
    by fastforce
  from serve_packet_serving [OF step] obtain ps where
    ps: "case y of Ok _ \<Rightarrow> served_all fd ps w w1 | _ \<Rightarrow> serving fd ps w w1"
    by blast
  note run = "1.prems" [unfolded serve_connection.simps [of fd w] step]
  consider (go_on) "y = Ok ()" | (lost) m where "y = Throw (PeerDisconnected m)" | (stop) "w' = w1" "\<forall>u. y \<noteq> Ok u"
    using run by (cases y) (auto split: exn.splits)
  then show ?case
  proof cases
    case go_on
    with run have "serve_connection fd w1 = (x, w')"
      by simp
    from "1.IH" [OF step [symmetric] go_on this] obtain qs where "serving fd qs w1 w'"
      by blast
    with serving_append [of fd ps w w1 qs w'] ps go_on show ?thesis
      by auto
  next
    case lost
    with run have "w' = w1\<lparr>trace := trace w1 @ [Line SenderDisconnected]\<rparr>"
      by (simp add: apply_io)
    with lost ps serving_line [of fd ps w w1 SenderDisconnected] show ?thesis
      by auto
  next
    case stop
    with ps show ?thesis
      by (auto split: result.splits)
  qed
qed

section \<open>Property\<close>

text \<open>
  C5: one connection refines the specification whatever happens on it. At any point of a
  run, for any bytes that arrive and any answers of the kernel, the receiver has read the
  frames of some list of requests from the stream; exactly the new DATA among them has been
  handed to the application; what it has shown is a prefix of what the specification
  prescribes, and the bytes it has written are a prefix of the frames of the replies.
\<close>

theorem receiver_connection_faithful:
  "\<exists>ps as. trace (snd (serve_connection fd w)) = trace w @ as \<and> list_all served ps
    \<and> prefix (concat (map frame ps)) (stream_bytes (rx (socks w fd)))
    \<and> delivered as = deliveries (serve_spec (processed_sequences (locals w)) ps)
    \<and> prefix (observed as) (serve_spec (processed_sequences (locals w)) ps)
    \<and> prefix (wire_out fd as) (concat (map frame (replies (serve_spec (processed_sequences (locals w)) ps))))
    \<and> processed_sequences (locals (snd (serve_connection fd w))) = seen_after (processed_sequences (locals w)) ps"
proof -
  obtain x w' where run: "serve_connection fd w = (x, w')"
    by fastforce
  from serve_connection_serving [OF run] show ?thesis
    by (fastforce simp: serving_def run)
qed

end
