(* ===== verification/ReceiverEvents.thy ===== *)
theory ReceiverEvents
  imports ReceiverRuns
begin

text \<open>
  The order of everything the TCP receiver does, its bytes on the wire included: a machine
  that reads the trace and knows the numbers handed over and the answer that is due.
\<close>

section \<open>The machine\<close>

text \<open>
  The state holds the sequence numbers handed over so far and, between a request and the
  line that reports its answer, that answer with the bytes of its frame still to be sent.
\<close>

type_synonym event_state = "u32 set \<times> (packet \<times> bytes) option"

definition event_step :: "event_state \<Rightarrow> receiver_line action \<Rightarrow> event_state option" where
  "event_step st a = (case st of (seen, due) \<Rightarrow> (case a of
     Line (ReceivedData s pl) \<Rightarrow>
       if due = None \<and> s \<notin> seen then Some (insert s seen, Some (ack_packet s, frame (ack_packet s))) else None
   | Line (DuplicateData s) \<Rightarrow>
       if due = None \<and> s \<in> seen then Some (seen, Some (ack_packet s, frame (ack_packet s))) else None
   | Line (ReceivedHeartbeat s) \<Rightarrow>
       if due = None then Some (seen, Some (heartbeat_ack_packet s, frame (heartbeat_ack_packet s))) else None
   | Sent fd bs \<Rightarrow> (case due of
         Some (r, rest) \<Rightarrow> if prefix bs rest then Some (seen, Some (r, drop (length bs) rest)) else None
       | None \<Rightarrow> None)
   | Line (SentAck s) \<Rightarrow> if due = Some (ack_packet s, []) then Some (seen, None) else None
   | Line (SentHeartbeatAck s) \<Rightarrow> if due = Some (heartbeat_ack_packet s, []) then Some (seen, None) else None
   | Line (ReceiverError m) \<Rightarrow> Some st
   | Line l \<Rightarrow> if due = None then Some st else None
   | Closed fd \<Rightarrow> if due = None then Some st else None
   | _ \<Rightarrow> None))"

lemma event_step_simps [simp]:
  "event_step (seen, None) (Line (ReceivedData s pl)) =
     (if s \<notin> seen then Some (insert s seen, Some (ack_packet s, frame (ack_packet s))) else None)"
  "event_step (seen, None) (Line (DuplicateData s)) =
     (if s \<in> seen then Some (seen, Some (ack_packet s, frame (ack_packet s))) else None)"
  "event_step (seen, None) (Line (ReceivedHeartbeat s)) =
     Some (seen, Some (heartbeat_ack_packet s, frame (heartbeat_ack_packet s)))"
  "event_step (seen, Some (r, rest)) (Sent fd bs) =
     (if prefix bs rest then Some (seen, Some (r, drop (length bs) rest)) else None)"
  "event_step (seen, Some (ack_packet s, [])) (Line (SentAck s)) = Some (seen, None)"
  "event_step (seen, Some (heartbeat_ack_packet s, [])) (Line (SentHeartbeatAck s)) = Some (seen, None)"
  "event_step st (Line (ReceiverError m)) = Some st"
  by (simp_all add: event_step_def split: prod.splits)

fun events :: "event_state \<Rightarrow> receiver_line action list \<Rightarrow> event_state option" where
  "events st [] = Some st"
| "events st (a # as) = Option.bind (event_step st a) (\<lambda>st'. events st' as)"

lemma events_append: "events st (as @ bs) = Option.bind (events st as) (\<lambda>st'. events st' bs)"
  by (induction as arbitrary: st) (simp_all split: Option.bind_split)

lemma events_snoc: "events st as = Some st' \<Longrightarrow> events st (as @ [a]) = event_step st' a"
  by (simp add: events_append)

text \<open>Sending a part of the answer that is due.\<close>

lemma events_sent:
  "only_sent fd as \<Longrightarrow> prefix (wire_out fd as) rest \<Longrightarrow>
     events (seen, Some (r, rest)) as = Some (seen, Some (r, drop (length (wire_out fd as)) rest))"
proof (induction as arbitrary: rest)
  case (Cons a as)
  then obtain bs where a: "a = Sent fd bs" "only_sent fd as"
    by (auto simp: only_sent_def)
  with Cons.prems(2) have "prefix bs rest" "prefix (wire_out fd as) (drop (length bs) rest)"
    by (auto simp: prefix_def)
  with Cons.IH a show ?case
    by (simp add: add.commute)
qed simp

section \<open>What the functions of the receiver do to the machine\<close>

text \<open>
  After a call that returns, or loses the peer while it reads, no answer is due and the
  machine knows exactly the processed numbers.
\<close>

definition settled :: "'a result \<Rightarrow> bool" where
  "settled x \<longleftrightarrow> (case x of Ok y \<Rightarrow> True | Throw e \<Rightarrow> (\<exists>m. e = PeerDisconnected m) | Blocked \<Rightarrow> False)"

lemma settled_simps [simp]:
  "settled (Ok y)" "settled (Throw e) \<longleftrightarrow> (\<exists>m. e = PeerDisconnected m)" "\<not> settled Blocked"
  by (simp_all add: settled_def)

definition ordered :: "receiver_world \<Rightarrow> bool \<Rightarrow> receiver_world \<Rightarrow> bool" where
  "ordered w done w' \<longleftrightarrow> (\<exists>as st. trace w' = trace w @ as
     \<and> events (processed_sequences (locals w), None) as = Some st
     \<and> (done \<longrightarrow> st = (processed_sequences (locals w'), None)))"

definition orderly :: "'a receiver_io \<Rightarrow> bool" where
  "orderly m \<longleftrightarrow> (\<forall>w. ordered w (settled (fst (m w))) (snd (m w)))"

lemma orderlyD: "orderly m \<Longrightarrow> m w = (x, w') \<Longrightarrow> ordered w (settled x) w'"
  unfolding orderly_def by (metis fst_conv snd_conv)

lemma ordered_trans: "ordered u True v \<Longrightarrow> ordered v done w \<Longrightarrow> ordered u done w"
  unfolding ordered_def by (fastforce simp: events_append)

lemma ordered_any: "ordered w done w' \<Longrightarrow> (done' \<longrightarrow> done) \<Longrightarrow> ordered w done' w'"
  unfolding ordered_def by blast

lemma orderly_bind:
  assumes m: "orderly m" and f: "\<And>x. orderly (f x)"
  shows "orderly (bind_io m f)"
  unfolding orderly_def
proof
  fix w
  obtain x v where run: "m w = (x, v)"
    by fastforce
  note first = orderlyD [OF m run]
  show "ordered w (settled (fst (bind_io m f w))) (snd (bind_io m f w))"
  proof (cases x)
    case (Ok y)
    with first f [of y] ordered_trans [of w v] run show ?thesis
      by (simp add: bind_io_Ok orderly_def)
  qed (use first run in \<open>simp_all add: bind_io_Throw bind_io_Blocked\<close>)
qed

text \<open>Events that have no place between a request and its answer, and change nothing elsewhere.\<close>

definition idle_event :: "receiver_line action \<Rightarrow> bool" where
  "idle_event a \<longleftrightarrow> (\<forall>seen. event_step (seen, None) a = Some (seen, None))"

lemma idle_event_simps [simp]:
  "idle_event (Line SenderConnected)" "idle_event (Line SenderDisconnected)" "idle_event (Line WaitingForConnection)"
  "idle_event (Line (ListeningOnPort n))" "idle_event (Closed fd)"
  by (simp_all add: idle_event_def event_step_def)

lemma events_idle: "list_all idle_event as \<Longrightarrow> events (seen, None) as = Some (seen, None)"
  by (induction as) (simp_all add: idle_event_def)

lemma ordered_idle: "appends idle_event w w' \<Longrightarrow> ordered w done w'"
  unfolding ordered_def appends_def by (auto dest: events_idle)

lemma orderly_idle: "within (appends idle_event) m \<Longrightarrow> orderly m"
  unfolding orderly_def within_def by (auto intro: ordered_idle)

lemma answer_events:
  assumes run: "bind_io (receiver_send_packet fd r) (\<lambda>_. cout l) w = (x, w')" and small: "small r"
    and line: "event_step (seen, Some (r, [])) (Line l) = Some (seen, None)"
  obtains as st where "trace w' = trace w @ as" "locals w' = locals w"
    "events (seen, Some (r, frame r)) as = Some st" "settled x \<longrightarrow> st = (seen, None)"
proof -
  obtain y w1 where send: "receiver_send_packet fd r w = (y, w1)"
    by fastforce
  with small have "sends fd (frame r) w y w1"
    using send_loop_sends [of 0 "frame r"]
    by (simp add: receiver_send_packet_def receiver_send_all_def encode_small bind_ret)
  then obtain es as where w1: "w1 = set_tx fd es (w\<lparr>trace := trace w @ as\<rparr>)" "only_sent fd as"
    "prefix (wire_out fd as) (frame r)" "(\<exists>u. y = Ok u) \<longleftrightarrow> wire_out fd as = frame r"
    by (auto simp: sends_def)
  note sent = events_sent [OF w1(2,3), of seen r]
  show thesis
  proof (cases "\<exists>u. y = Ok u")
    case True
    with run send have "w' = w1\<lparr>trace := trace w1 @ [Line l]\<rparr>"
      by (auto simp: bind_io_Ok apply_io)
    moreover have "events (seen, Some (r, frame r)) (as @ [Line l]) = Some (seen, None)"
      using events_snoc [OF sent] True w1(4) line by simp
    ultimately show thesis
      using w1(1) by (intro that [of "as @ [Line l]" "(seen, None)"]) simp_all
  next
    case False
    have "raises (\<lambda>e. \<exists>m. e = RuntimeError m) (receiver_send_packet fd r)"
      unfolding receiver_send_packet_def receiver_send_all_def
      by (intro raises_bind raises_lift_codec raises_send_loop) simp_all
    with False run send have "w' = w1" "\<not> settled x"
      by (cases y; auto simp: bind_io_def dest: raisesD)+
    with w1(1) show thesis
      by (intro that [OF _ _ sent]) simp_all
  qed
qed

lemma orderly_handle_packet: "orderly (handle_packet fd p)"
  unfolding orderly_def
proof
  fix w :: receiver_world
  let ?s = "sequence p"
  let ?seen = "processed_sequences (locals w)"
  obtain x w' where run: "handle_packet fd p w = (x, w')"
    by fastforce
  have small: "small (ack_packet ?s)" "small (heartbeat_ack_packet ?s)"
    by (simp_all add: ack_packet_def heartbeat_ack_packet_def)
  consider (data) "type_of p = Data" | (beat) "type_of p = Heartbeat" | (other) "\<not> is_request p"
    by (auto simp: is_request_def)
  then have "ordered w (settled x) w'"
  proof cases
    case data
    define a where "a = (if ?s \<in> ?seen then Line (DuplicateData ?s) else Line (ReceivedData ?s (payload p)))"
    define w1 where "w1 = w\<lparr>trace := trace w @ [a],
      locals := (if ?s \<in> ?seen then locals w else processed_sequences_update (insert ?s) (locals w))\<rparr>"
    have w1: "trace w1 = trace w @ [a]" "processed_sequences (locals w1) = insert ?s ?seen"
      by (auto simp: w1_def)
    have step: "event_step (?seen, None) a = Some (insert ?s ?seen, Some (ack_packet ?s, frame (ack_packet ?s)))"
      by (auto simp: a_def insert_absorb)
    have "bind_io (receiver_send_packet fd (ack_packet ?s)) (\<lambda>_. cout (SentAck ?s)) w1 = (x, w')"
      using run data by (auto simp: handle_packet_def io_simps Let_def ack_packet_def w1_def a_def split: if_splits)
    then obtain as st where "trace w' = trace w1 @ as" "locals w' = locals w1"
      "events (insert ?s ?seen, Some (ack_packet ?s, frame (ack_packet ?s))) as = Some st"
      "settled x \<longrightarrow> st = (insert ?s ?seen, None)"
      by (rule answer_events [OF _ small(1) event_step_simps(5)])
    with w1 step show ?thesis
      unfolding ordered_def by (intro exI [of _ "a # as"] exI [of _ st]) simp
  next
    case beat
    let ?w1 = "w\<lparr>trace := trace w @ [Line (ReceivedHeartbeat ?s)]\<rparr>"
    have "bind_io (receiver_send_packet fd (heartbeat_ack_packet ?s)) (\<lambda>_. cout (SentHeartbeatAck ?s)) ?w1 = (x, w')"
      using run beat by (simp add: handle_packet_def io_simps Let_def heartbeat_ack_packet_def)
    then obtain as st where "trace w' = trace ?w1 @ as" "locals w' = locals ?w1"
      "events (?seen, Some (heartbeat_ack_packet ?s, frame (heartbeat_ack_packet ?s))) as = Some st"
      "settled x \<longrightarrow> st = (?seen, None)"
      by (rule answer_events [OF _ small(2) event_step_simps(6)])
    then show ?thesis
      unfolding ordered_def by (intro exI [of _ "Line (ReceivedHeartbeat ?s) # as"] exI [of _ st]) simp
  next
    case other
    with run have "w' = w"
      by (simp add: handle_packet_def is_request_def throw_def)
    then show ?thesis
      by (auto simp: ordered_def)
  qed
  with run show "ordered w (settled (fst (handle_packet fd p w))) (snd (handle_packet fd p w))"
    by simp
qed

lemma orderly_serve_packet: "orderly (serve_packet fd)"
  unfolding serve_packet_def
  by (intro orderly_bind orderly_handle_packet orderly_idle)
    (simp add: receiver_receive_packet_eq appends_framed_receive appends_recv_loop)

lemma orderly_calls:
  "orderly (cout SenderConnected)" "orderly (cout SenderDisconnected)" "orderly (cout WaitingForConnection)"
  "orderly (sys_close fd)" "orderly sys_open" "orderly (ret y)"
  by (intro orderly_idle appends_cout appends_close appends_open appends.within_ret; simp)+

lemma orderly_serve_connection: "orderly (serve_connection fd)"
proof -
  have "ordered w (settled (fst (serve_connection fd w))) (snd (serve_connection fd w))" for w
  proof (induction fd w rule: serve_connection.induct)
    case (1 fd w)
    obtain y w1 where step: "serve_packet fd w = (y, w1)"
      by fastforce
    note first = orderlyD [OF orderly_serve_packet step]
    consider (go_on) "y = Ok ()" | (lost) m where "y = Throw (PeerDisconnected m)"
      | (stop) "serve_connection fd w = (y, w1)"
    proof (cases y)
      case (Throw e)
      with step stop lost show thesis
        by (cases e) (auto simp: serve_connection.simps [of fd w])
    qed (use step go_on stop in \<open>auto simp: serve_connection.simps [of fd w]\<close>)
    then show ?case
    proof cases
      case go_on
      with step have "serve_connection fd w = serve_connection fd w1"
        by (simp add: serve_connection.simps [of fd w])
      with "1.IH" [OF step [symmetric] go_on] first go_on ordered_trans [of w w1] show ?thesis
        by simp
    next
      case lost
      with step have "serve_connection fd w = cout SenderDisconnected w1"
        by (simp add: serve_connection.simps [of fd w])
      with orderly_calls(2) first lost ordered_trans [of w w1] show ?thesis
        by (simp add: orderly_def)
    qed (use first in simp)
  qed
  then show ?thesis
    by (simp add: orderly_def)
qed

lemma orderly_serve_client: "orderly (serve_client fd)"
  unfolding serve_client_def by (intro orderly_bind orderly_calls orderly_serve_connection)

lemma orderly_accept_loop: "orderly accept_loop"
proof -
  have "ordered w (settled (fst (accept_loop w))) (snd (accept_loop w))" for w
  proof (induction w rule: accept_loop.induct)
    case (1 w)
    obtain y w1 where step: "sys_open w = (y, w1)"
      by fastforce
    note first = orderly_idle [OF appends_open, THEN orderlyD, OF step]
    consider (client) fd where "y = Ok (Inr fd)" | (again) "y = Ok (Inl EINTR)"
      | (stop) "snd (accept_loop w) = w1"
    proof (cases y)
      case (Ok z)
      with step client again stop show thesis
        by (cases z; cases "z = Inl EINTR") (auto simp: accept_loop.simps [of w])
    qed (use step stop in \<open>auto simp: accept_loop.simps [of w]\<close>)
    then show ?case
    proof cases
      case client
      obtain z w2 where serve: "serve_client fd w1 = (z, w2)"
        by fastforce
      have two: "ordered w (settled z) w2"
        using ordered_trans [of w w1] first client orderlyD [OF orderly_serve_client serve] by simp
      show ?thesis
      proof (cases z)
        case (Ok u)
        with step client serve have "accept_loop w = accept_loop w2"
          by (simp add: accept_loop.simps [of w])
        with "1.IH"(2) [OF step [symmetric] client refl serve [symmetric] Ok] two Ok ordered_trans [of w w2] show ?thesis
          by simp
      qed (use step client serve two in \<open>simp_all add: accept_loop.simps [of w]\<close>)
    next
      case again
      with step have "accept_loop w = accept_loop w1"
        by (simp add: accept_loop.simps [of w])
      with "1.IH"(1) [OF step [symmetric] again refl refl] first again ordered_trans [of w w1] show ?thesis
        by simp
    next
      case stop
      have "ordered w done w1" for "done"
        using step appends_open [of idle_event] by (auto intro!: ordered_idle dest: withinD)
      with stop show ?thesis
        by simp
    qed
  qed
  then show ?thesis
    by (simp add: orderly_def)
qed

text \<open>The program: an error is reported in any state of the machine.\<close>

lemma events_receiver_main:
  "\<exists>as st. trace (snd (receiver_main w)) = trace w @ as \<and> events ({}, None) as = Some st"
proof -
  let ?loop = "\<lambda>fd. bind_io accept_loop (\<lambda>_. bind_io (sys_close fd) (\<lambda>_. ret (0::int)))"
  let ?body = "bind_io create_server_socket (\<lambda>server_fd.
        bind_io (cout (ListeningOnPort receiver_kPort)) (\<lambda>_.
        bind_io (upd_local (processed_sequences_update (\<lambda>_. {}))) (\<lambda>_. ?loop server_fd)))"
  define ok where "ok v \<longleftrightarrow> (\<exists>as st. trace v = trace w @ as \<and> events ({}, None) as = Some st)" for v :: receiver_world
  have report: "ok v \<Longrightarrow> ok (v\<lparr>trace := trace v @ [Line (ReceiverError m)]\<rparr>)" for v m
    by (fastforce simp: ok_def events_append)
  obtain x w1 where create: "create_server_socket w = (x, w1)"
    by fastforce
  have "within (appends idle_event) create_server_socket"
    unfolding create_server_socket_def by (intro appends.within_rules appends_calls appends_close) simp_all
  from withinD [OF this create] obtain as where as: "trace w1 = trace w @ as" "list_all idle_event as"
    by (auto simp: appends_def)
  have "ok (snd (?body w))"
  proof (cases x)
    case (Ok fd)
    let ?l = "Line (ListeningOnPort receiver_kPort)"
    let ?w2 = "w1\<lparr>trace := trace w1 @ [?l], locals := processed_sequences_update (\<lambda>_. {}) (locals w1)\<rparr>"
    have "orderly (?loop fd)"
      by (intro orderly_bind orderly_accept_loop orderly_calls)
    then have "ordered ?w2 (settled (fst (?loop fd ?w2))) (snd (?loop fd ?w2))"
      unfolding orderly_def by blast
    then obtain bs st where "trace (snd (?loop fd ?w2)) = trace w @ (as @ [?l]) @ bs" "events ({}, None) bs = Some st"
      by (auto simp: ordered_def as(1))
    moreover have "events ({}, None) ((as @ [?l]) @ bs) = events ({}, None) bs"
      using as(2) events_idle [of "as @ [?l]" "{}"] by (simp only: events_append [of _ "as @ [?l]"]) simp
    ultimately have "ok (snd (?loop fd ?w2))"
      unfolding ok_def by (intro exI [of _ "(as @ [?l]) @ bs"]) simp
    with create Ok show ?thesis
      by (simp add: bind_io_Ok io_simps)
  qed (use create as events_idle [OF as(2)] in \<open>auto simp: bind_io_def ok_def\<close>)
  then have "ok (snd (receiver_main w))"
    unfolding receiver_main_def catch_io_def
    using report by (auto simp: io_simps split: prod.splits result.splits option.splits)
  then show ?thesis
    by (simp add: ok_def)
qed

section \<open>Property\<close>

text \<open>
  C19: the order of the receiver's events, its bytes included. Every run is a run of the
  machine above. A DATA line is for a number not handed over before, a duplicate notice for
  one handed over before. Bytes are sent only after a request has been taken, and they are,
  in order, the bytes of the frame of its answer: the ACK of a number that has been handed
  over, or the HEARTBEAT_ACK of that heartbeat. The line that reports an answer comes when
  its whole frame has been sent, and no other request is taken before that.
\<close>

theorem receiver_event_order:
  "\<exists>as st. trace (snd (receiver_main w)) = trace w @ as \<and> monitor {} as \<and> events ({}, None) as = Some st"
  using monitor_receiver_main [of w] events_receiver_main [of w] by auto

end
