(* ===== verification/TcpSender.thy ===== *)
theory TcpSender
  imports Framing
begin

text \<open>
  The sender of \<open>src/tcp/sender.cpp\<close>: the reader with an absolute deadline, the wait for a
  response, the connection attempts, and the program that sends one DATA packet with
  retries and three heartbeats with reconnection. Times are nanoseconds of the steady
  clock.
\<close>

section \<open>Constants, output and variables\<close>

definition kServerPort :: nat where "kServerPort = 5000"
definition kAckTimeoutMs :: nat where "kAckTimeoutMs = 1000"
definition kMaxRetries :: nat where "kMaxRetries = 3"
definition kHeartbeatIntervalSec :: nat where "kHeartbeatIntervalSec = 2"
definition kHeartbeatTimeoutMs :: nat where "kHeartbeatTimeoutMs = 1000"
definition kHeartbeatCount :: nat where "kHeartbeatCount = 3"
definition kReconnectDelaySec :: nat where "kReconnectDelaySec = 2"
definition kMaxReconnectAttempts :: nat where "kMaxReconnectAttempts = 3"

datatype sender_line =
  ConnectedToReceiver nat
| ConnectFailed nat what
| SentData u32 nat bytes
| ReceivedAck u32
| AckTimeout u32
| SentHeartbeat u32 nat
| HeartbeatTimeout u32
| ConnectionLostDuringHeartbeat u32 what
| Reconnecting
| ResentHeartbeat u32
| ReceivedHeartbeatAck u32
| IgnoredStaleResponse u32
| SenderError what

text \<open>
  \<open>completed\<close> is the ordered set of responses already accepted; \<open>frame_bytes\<close> counts the
  bytes of the frame being read, which \<open>recv_exact\<close> updates through a reference.
\<close>

record sender_state =
  completed :: "(message_type \<times> u32) set"
  frame_bytes :: nat

type_synonym sender_world = "(sender_line, sender_state) world"
type_synonym 'a sender_io = "(sender_line, sender_state, 'a) io"

section \<open>Sending and receiving\<close>

definition send_error :: "errno \<Rightarrow> exn" where
  "send_error e = (if e = EPIPE \<or> e = ECONNRESET then ConnectionLost (Sys '''' e)
                   else RuntimeError (Sys ''send failed: '' e))"

definition sender_send_all :: "fd \<Rightarrow> bytes \<Rightarrow> unit sender_io" where
  "sender_send_all fd data =
     send_loop send_error (ConnectionLost (Msg ''connection closed while sending'')) fd data 0"

text \<open>
  The loop of \<open>recv_exact\<close>, one pass at a time: \<open>recv_ready\<close> polls and receives,
  \<open>recv_pass\<close> checks the deadline first. \<open>None\<close> is \<open>continue\<close>, \<open>Some bs\<close> are the bytes the
  pass has added to the buffer.
\<close>

definition recv_ready :: "fd \<Rightarrow> nat \<Rightarrow> int \<Rightarrow> bytes option sender_io" where
  "recv_ready fd want timeout_ms =
     bind_io (sys_poll [fd] timeout_ms) (\<lambda>result. case result of
       Inl e \<Rightarrow>
         if e = EINTR then ret None
         else throw (RuntimeError (Sys ''poll failed: '' e))
     | Inr rs \<Rightarrow>
         if poll_count rs = 0 then throw ResponseTimeout
         else
           let revents = revents_at rs 0 in
           if POLLERR \<in> revents \<or> POLLNVAL \<in> revents then
             throw (ConnectionLost (Msg ''connection error while waiting for response''))
           else if POLLIN \<notin> revents then
             (if POLLHUP \<in> revents then throw (ConnectionLost (Msg ''peer disconnected''))
              else ret None)
           else
             bind_io (sys_recv fd want) (\<lambda>received. case received of
               Inl e \<Rightarrow>
                 if e = EINTR \<or> e = EAGAIN \<or> e = EWOULDBLOCK then ret None
                 else if e = ECONNRESET then throw (ConnectionLost (Sys '''' e))
                 else throw (RuntimeError (Sys ''recv failed: '' e))
             | Inr bs \<Rightarrow>
                 if bs = [] then throw (ConnectionLost (Msg ''peer disconnected''))
                 else bind_io (upd_local (frame_bytes_update (\<lambda>k. k + length bs)))
                   (\<lambda>_. ret (Some bs))))"

definition recv_pass :: "nat \<Rightarrow> fd \<Rightarrow> nat \<Rightarrow> bytes option sender_io" where
  "recv_pass deadline fd want =
     bind_io sys_now (\<lambda>now.
       if deadline \<le> now then throw ResponseTimeout
       else recv_ready fd want (int (ceil_ms (deadline - now))))"

lemma session_recv_ready: "within session_le (recv_ready fd want t)"
  unfolding recv_ready_def Let_def
  by (intro session.within_rules session_calls)

lemma session_recv_pass: "within session_le (recv_pass deadline fd want)"
  unfolding recv_pass_def
  by (intro session.within_rules session_calls session_recv_ready)

lemma ticks_le: "session_le w w' \<Longrightarrow> length (ticks w') \<le> length (ticks w)"
  by (simp add: session_le_def world_le_def)

lemma recv_pass_less:
  assumes "recv_pass deadline fd want w = (Ok r, w')"
  shows "length (ticks w') < length (ticks w)"
proof -
  from assms obtain now w1 where now: "sys_now w = (Ok now, w1)"
    and ready: "recv_ready fd want (int (ceil_ms (deadline - now))) w1 = (Ok r, w')"
    by (auto simp: recv_pass_def bind_io_eq_Ok throw_def split: if_splits)
  from sys_now_less [OF now] ticks_le [OF withinD [OF session_recv_ready ready]] show ?thesis
    by simp
qed

function deadline_loop ::
  "nat \<Rightarrow> fd \<Rightarrow> nat \<Rightarrow> bytes \<Rightarrow> sender_world \<Rightarrow> bytes result \<times> sender_world" where
  "deadline_loop deadline fd n buf w =
     (if length buf < n then
        (case recv_pass deadline fd (n - length buf) w of
           (Ok None, w') \<Rightarrow> deadline_loop deadline fd n buf w'
         | (Ok (Some bs), w') \<Rightarrow> deadline_loop deadline fd n (buf @ bs) w'
         | (Throw e, w') \<Rightarrow> (Throw e, w')
         | (Blocked, w') \<Rightarrow> (Blocked, w'))
      else (Ok buf, w))"
  by pat_completeness auto
termination
  by (relation "measure (\<lambda>(_, _, _, _, w). length (ticks w))") (auto dest: recv_pass_less [OF sym])

declare deadline_loop.simps [simp del]

definition sender_recv_exact :: "fd \<Rightarrow> nat \<Rightarrow> nat \<Rightarrow> bytes sender_io" where
  "sender_recv_exact fd deadline n = deadline_loop deadline fd n []"

definition sender_send_packet :: "fd \<Rightarrow> packet \<Rightarrow> unit sender_io" where
  "sender_send_packet fd p =
     bind_io (lift_codec (encode_packet p)) (\<lambda>encoded. sender_send_all fd encoded)"

definition sender_receive_packet :: "fd \<Rightarrow> nat \<Rightarrow> packet sender_io" where
  "sender_receive_packet fd deadline = framed_receive (sender_recv_exact fd deadline)"

section \<open>Waiting for a response\<close>

text \<open>
  The body of the loop of \<open>wait_for_response\<close>, in two parts. \<open>receive_before\<close> is the \<open>try\<close>
  block with its handler; \<open>judge_response\<close> is what follows. \<open>Some b\<close> is \<open>return b\<close>, \<open>None\<close>
  is \<open>continue\<close>.
\<close>

definition receive_before :: "fd \<Rightarrow> nat \<Rightarrow> packet option sender_io" where
  "receive_before fd deadline =
     bind_io (upd_local (frame_bytes_update (\<lambda>_. 0))) (\<lambda>_.
     catch_io
       (bind_io (sender_receive_packet fd deadline) (\<lambda>response. ret (Some response)))
       (\<lambda>e. case e of
          ResponseTimeout \<Rightarrow> Some (
            bind_io (get_local frame_bytes) (\<lambda>received.
            if received \<noteq> 0 then
              bind_io (sys_shutdown fd) (\<lambda>_.
              bind_io (sys_close fd) (\<lambda>_.
              throw (RuntimeError (Msg ''partial response deadline exceeded; connection discarded''))))
            else ret None))
        | _ \<Rightarrow> None))"

definition judge_response ::
  "message_type \<Rightarrow> u32 \<Rightarrow> nat \<Rightarrow> packet \<Rightarrow> bool option sender_io" where
  "judge_response expected_type expected_sequence deadline response =
     bind_io sys_now (\<lambda>now.
     if deadline \<le> now then ret (Some False)
     else if (type_of response \<noteq> Ack \<and> type_of response \<noteq> HeartbeatAck) \<or> payload response \<noteq> [] then
       throw (RuntimeError (Msg ''invalid response packet''))
     else if type_of response = expected_type \<and> sequence response = expected_sequence then
       bind_io (upd_local (completed_update (insert (type_of response, sequence response)))) (\<lambda>_.
       ret (Some True))
     else
       bind_io (get_local (\<lambda>st. (type_of response, sequence response) \<in> completed st)) (\<lambda>stale.
       if stale then
         bind_io (cout (IgnoredStaleResponse (sequence response))) (\<lambda>_. ret None)
       else throw (RuntimeError (Msg ''unexpected response type or sequence''))))"

definition wait_pass :: "fd \<Rightarrow> message_type \<Rightarrow> u32 \<Rightarrow> nat \<Rightarrow> bool option sender_io" where
  "wait_pass fd expected_type expected_sequence deadline =
     bind_io (receive_before fd deadline) (\<lambda>r. case r of
       None \<Rightarrow> ret (Some False)
     | Some response \<Rightarrow> judge_response expected_type expected_sequence deadline response)"

lemma session_deadline_loop: "within session_le (deadline_loop deadline fd n buf)"
proof (rule withinI)
  fix w
  show "session_le w (snd (deadline_loop deadline fd n buf w))"
  proof (induction deadline fd n buf w rule: deadline_loop.induct)
    case (1 deadline fd n buf w)
    obtain r w1 where step: "recv_pass deadline fd (n - length buf) w = (r, w1)"
      by fastforce
    note le = withinD [OF session_recv_pass step]
    show ?case
      using "1.IH" step le
      by (subst deadline_loop.simps)
        (auto split: result.splits option.splits intro: session.trans [OF le] session.refl)
  qed
qed

lemma sender_recv_exact_eq: "sender_recv_exact fd deadline = (\<lambda>n. deadline_loop deadline fd n [])"
  by (rule ext) (simp add: sender_recv_exact_def)

lemma session_discard:
  "within session_le (bind_io (get_local frame_bytes) (\<lambda>received.
     if received \<noteq> 0 then
       bind_io (sys_shutdown fd) (\<lambda>_. bind_io (sys_close fd) (\<lambda>_. throw (RuntimeError m)))
     else ret None))"
  by (intro session.within_rules session_calls)

lemma session_receive_before: "within session_le (receive_before fd deadline)"
  unfolding receive_before_def sender_receive_packet_def sender_recv_exact_eq
proof (intro session.within_bind session.within_catch session_framed_receive session_deadline_loop
    session.within_ret session_calls)
  fix e :: exn and k :: "packet option sender_io"
  assume "(case e of
          ResponseTimeout \<Rightarrow> Some (
            bind_io (get_local frame_bytes) (\<lambda>received.
            if received \<noteq> 0 then
              bind_io (sys_shutdown fd) (\<lambda>_.
              bind_io (sys_close fd) (\<lambda>_.
              throw (RuntimeError (Msg ''partial response deadline exceeded; connection discarded''))))
            else ret None))
        | _ \<Rightarrow> None) = Some k"
  then show "within session_le k"
    using session_discard by (auto split: exn.splits)
qed

lemma session_judge_response: "within session_le (judge_response t s deadline p)"
  unfolding judge_response_def
  by (intro session.within_rules session_calls)

lemma session_wait_pass: "within session_le (wait_pass fd t s deadline)"
  unfolding wait_pass_def
  by (intro session.within_rules session_receive_before session_judge_response)

function wait_loop ::
  "fd \<Rightarrow> message_type \<Rightarrow> u32 \<Rightarrow> nat \<Rightarrow> sender_world \<Rightarrow> bool result \<times> sender_world" where
  "wait_loop fd expected_type expected_sequence deadline w =
     (case sys_now w of
        (Ok now, w1) \<Rightarrow>
          if now < deadline then
            (case wait_pass fd expected_type expected_sequence deadline w1 of
               (Ok None, w2) \<Rightarrow> wait_loop fd expected_type expected_sequence deadline w2
             | (Ok (Some b), w2) \<Rightarrow> (Ok b, w2)
             | (Throw e, w2) \<Rightarrow> (Throw e, w2)
             | (Blocked, w2) \<Rightarrow> (Blocked, w2))
          else (Ok False, w1)
      | (Throw e, w1) \<Rightarrow> (Throw e, w1)
      | (Blocked, w1) \<Rightarrow> (Blocked, w1))"
  by pat_completeness auto
termination
proof (relation "measure (\<lambda>(_, _, _, _, w). length (ticks w))")
  fix fd t s deadline and w w1 w2 :: sender_world and x :: "nat result" and now and y :: "bool option result" and z
  assume "(x, w1) = sys_now w" "x = Ok now" "(y, w2) = wait_pass fd t s deadline w1"
  then show "((fd, t, s, deadline, w2), fd, t, s, deadline, w) \<in> measure (\<lambda>(_, _, _, _, w). length (ticks w))"
    using sys_now_less [of w now w1] ticks_le [OF withinD [OF session_wait_pass, of fd t s deadline w1 y w2]]
    by simp
qed simp

declare wait_loop.simps [simp del]

definition wait_for_response ::
  "fd \<Rightarrow> message_type \<Rightarrow> u32 \<Rightarrow> nat \<Rightarrow> bool sender_io" where
  "wait_for_response fd expected_type expected_sequence timeout_ms =
     bind_io sys_now (\<lambda>now.
     wait_loop fd expected_type expected_sequence (now + timeout_ms * 1000000))"

section \<open>Connecting\<close>

text \<open>The second call is \<open>inet_pton\<close>, the third \<open>connect\<close>.\<close>

definition connect_to_receiver :: "fd sender_io" where
  "connect_to_receiver =
     bind_io sys_open (\<lambda>r. case r of
       Inl e \<Rightarrow> throw (RuntimeError (Sys ''socket failed: '' e))
     | Inr fd \<Rightarrow>
         bind_io sys_call (\<lambda>r. case r of
           Some e \<Rightarrow> bind_io (sys_close fd)
             (\<lambda>_. throw (RuntimeError (Msg ''invalid server IP address'')))
         | None \<Rightarrow>
             bind_io sys_call (\<lambda>r. case r of
               Some e \<Rightarrow> bind_io (sys_close fd)
                 (\<lambda>_. throw (RuntimeError (Sys ''connect failed: '' e)))
             | None \<Rightarrow> ret fd)))"

text \<open>The loop of \<open>connect_with_retry\<close> from a given attempt on.\<close>

function connect_from :: "nat \<Rightarrow> fd sender_io" where
  "connect_from attempt =
     (if attempt \<le> kMaxReconnectAttempts then
        catch_io
          (bind_io connect_to_receiver (\<lambda>fd.
           bind_io (cout (ConnectedToReceiver attempt)) (\<lambda>_.
           ret fd)))
          (\<lambda>e. map_option (\<lambda>m.
             bind_io (cout (ConnectFailed attempt m)) (\<lambda>_.
             if attempt = kMaxReconnectAttempts then throw e
             else
               bind_io (sleep_ms (kReconnectDelaySec * 1000)) (\<lambda>_.
               connect_from (attempt + 1)))) (std_what e))
      else throw (RuntimeError (Msg ''reconnect failed'')))"
  by pat_completeness auto
termination
  by (relation "measure (\<lambda>attempt. kMaxReconnectAttempts + 1 - attempt)") auto

declare connect_from.simps [simp del]

definition connect_with_retry :: "fd sender_io" where
  "connect_with_retry = connect_from 1"

section \<open>The program\<close>

text \<open>\<open>"hello embedded"\<close>\<close>

definition message :: bytes where
  "message = [104, 101, 108, 108, 111, 32, 101, 109, 98, 101, 100, 100, 101, 100]"

definition data_packet :: packet where
  "data_packet = \<lparr>type_of = Data, sequence = 1, payload = message\<rparr>"

definition heartbeat_packet :: "u32 \<Rightarrow> packet" where
  "heartbeat_packet s = \<lparr>type_of = Heartbeat, sequence = s, payload = []\<rparr>"

text \<open>The DATA loop from a given attempt on; the result is \<open>acknowledged\<close>.\<close>

function send_data_from :: "fd \<Rightarrow> nat \<Rightarrow> bool sender_io" where
  "send_data_from fd attempt =
     (if attempt \<le> kMaxRetries + 1 then
        bind_io (sender_send_packet fd data_packet) (\<lambda>_.
        bind_io (cout (SentData (sequence data_packet) attempt message)) (\<lambda>_.
        bind_io (wait_for_response fd Ack (sequence data_packet) kAckTimeoutMs) (\<lambda>ok.
        if ok then
          bind_io (cout (ReceivedAck (sequence data_packet))) (\<lambda>_. ret True)
        else
          bind_io (cout (AckTimeout (sequence data_packet))) (\<lambda>_.
          send_data_from fd (attempt + 1)))))
      else ret False)"
  by pat_completeness auto
termination
  by (relation "measure (\<lambda>(_, attempt). kMaxRetries + 2 - attempt)") auto

declare send_data_from.simps [simp del]

text \<open>One heartbeat: the \<open>try\<close> block, whose result is \<open>reconnect_required\<close>, and the reconnection.\<close>

definition try_heartbeat :: "fd \<Rightarrow> u32 \<Rightarrow> nat \<Rightarrow> bool sender_io" where
  "try_heartbeat fd s count =
     catch_io
       (bind_io (sender_send_packet fd (heartbeat_packet s)) (\<lambda>_.
        bind_io (cout (SentHeartbeat s count)) (\<lambda>_.
        bind_io (wait_for_response fd HeartbeatAck s kHeartbeatTimeoutMs) (\<lambda>ok.
        if \<not> ok then bind_io (cout (HeartbeatTimeout s)) (\<lambda>_. ret True)
        else ret False))))
       (\<lambda>e. case e of
          ConnectionLost m \<Rightarrow>
            Some (bind_io (cout (ConnectionLostDuringHeartbeat s m)) (\<lambda>_. ret True))
        | _ \<Rightarrow> None)"

definition reconnect :: "fd \<Rightarrow> u32 \<Rightarrow> fd sender_io" where
  "reconnect fd s =
     bind_io (sys_close fd) (\<lambda>_.
     bind_io (cout Reconnecting) (\<lambda>_.
     bind_io connect_with_retry (\<lambda>new_fd.
     bind_io (sender_send_packet new_fd (heartbeat_packet s)) (\<lambda>_.
     bind_io (cout (ResentHeartbeat s)) (\<lambda>_.
     bind_io (wait_for_response new_fd HeartbeatAck s kHeartbeatTimeoutMs) (\<lambda>ok.
     if \<not> ok then throw (RuntimeError (Msg ''heartbeat failed after reconnect''))
     else ret new_fd))))))"

definition heartbeat_pass :: "fd \<Rightarrow> u32 \<Rightarrow> nat \<Rightarrow> fd sender_io" where
  "heartbeat_pass fd s count =
     bind_io (sleep_ms (kHeartbeatIntervalSec * 1000)) (\<lambda>_.
     bind_io (try_heartbeat fd s count) (\<lambda>reconnect_required.
     bind_io (if reconnect_required then reconnect fd s else ret fd) (\<lambda>fd'.
     bind_io (cout (ReceivedHeartbeatAck s)) (\<lambda>_.
     ret fd'))))"

text \<open>The heartbeat loop from a given count on; the result is the descriptor in use at its end.\<close>

function heartbeats_from :: "fd \<Rightarrow> u32 \<Rightarrow> nat \<Rightarrow> fd sender_io" where
  "heartbeats_from fd heartbeat_sequence count =
     (if count \<le> kHeartbeatCount then
        bind_io (heartbeat_pass fd heartbeat_sequence count) (\<lambda>fd'.
        heartbeats_from fd' (heartbeat_sequence + 1) (count + 1))
      else ret fd)"
  by pat_completeness auto
termination
  by (relation "measure (\<lambda>(_, _, count). kHeartbeatCount + 1 - count)") auto

declare heartbeats_from.simps [simp del]

definition sender_body :: "int sender_io" where
  "sender_body =
     bind_io connect_with_retry (\<lambda>fd.
     bind_io (upd_local (completed_update (\<lambda>_. {}))) (\<lambda>_.
     bind_io (send_data_from fd 1) (\<lambda>acknowledged.
     if \<not> acknowledged then throw (RuntimeError (Msg ''ACK retry limit exceeded''))
     else
       bind_io (heartbeats_from fd 2 1) (\<lambda>fd'.
       bind_io (sys_close fd') (\<lambda>_.
       ret 0)))))"

definition sender_main :: "int sender_io" where
  "sender_main =
     catch_io sender_body
       (\<lambda>e. map_option (\<lambda>m. bind_io (cout (SenderError m)) (\<lambda>_. ret 1)) (std_what e))"

end
