(* ===== verification/SenderWait.thy ===== *)
theory SenderWait
  imports TcpSender
begin

text \<open>
  What the sender's reader and \<open>wait_for_response\<close> do, whatever the clock, \<open>poll\<close> and
  \<open>recv\<close> answer: which bytes of the stream they consume, when they accept a response, and
  how long they are prepared to wait.
\<close>

section \<open>Reading\<close>

text \<open>
  \<open>reading dl fd got w w'\<close>: between the worlds the bytes \<open>got\<close> were taken from the stream and
  counted, and nothing else happened but polls, none of them with a timeout beyond the
  deadline \<open>dl\<close>.
\<close>

definition reading :: "nat \<Rightarrow> fd \<Rightarrow> bytes \<Rightarrow> sender_world \<Rightarrow> sender_world \<Rightarrow> bool" where
  "reading dl fd got w w' \<longleftrightarrow>
     stream_bytes (rx (socks w fd)) = got @ stream_bytes (rx (socks w' fd))
     \<and> frame_bytes (locals w') = frame_bytes (locals w) + length got
     \<and> completed (locals w') = completed (locals w) \<and> clock w \<le> clock w'
     \<and> (\<exists>ts. trace w' = trace w @ map Polled ts
          \<and> (\<forall>t \<in> set ts. 0 < t \<and> t \<le> int (ceil_ms (dl - clock w))))"

lemma reading_refl: "reading dl fd [] w w"
  unfolding reading_def by (auto intro: exI [of _ "[]"])

lemma reading_trans:
  assumes "reading dl fd got u v" "reading dl fd got' v w"
  shows "reading dl fd (got @ got') u w"
proof -
  have "int (ceil_ms (dl - clock v)) \<le> int (ceil_ms (dl - clock u))"
    using assms(1) by (simp add: reading_def ceil_ms_mono diff_le_mono2)
  moreover obtain ts ts' where "trace v = trace u @ map Polled ts" "trace w = trace v @ map Polled ts'"
    "\<forall>t \<in> set ts. 0 < t \<and> t \<le> int (ceil_ms (dl - clock u))"
    "\<forall>t \<in> set ts'. 0 < t \<and> t \<le> int (ceil_ms (dl - clock v))"
    using assms by (auto simp: reading_def)
  ultimately have "\<exists>ts. trace w = trace u @ map Polled ts
      \<and> (\<forall>t \<in> set ts. 0 < t \<and> t \<le> int (ceil_ms (dl - clock u)))"
    by (intro exI [of _ "ts @ ts'"]) auto
  with assms show ?thesis
    by (simp add: reading_def)
qed

definition read_exn :: "exn \<Rightarrow> bool" where
  "read_exn e \<longleftrightarrow> e = ResponseTimeout \<or> (\<exists>m. e = ConnectionLost m) \<or> (\<exists>p err. e = RuntimeError (Sys p err))"

lemma read_exn_simps [simp]:
  "read_exn ResponseTimeout" "read_exn (ConnectionLost m)" "read_exn (RuntimeError (Sys p err))"
  by (simp_all add: read_exn_def)

definition pass_result :: "bytes option result \<Rightarrow> bytes \<Rightarrow> nat \<Rightarrow> bool" where
  "pass_result r got want \<longleftrightarrow> (case r of
      Ok (Some bs) \<Rightarrow> bs = got \<and> got \<noteq> [] \<and> length got \<le> want
    | Ok None \<Rightarrow> got = []
    | Throw e \<Rightarrow> got = [] \<and> read_exn e
    | Blocked \<Rightarrow> got = [])"

lemma recv_ready_reading:
  assumes run: "recv_ready fd want t w = (r, w')" and "0 < want" "0 < t" "t \<le> int (ceil_ms (dl - clock w))"
  shows "\<exists>got. reading dl fd got w w' \<and> pass_result r got want"
proof -
  obtain p w1 where poll: "sys_poll [fd] t w = (p, w1)"
    by fastforce
  then have w1: "reading dl fd [] w w1"
    using assms(3,4) unfolding reading_def
    by (auto simp: sys_poll_def Let_def split: list.splits poll_event.splits intro!: exI [of _ "[t]"])
  have quiet: ?thesis if "w' = w1" "pass_result r [] want"
    using that w1 by blast
  show ?thesis
  proof (cases "\<exists>rs. p = Ok (Inr rs) \<and> poll_count rs \<noteq> 0 \<and> POLLERR \<notin> revents_at rs 0
      \<and> POLLNVAL \<notin> revents_at rs 0 \<and> POLLIN \<in> revents_at rs 0")
    case False
    with run poll show ?thesis
      by (intro quiet)
        (auto simp: recv_ready_def bind_io_def Let_def ret_def throw_def pass_result_def sys_calls_no_throw
          split: result.splits sum.splits if_splits)
  next
    case True
    then obtain rs where p: "p = Ok (Inr rs)" "poll_count rs \<noteq> 0" "POLLERR \<notin> revents_at rs 0"
      "POLLNVAL \<notin> revents_at rs 0" "POLLIN \<in> revents_at rs 0"
      by blast
    from \<open>0 < want\<close> show ?thesis
    proof (cases rule: sys_recv_cases [where fd = fd and w = w1])
      case (data bs es)
      have "reading dl fd bs w1 w'"
        using run poll p data
        by (auto simp: recv_ready_def bind_io_def ret_def upd_local_def reading_def intro!: exI [of _ "[]"])
      moreover have "pass_result r bs want"
        using run poll p data by (auto simp: recv_ready_def bind_io_def ret_def upd_local_def pass_result_def)
      ultimately show ?thesis
        using reading_trans [OF w1] by auto
    next
      case (eof es)
      have "reading dl fd [] w1 w'"
        using run poll p eof
        by (auto simp: recv_ready_def bind_io_def throw_def reading_def intro!: exI [of _ "[]"])
      moreover have "pass_result r [] want"
        using run poll p eof by (auto simp: recv_ready_def bind_io_def throw_def pass_result_def)
      ultimately show ?thesis
        using reading_trans [OF w1] by auto
    next
      case (error e es)
      have "reading dl fd [] w1 w'"
        using run poll p error
        by (auto simp: recv_ready_def bind_io_def ret_def throw_def reading_def intro!: exI [of _ "[]"]
            split: if_splits)
      moreover have "pass_result r [] want"
        using run poll p error
        by (auto simp: recv_ready_def bind_io_def ret_def throw_def pass_result_def split: if_splits)
      ultimately show ?thesis
        using reading_trans [OF w1] by auto
    next
      case blocked
      with run poll p show ?thesis
        by (intro quiet) (auto simp: recv_ready_def bind_io_def pass_result_def)
    qed
  qed
qed

lemma recv_pass_reading:
  assumes run: "recv_pass dl fd want w = (r, w')" and "0 < want"
  shows "\<exists>got. reading dl fd got w w' \<and> pass_result r got want"
proof (cases "ticks w")
  case Nil
  with run have "w' = w" "r = Blocked"
    by (auto simp: recv_pass_def sys_now_def bind_io_def)
  then show ?thesis
    using reading_refl by (auto simp: pass_result_def)
next
  case (Cons d ds)
  let ?w1 = "w\<lparr>clock := clock w + d, ticks := ds\<rparr>"
  have w1: "reading dl fd [] w ?w1"
    unfolding reading_def by (auto intro: exI [of _ "[]"])
  show ?thesis
  proof (cases "dl \<le> clock w + d")
    case True
    with run Cons have "w' = ?w1" "r = Throw ResponseTimeout"
      by (auto simp: recv_pass_def sys_now_def bind_io_def throw_def)
    with w1 show ?thesis
      by (auto simp: pass_result_def)
  next
    case False
    with run Cons have ready: "recv_ready fd want (int (ceil_ms (dl - (clock w + d)))) ?w1 = (r, w')"
      by (simp add: recv_pass_def sys_now_def bind_io_def)
    from recv_ready_reading [OF ready \<open>0 < want\<close>, of dl] False ceil_ms_pos obtain got where
      "reading dl fd got ?w1 w'" "pass_result r got want"
      by auto
    with reading_trans [OF w1] show ?thesis
      by auto
  qed
qed

lemma deadline_loop_reading:
  assumes "deadline_loop dl fd n buf w = (r, w')" "length buf \<le> n"
  shows "\<exists>got. reading dl fd got w w' \<and> (case r of
      Ok out \<Rightarrow> out = buf @ got \<and> length out = n
    | Throw e \<Rightarrow> read_exn e \<and> length buf + length got < n
    | Blocked \<Rightarrow> True)"
  using assms
proof (induction dl fd n buf w arbitrary: r w' rule: deadline_loop.induct)
  case (1 dl fd n buf w)
  note run = "1.prems"(1) [unfolded deadline_loop.simps [of dl fd n buf w]]
  show ?case
  proof (cases "length buf < n")
    case False
    with run "1.prems"(2) show ?thesis
      using reading_refl by auto
  next
    case True
    then have pos: "0 < n - length buf"
      by simp
    obtain x w1 where pass: "recv_pass dl fd (n - length buf) w = (x, w1)"
      by fastforce
    from recv_pass_reading [OF pass pos] obtain got where
      got: "reading dl fd got w w1" "pass_result x got (n - length buf)"
      by blast
    consider (more) bs where "x = Ok (Some bs)" | (again) "x = Ok None" | (throw) e where "x = Throw e"
      | (blocked) "x = Blocked"
      by (cases x; cases "case x of Ok y \<Rightarrow> y | _ \<Rightarrow> None") auto
    then show ?thesis
    proof cases
      case (more bs)
      with got(2) have bs: "got = bs" "length (buf @ bs) \<le> n"
        using True by (auto simp: pass_result_def)
      from run pass more True have "deadline_loop dl fd n (buf @ bs) w1 = (r, w')"
        by simp
      from "1.IH"(2) [OF True pass [symmetric] more refl this bs(2)] obtain got' where
        "reading dl fd got' w1 w'" "case r of Ok out \<Rightarrow> out = (buf @ bs) @ got' \<and> length out = n
          | Throw e \<Rightarrow> read_exn e \<and> length (buf @ bs) + length got' < n | Blocked \<Rightarrow> True"
        by blast
      with reading_trans [OF got(1)] bs(1) show ?thesis
        by (intro exI [of _ "got @ got'"]) (auto split: result.splits)
    next
      case again
      with got(2) have "got = []"
        by (simp add: pass_result_def)
      from run pass again True have "deadline_loop dl fd n buf w1 = (r, w')"
        by simp
      from "1.IH"(1) [OF True pass [symmetric] again refl this "1.prems"(2)] obtain got' where
        "reading dl fd got' w1 w'" "case r of Ok out \<Rightarrow> out = buf @ got' \<and> length out = n
          | Throw e \<Rightarrow> read_exn e \<and> length buf + length got' < n | Blocked \<Rightarrow> True"
        by blast
      with reading_trans [OF got(1)] \<open>got = []\<close> show ?thesis
        by (intro exI [of _ got']) auto
    next
      case (throw e)
      with run pass True got show ?thesis
        by (intro exI [of _ got]) (auto simp: pass_result_def)
    next
      case blocked
      with run pass True got show ?thesis
        by (intro exI [of _ got]) (auto simp: pass_result_def)
    qed
  qed
qed

lemma recv_exact_reading:
  assumes "sender_recv_exact fd dl n w = (r, w')"
  shows "\<exists>got. reading dl fd got w w' \<and> (case r of
      Ok out \<Rightarrow> got = out \<and> length out = n | Throw e \<Rightarrow> read_exn e | Blocked \<Rightarrow> True)"
  using deadline_loop_reading [OF assms [unfolded sender_recv_exact_def]] by (cases r) auto

text \<open>A packet is read whole, or the reader fails.\<close>

lemma lift_codec_eq:
  "lift_codec c w = (case c of Inl e \<Rightarrow> (Throw (RuntimeError (Msg (codec_message e))), w) | Inr x \<Rightarrow> (Ok x, w))"
  by (simp add: lift_codec_def apply_io split: sum.splits)

definition receive_exn :: "exn \<Rightarrow> bool" where
  "receive_exn e \<longleftrightarrow> read_exn e \<or> (\<exists>c. e = RuntimeError (Msg (codec_message c)))"

lemma sender_receive_packet_reading:
  assumes run: "sender_receive_packet fd dl w = (r, w')"
  shows "\<exists>got. reading dl fd got w w' \<and> (case r of
      Ok p \<Rightarrow> small p \<and> got = frame p | Throw e \<Rightarrow> receive_exn e | Blocked \<Rightarrow> True)"
proof -
  obtain x w1 where h: "sender_recv_exact fd dl 16 w = (x, w1)"
    by fastforce
  from recv_exact_reading [OF h] obtain g1 where
    g1: "reading dl fd g1 w w1" and
    x: "case x of Ok out \<Rightarrow> g1 = out \<and> length out = 16 | Throw e \<Rightarrow> read_exn e | Blocked \<Rightarrow> True"
    by blast
  show ?thesis
  proof (cases x)
    case (Ok header)
    with x have header: "g1 = header" "length header = 16"
      by simp_all
    show ?thesis
    proof (cases "get_payload_length header")
      case (Inl c)
      with run h Ok g1 show ?thesis
        by (auto simp: sender_receive_packet_def framed_receive_def bind_io_def throw_def receive_exn_def)
    next
      case (Inr n)
      obtain y w2 where pl: "sender_recv_exact fd dl (unat n) w1 = (y, w2)"
        by fastforce
      from recv_exact_reading [OF pl] obtain g2 where
        g2: "reading dl fd g2 w1 w2" and
        y: "case y of Ok out \<Rightarrow> g2 = out \<and> length out = unat n | Throw e \<Rightarrow> read_exn e | Blocked \<Rightarrow> True"
        by blast
      have both: "reading dl fd (g1 @ g2) w w2"
        by (rule reading_trans [OF g1 g2])
      have run': "r = (case y of Ok p \<Rightarrow> (case decode_packet header p of
            Inl e \<Rightarrow> Throw (RuntimeError (Msg (codec_message e))) | Inr p \<Rightarrow> Ok p)
          | Throw e \<Rightarrow> Throw e | Blocked \<Rightarrow> Blocked)" "w' = w2"
        using run h Ok Inr pl
        by (auto simp: sender_receive_packet_def framed_receive_def bind_io_def ret_def lift_codec_eq
            split: result.splits sum.splits)
      show ?thesis
      proof (intro exI conjI)
        show "reading dl fd (g1 @ g2) w w'"
          using both run'(2) by simp
        show "case r of Ok p \<Rightarrow> small p \<and> g1 @ g2 = frame p | Throw e \<Rightarrow> receive_exn e | Blocked \<Rightarrow> True"
        proof (cases y)
          case (Ok pl)
          with y have "g2 = pl"
            by simp
          with run' Ok header(1) show ?thesis
            by (auto simp: receive_exn_def small_def frame_def dest: decode_packet_Inr split: sum.splits)
        qed (use run' y in \<open>auto simp: receive_exn_def\<close>)
      qed
    qed
  next
    case (Throw e)
    with run h g1 x show ?thesis
      by (auto simp: sender_receive_packet_def framed_receive_def bind_io_def receive_exn_def)
  next
    case Blocked
    with run h g1 show ?thesis
      by (auto simp: sender_receive_packet_def framed_receive_def bind_io_def)
  qed
qed

section \<open>Waiting\<close>

definition wait_action :: "nat \<Rightarrow> sender_line action \<Rightarrow> bool" where
  "wait_action m a \<longleftrightarrow> (case a of
      Polled t \<Rightarrow> 0 < t \<and> t \<le> int m
    | Line (IgnoredStaleResponse s) \<Rightarrow> True
    | _ \<Rightarrow> False)"

definition waiting :: "nat \<Rightarrow> fd \<Rightarrow> bytes \<Rightarrow> sender_world \<Rightarrow> sender_world \<Rightarrow> bool" where
  "waiting dl fd got w w' \<longleftrightarrow>
     stream_bytes (rx (socks w fd)) = got @ stream_bytes (rx (socks w' fd))
     \<and> completed (locals w') = completed (locals w) \<and> clock w \<le> clock w'
     \<and> (\<exists>as. trace w' = trace w @ as \<and> list_all (wait_action (ceil_ms (dl - clock w))) as)"

lemma wait_action_mono: "wait_action m a \<Longrightarrow> m \<le> m' \<Longrightarrow> wait_action m' a"
  by (auto simp: wait_action_def split: action.splits sender_line.splits)

lemma waiting_refl: "waiting dl fd [] w w"
  by (auto simp: waiting_def)

lemma waiting_trans:
  assumes "waiting dl fd got u v" "waiting dl fd got' v w"
  shows "waiting dl fd (got @ got') u w"
proof -
  have "ceil_ms (dl - clock v) \<le> ceil_ms (dl - clock u)"
    using assms(1) by (simp add: waiting_def ceil_ms_mono diff_le_mono2)
  moreover obtain as as' where "trace v = trace u @ as" "trace w = trace v @ as'"
    "list_all (wait_action (ceil_ms (dl - clock u))) as"
    "list_all (wait_action (ceil_ms (dl - clock v))) as'"
    using assms by (auto simp: waiting_def)
  ultimately have "\<exists>as. trace w = trace u @ as \<and> list_all (wait_action (ceil_ms (dl - clock u))) as"
    by (intro exI [of _ "as @ as'"]) (auto simp: list_all_iff intro: wait_action_mono)
  with assms show ?thesis
    by (simp add: waiting_def)
qed

lemma reading_waiting: "reading dl fd got w w' \<Longrightarrow> waiting dl fd got w w'"
  by (auto simp: reading_def waiting_def wait_action_def list_all_iff)

lemma waiting_now: "sys_now w = (x, w1) \<Longrightarrow> waiting dl fd [] w w1"
  by (auto simp: sys_now_def waiting_def split: list.splits)

abbreviation "partial_response \<equiv>
  RuntimeError (Msg ''partial response deadline exceeded; connection discarded'')"

definition discarded :: "fd \<Rightarrow> sender_world \<Rightarrow> sender_world" where
  "discarded fd v = v\<lparr>trace := trace v @ [ShutDown fd, Closed fd]\<rparr>"

text \<open>An exception out of the wait: never the time-out itself, and a discarded frame closes the socket.\<close>

definition wait_throws :: "fd \<Rightarrow> bytes \<Rightarrow> exn \<Rightarrow> sender_world \<Rightarrow> sender_world \<Rightarrow> bool" where
  "wait_throws fd got e v w' \<longleftrightarrow> e \<noteq> ResponseTimeout
     \<and> (if e = partial_response then got \<noteq> [] \<and> w' = discarded fd v else w' = v)"

lemma codec_message_not_partial:
  "codec_message c \<noteq> ''partial response deadline exceeded; connection discarded''"
  by (cases c) simp_all

lemma receive_before_waiting:
  assumes run: "receive_before fd dl w = (r, w')"
  shows "\<exists>got v. waiting dl fd got w v \<and> (case r of
      Ok (Some p) \<Rightarrow> small p \<and> got = frame p \<and> w' = v
    | Ok None \<Rightarrow> got = [] \<and> w' = v
    | Throw e \<Rightarrow> wait_throws fd got e v w'
    | Blocked \<Rightarrow> w' = v)"
proof -
  let ?w0 = "w\<lparr>locals := frame_bytes_update (\<lambda>_. 0) (locals w)\<rparr>"
  obtain x v where recv: "sender_receive_packet fd dl ?w0 = (x, v)"
    by fastforce
  from sender_receive_packet_reading [OF recv] obtain got where
    got: "reading dl fd got ?w0 v" and
    x: "case x of Ok p \<Rightarrow> small p \<and> got = frame p | Throw e \<Rightarrow> receive_exn e | Blocked \<Rightarrow> True"
    by blast
  have w0: "waiting dl fd [] w ?w0"
    by (auto simp: waiting_def)
  have wait: "waiting dl fd got w v"
    using waiting_trans [OF w0 reading_waiting [OF got]] by simp
  have count: "frame_bytes (locals v) = length got"
    using got by (simp add: reading_def)
  show ?thesis
  proof (intro exI conjI)
    show "waiting dl fd got w v"
      by (rule wait)
    show "case r of Ok (Some p) \<Rightarrow> small p \<and> got = frame p \<and> w' = v
      | Ok None \<Rightarrow> got = [] \<and> w' = v | Throw e \<Rightarrow> wait_throws fd got e v w' | Blocked \<Rightarrow> w' = v"
    proof (cases x)
      case (Ok p)
      with run recv x show ?thesis
        by (auto simp: receive_before_def bind_upd_local catch_io_def bind_io_Ok ret_def)
    next
      case (Throw e)
      show ?thesis
      proof (cases "e = ResponseTimeout")
        case True
        with run recv Throw count show ?thesis
          by (cases "got = []") (auto simp: receive_before_def bind_upd_local catch_io_def bind_io_Throw
              io_simps discarded_def wait_throws_def)
      next
        case False
        with run recv Throw have "r = Throw e" "w' = v"
          by (auto simp: receive_before_def bind_upd_local catch_io_def bind_io_Throw split: exn.splits)
        moreover have "e \<noteq> partial_response"
          using x Throw codec_message_not_partial codec_message_not_partial [symmetric]
          by (auto simp: receive_exn_def read_exn_def)
        ultimately show ?thesis
          using False by (simp add: wait_throws_def)
      qed
    next
      case Blocked
      with run recv show ?thesis
        by (auto simp: receive_before_def bind_upd_local catch_io_def bind_io_Blocked)
    qed
  qed
qed

definition response_packet :: "message_type \<Rightarrow> u32 \<Rightarrow> packet" where
  "response_packet t s = \<lparr>type_of = t, sequence = s, payload = []\<rparr>"

definition stale :: "(message_type \<times> u32) set \<Rightarrow> packet \<Rightarrow> bool" where
  "stale done p \<longleftrightarrow> (type_of p, sequence p) \<in> done \<and> payload p = []"

definition accept_response :: "message_type \<Rightarrow> u32 \<Rightarrow> sender_world \<Rightarrow> sender_world" where
  "accept_response t s v = v\<lparr>locals := completed_update (insert (t, s)) (locals v)\<rparr>"

definition judged ::
  "message_type \<Rightarrow> u32 \<Rightarrow> nat \<Rightarrow> packet \<Rightarrow> bool option result \<Rightarrow> sender_world \<Rightarrow> sender_world \<Rightarrow> bool" where
  "judged t s dl p r v w' \<longleftrightarrow> (case r of
      Ok (Some True) \<Rightarrow> p = response_packet t s \<and> (t = Ack \<or> t = HeartbeatAck) \<and> clock v < dl
        \<and> w' = accept_response t s v
    | Ok (Some False) \<Rightarrow> w' = v
    | Ok None \<Rightarrow> stale (completed (locals v)) p \<and> w' = v
    | Throw e \<Rightarrow> e \<noteq> ResponseTimeout \<and> e \<noteq> partial_response \<and> w' = v
    | Blocked \<Rightarrow> w' = v)"

lemma judge_response_judged:
  assumes "judge_response t s dl p w = (r, w')"
  shows "\<exists>v. waiting dl fd [] w v \<and> judged t s dl p r v w'"
proof (cases "ticks w")
  case Nil
  with assms have "r = Blocked" "w' = w"
    by (auto simp: judge_response_def sys_now_def bind_io_def)
  then show ?thesis
    using waiting_refl by (auto simp: judged_def)
next
  case (Cons d ds)
  let ?w1 = "w\<lparr>clock := clock w + d, ticks := ds\<rparr>"
  let ?w2 = "?w1\<lparr>trace := trace ?w1 @ [Line (IgnoredStaleResponse (sequence p))]\<rparr>"
  have w1: "waiting dl fd [] w ?w1" and w2: "waiting dl fd [] w ?w2"
    by (auto simp: waiting_def wait_action_def)
  have p: "p = response_packet t s" if "type_of p = t" "sequence p = s" "payload p = []"
    using that by (intro packet.equality) (simp_all add: response_packet_def)
  have now: "sys_now w = (Ok (clock w + d), ?w1)"
    using Cons by (simp add: sys_now_def)
  have "judged t s dl p r ?w1 w' \<or> judged t s dl p r ?w2 w'"
    using assms now p
    by (auto simp: judge_response_def bind_io_Ok io_simps accept_response_def judged_def stale_def
        split: if_splits)
  with w1 w2 show ?thesis
    by blast
qed

definition wait_outcome ::
  "fd \<Rightarrow> message_type \<Rightarrow> u32 \<Rightarrow> nat \<Rightarrow> sender_world \<Rightarrow> bool result \<Rightarrow> sender_world \<Rightarrow> bool" where
  "wait_outcome fd t s dl w r w' \<longleftrightarrow> (\<exists>got v. waiting dl fd got w v \<and> (case r of
      Ok True \<Rightarrow> (\<exists>ps. got = concat (map frame ps) @ frame (response_packet t s)
          \<and> list_all (stale (completed (locals w))) ps)
        \<and> (t = Ack \<or> t = HeartbeatAck) \<and> clock v < dl \<and> w' = accept_response t s v
    | Ok False \<Rightarrow> (\<exists>ps. got = concat (map frame ps) \<and> list_all small ps
          \<and> list_all (stale (completed (locals w))) (butlast ps)) \<and> w' = v
    | Throw e \<Rightarrow> wait_throws fd got e v w'
    | Blocked \<Rightarrow> w' = v))"

lemma stale_small: "list_all (stale done) ps \<Longrightarrow> list_all small ps"
  by (auto simp: list_all_iff stale_def small_def)

lemma wait_outcome_before:
  assumes "waiting dl fd (concat (map frame ps)) u w" "list_all (stale (completed (locals u))) ps"
    and out: "wait_outcome fd t s dl w r w'"
  shows "wait_outcome fd t s dl u r w'"
proof -
  from out obtain got v where v: "waiting dl fd got w v" and res: "case r of
      Ok True \<Rightarrow> (\<exists>ps. got = concat (map frame ps) @ frame (response_packet t s)
          \<and> list_all (stale (completed (locals w))) ps)
        \<and> (t = Ack \<or> t = HeartbeatAck) \<and> clock v < dl \<and> w' = accept_response t s v
    | Ok False \<Rightarrow> (\<exists>ps. got = concat (map frame ps) \<and> list_all small ps
          \<and> list_all (stale (completed (locals w))) (butlast ps)) \<and> w' = v
    | Throw e \<Rightarrow> wait_throws fd got e v w'
    | Blocked \<Rightarrow> w' = v"
    by (auto simp: wait_outcome_def)
  have same: "completed (locals w) = completed (locals u)"
    using assms(1) by (simp add: waiting_def)
  note all = waiting_trans [OF assms(1) v]
  have butlast: "list_all (stale (completed (locals u))) (butlast (ps @ qs))"
    if "list_all (stale (completed (locals u))) (butlast qs)" for qs
    using that assms(2) by (auto simp: list_all_iff butlast_append dest: in_set_butlastD)
  show ?thesis
  proof (cases r)
    case (Ok b)
    show ?thesis
    proof (cases b)
      case True
      with Ok res obtain qs where "got = concat (map frame qs) @ frame (response_packet t s)"
        "list_all (stale (completed (locals w))) qs" "t = Ack \<or> t = HeartbeatAck" "clock v < dl"
        "w' = accept_response t s v"
        by auto
      with Ok True all same assms(2) show ?thesis
        unfolding wait_outcome_def
        by (intro exI [of _ "concat (map frame ps) @ got"] exI [of _ v])
          (auto intro!: exI [of _ "ps @ qs"])
    next
      case False
      with Ok res obtain qs where "got = concat (map frame qs)" "list_all small qs"
        "list_all (stale (completed (locals w))) (butlast qs)" "w' = v"
        by auto
      with Ok False all same butlast stale_small [OF assms(2)] show ?thesis
        unfolding wait_outcome_def
        by (intro exI [of _ "concat (map frame ps) @ got"] exI [of _ v])
          (auto intro!: exI [of _ "ps @ qs"])
    qed
  next
    case (Throw e)
    with res all show ?thesis
      unfolding wait_outcome_def
      by (intro exI [of _ "concat (map frame ps) @ got"] exI [of _ v])
        (auto simp: wait_throws_def split: if_splits)
  next
    case Blocked
    with res all show ?thesis
      unfolding wait_outcome_def by auto
  qed
qed

lemma wait_loop_outcome: "wait_loop fd t s dl w = (r, w') \<Longrightarrow> wait_outcome fd t s dl w r w'"
proof (induction fd t s dl w arbitrary: r w' rule: wait_loop.induct)
  case (1 fd t s dl w)
  note run = "1.prems" [unfolded wait_loop.simps [of fd t s dl w]]
  show ?case
  proof (cases "ticks w")
    case Nil
    with run have "r = Blocked" "w' = w"
      by (auto simp: sys_now_def)
    then show ?thesis
      unfolding wait_outcome_def using waiting_refl by (intro exI [of _ "[]"] exI [of _ w]) simp
  next
    case (Cons d ds)
    let ?now = "clock w + d"
    let ?w1 = "w\<lparr>clock := ?now, ticks := ds\<rparr>"
    have now: "sys_now w = (Ok ?now, ?w1)"
      using Cons by (simp add: sys_now_def)
    have w1: "waiting dl fd [] w ?w1"
      by (rule waiting_now [OF now])
    show ?thesis
    proof (cases "?now < dl")
      case False
      with run now have "r = Ok False" "w' = ?w1"
        by auto
      with w1 show ?thesis
        unfolding wait_outcome_def by (intro exI [of _ "[]"] exI [of _ ?w1]) (auto intro: exI [of _ "[]"])
    next
      case True
      obtain x w2 where recv: "receive_before fd dl ?w1 = (x, w2)"
        by fastforce
      from receive_before_waiting [OF recv] obtain got v where v: "waiting dl fd got ?w1 v" and
        x: "case x of Ok (Some p) \<Rightarrow> small p \<and> got = frame p \<and> w2 = v | Ok None \<Rightarrow> got = [] \<and> w2 = v
          | Throw e \<Rightarrow> wait_throws fd got e v w2 | Blocked \<Rightarrow> w2 = v"
        by blast
      have wv: "waiting dl fd got w v"
        using waiting_trans [OF w1 v] by simp
      consider (packet) p where "x = Ok (Some p)" | (none) "x = Ok None" | (throw) e where "x = Throw e"
        | (blocked) "x = Blocked"
        by (cases x; cases "case x of Ok y \<Rightarrow> y | _ \<Rightarrow> None") auto
      then show ?thesis
      proof cases
        case none
        with run now True recv x have "r = Ok False" "w' = v" "got = []"
          by (auto simp: wait_pass_def bind_io_Ok ret_def)
        with wv show ?thesis
          unfolding wait_outcome_def by (intro exI [of _ "[]"] exI [of _ v]) (auto intro: exI [of _ "[]"])
      next
        case (throw e)
        with run now True recv have "r = Throw e" "w' = w2"
          by (auto simp: wait_pass_def bind_io_Throw)
        with wv x throw show ?thesis
          unfolding wait_outcome_def by (intro exI [of _ got] exI [of _ v]) simp
      next
        case blocked
        with run now True recv x have "r = Blocked" "w' = v"
          by (auto simp: wait_pass_def bind_io_Blocked)
        with wv show ?thesis
          unfolding wait_outcome_def by (intro exI [of _ got] exI [of _ v]) simp
      next
        case (packet p)
        with x have p: "small p" "got = frame p" "w2 = v"
          by simp_all
        obtain y w3 where judge: "judge_response t s dl p v = (y, w3)"
          by fastforce
        from judge_response_judged [OF judge, of fd] obtain u where
          vu: "waiting dl fd [] v u" and y: "judged t s dl p y u w3"
          by blast
        have wu: "waiting dl fd (frame p) w u"
          using waiting_trans [OF wv vu] p(2) by simp
        have pass: "wait_pass fd t s dl ?w1 = (y, w3)"
          using recv packet p(3) judge by (simp add: wait_pass_def bind_io_Ok)
        consider (again) "y = Ok None" | (yes) "y = Ok (Some True)" | (no) "y = Ok (Some False)"
          | (throw) e where "y = Throw e" | (blocked) "y = Blocked"
          by (cases y; cases "case y of Ok z \<Rightarrow> z | _ \<Rightarrow> None"; cases "y = Ok (Some True)") auto
        then show ?thesis
        proof cases
          case again
          with y have st: "stale (completed (locals u)) p" "w3 = u"
            by (simp_all add: judged_def)
          from run now True pass again have "wait_loop fd t s dl w3 = (r, w')"
            by simp
          from "1.IH" [OF now [symmetric] refl True pass [symmetric] again refl this]
          have "wait_outcome fd t s dl u r w'"
            using st(2) by simp
          moreover have "completed (locals u) = completed (locals w)"
            using wu by (simp add: waiting_def)
          ultimately show ?thesis
            using wait_outcome_before [of dl fd "[p]" w u] wu st(1) by simp
        next
          case yes
          with run now True pass y have "r = Ok True" "w' = accept_response t s u"
            "p = response_packet t s" "t = Ack \<or> t = HeartbeatAck" "clock u < dl"
            by (auto simp: judged_def)
          with wu show ?thesis
            unfolding wait_outcome_def by (intro exI [of _ "frame p"] exI [of _ u]) (auto intro: exI [of _ "[]"])
        next
          case no
          with run now True pass y have "r = Ok False" "w' = u"
            by (auto simp: judged_def)
          with wu p(1) show ?thesis
            unfolding wait_outcome_def by (intro exI [of _ "frame p"] exI [of _ u]) (auto intro: exI [of _ "[p]"])
        next
          case (throw e)
          with run now True pass y have "r = Throw e" "w' = u" "e \<noteq> ResponseTimeout" "e \<noteq> partial_response"
            by (auto simp: judged_def)
          with wu show ?thesis
            unfolding wait_outcome_def
            by (intro exI [of _ "frame p"] exI [of _ u]) (simp add: wait_throws_def)
        next
          case blocked
          with run now True pass y have "r = Blocked" "w' = u"
            by (auto simp: judged_def)
          with wu show ?thesis
            unfolding wait_outcome_def by (intro exI [of _ "frame p"] exI [of _ u]) simp
        qed
      qed
    qed
  qed
qed

text \<open>The call as a whole: the deadline is fixed by the first reading of the clock.\<close>

definition started :: "sender_world \<Rightarrow> sender_world" where
  "started w = w\<lparr>clock := clock w + hd (ticks w), ticks := tl (ticks w)\<rparr>"

lemma wait_for_response_started:
  "ticks w \<noteq> [] \<Longrightarrow> wait_for_response fd t s ms w =
     wait_loop fd t s (clock (started w) + ms * 1000000) (started w)"
  by (cases "ticks w") (auto simp: wait_for_response_def bind_io_def sys_now_def started_def)

lemma wait_for_response_outcome:
  assumes "wait_for_response fd t s ms w = (r, w')"
  shows "r = Blocked \<and> w' = w
    \<or> wait_outcome fd t s (clock (started w) + ms * 1000000) (started w) r w'"
  using assms wait_loop_outcome
  by (cases "ticks w") (auto simp: wait_for_response_def bind_io_def sys_now_def started_def)

end
