(* ===== verification/SenderDeadline.thy ===== *)
theory SenderDeadline
  imports SenderWait
begin

text \<open>
  The deadline reader on a stream that delivers some bytes in time and then stalls: the
  reader meets the interface of \<open>Framing\<close> with the time-out as the end of the stream, so
  \<open>wait_for_response\<close> can be run on any list of responses.
\<close>

section \<open>Streams that stall\<close>

text \<open>
  \<open>stalling dl fd k bs w\<close>: the bytes \<open>bs\<close> arrive on \<open>fd\<close>, cut into segments in any way, with
  interrupted polls, interrupted receives and spurious readiness in between, then \<open>poll\<close>
  times out. The clock stays before the deadline \<open>dl\<close> and has \<open>k\<close> readings to spare.
\<close>

definition poll_ready :: poll_event where
  "poll_ready = PollReturn [{POLLIN}]"

definition good_poll :: "poll_event \<Rightarrow> bool" where
  "good_poll pe \<longleftrightarrow> pe = poll_ready \<or> pe = PollFail EINTR"

definition ready_count :: "poll_event list \<Rightarrow> nat" where
  "ready_count ps = length (filter (\<lambda>pe. pe = poll_ready) ps)"

lemma ready_count_simps [simp]:
  "ready_count [] = 0" "ready_count (poll_ready # ps) = Suc (ready_count ps)"
  "ready_count (PollFail e # ps) = ready_count ps"
  by (simp_all add: ready_count_def poll_ready_def)

definition stall_script ::
  "fd \<Rightarrow> rx_event list \<Rightarrow> poll_event list \<Rightarrow> sender_world \<Rightarrow> bool" where
  "stall_script fd es ps w \<longleftrightarrow> list_all benign es \<and> list_all good_poll ps
     \<and> rx_size es \<le> ready_count ps
     \<and> (\<exists>j tail. rx (socks w fd) = es @ replicate j (RxFail EAGAIN) @ tail \<and> ready_count ps \<le> j)
     \<and> (\<exists>tail. polls w = ps @ PollReturn [{}] # tail)"

definition stalling :: "nat \<Rightarrow> fd \<Rightarrow> nat \<Rightarrow> bytes \<Rightarrow> sender_world \<Rightarrow> bool" where
  "stalling dl fd k bs w \<longleftrightarrow> clock w + sum_list (ticks w) < dl
     \<and> (\<exists>es ps. stall_script fd es ps w \<and> stream_bytes es = bs \<and> length ps + 1 + k \<le> length (ticks w))"

lemma sys_poll_one: "polls w = PollReturn rs # tail \<Longrightarrow>
    sys_poll [fd] t w = (Ok (Inr [revents_at rs 0]), w\<lparr>trace := trace w @ [Polled t], polls := tail\<rparr>)"
  by (simp add: sys_poll_def)

lemma revents_simps [simp]: "revents_at [r] 0 = r" "poll_count [{}] = 0" "r \<noteq> {} \<Longrightarrow> poll_count [r] = 1"
  by (simp_all add: revents_at_def poll_count_def)

text \<open>The three things one pass through the loop can do on such a stream.\<close>

lemma recv_pass_stalling:
  assumes "stalling dl fd k bs w" "0 < want"
  obtains (again) w' where "recv_pass dl fd want w = (Ok None, w')" "stalling dl fd k bs w'"
  | (more) got w' where "recv_pass dl fd want w = (Ok (Some got), w')" "got \<noteq> []" "length got \<le> want"
      "bs = got @ drop (length got) bs" "stalling dl fd k (drop (length got) bs) w'"
  | (timeout) w' where "bs = []" "recv_pass dl fd want w = (Throw ResponseTimeout, w')"
proof -
  from assms(1) obtain es ps where script: "stall_script fd es ps w" and bs: "stream_bytes es = bs"
    and len: "length ps + 1 + k \<le> length (ticks w)" and time: "clock w + sum_list (ticks w) < dl"
    by (auto simp: stalling_def)
  then obtain d ds where ticks: "ticks w = d # ds"
    by (cases "ticks w") auto
  let ?w1 = "w\<lparr>clock := clock w + d, ticks := ds\<rparr>"
  let ?t = "int (ceil_ms (dl - (clock w + d)))"
  have pass: "recv_pass dl fd want w = recv_ready fd want ?t ?w1"
    using ticks time by (simp add: recv_pass_def sys_now_def bind_io_def)
  from script obtain j rest ptail where es: "list_all benign es" "list_all good_poll ps"
    "rx_size es \<le> ready_count ps" "rx (socks w fd) = es @ replicate j (RxFail EAGAIN) @ rest"
    "ready_count ps \<le> j" "polls w = ps @ PollReturn [{}] # ptail"
    by (auto simp: stall_script_def)
  show thesis
  proof (cases ps)
    case Nil
    with es have "es = []"
      by (cases es; cases "hd es") auto
    with bs have "bs = []"
      by simp
    moreover have "\<exists>w'. recv_ready fd want ?t ?w1 = (Throw ResponseTimeout, w')"
      using es(6) Nil by (simp add: recv_ready_def sys_poll_one bind_io_def throw_def)
    ultimately show ?thesis
      using timeout pass by auto
  next
    case (Cons pe ps')
    have again_at: thesis
      if "recv_ready fd want ?t ?w1 = (Ok None, w')" "stall_script fd es' ps' w'" "stream_bytes es' = bs"
        "ticks w' = ds" "clock w' = clock w + d" for w' es'
    proof -
      have "stalling dl fd k bs w'"
        using that len time ticks Cons unfolding stalling_def by (auto intro!: exI [of _ es'] exI [of _ ps'])
      then show ?thesis
        using again pass that(1) by simp
    qed
    from es(2) Cons consider (intr) "pe = PollFail EINTR" | (ready) "pe = poll_ready"
      by (auto simp: good_poll_def)
    then show ?thesis
    proof cases
      case intr
      let ?w2 = "?w1\<lparr>trace := trace w @ [Polled ?t], polls := ps' @ PollReturn [{}] # ptail\<rparr>"
      have "recv_ready fd want ?t ?w1 = (Ok None, ?w2)"
        using es(6) Cons intr by (simp add: recv_ready_def sys_poll_def bind_io_def ret_def)
      moreover have "stall_script fd es ps' ?w2"
        using es Cons intr by (auto simp: stall_script_def)
      ultimately show ?thesis
        using again_at bs by simp
    next
      case ready
      let ?w2 = "?w1\<lparr>trace := trace w @ [Polled ?t], polls := ps' @ PollReturn [{}] # ptail\<rparr>"
      have poll: "sys_poll [fd] ?t ?w1 = (Ok (Inr [{POLLIN}]), ?w2)"
        using es(6) Cons ready by (simp add: sys_poll_def poll_ready_def)
      from es(5) Cons ready obtain j' where j: "j = Suc j'" "ready_count ps' \<le> j'"
        by (cases j) auto
      have jj: "\<exists>i tail. replicate j (RxFail EAGAIN) @ rest = replicate i (RxFail EAGAIN) @ tail \<and> ready_count ps' \<le> i"
        using j by (intro exI [of _ j] exI [of _ rest]) simp
      show ?thesis
      proof (cases es)
        case Nil
        let ?w3 = "set_rx fd (replicate j' (RxFail EAGAIN) @ rest) ?w2"
        have "sys_recv fd want ?w2 = (Ok (Inl EAGAIN), ?w3)"
          using es(4) Nil j by (simp add: sys_recv_def)
        then have "recv_ready fd want ?t ?w1 = (Ok None, ?w3)"
          using poll by (simp add: recv_ready_def bind_io_def ret_def)
        moreover have "stall_script fd [] ps' ?w3"
          using es j Cons ready by (auto simp: stall_script_def)
        ultimately show ?thesis
          using again_at [of ?w3 "[]"] bs Nil by (simp add: set_rx_def)
      next
        case (Cons e es')
        show ?thesis
        proof (cases e)
          case (Segment b)
          let ?es = "if length b \<le> want then es' else Segment (drop want b) # es'"
          let ?got = "take want b"
          let ?w3 = "set_rx fd (?es @ replicate j (RxFail EAGAIN) @ rest) ?w2"
          let ?w4 = "?w3\<lparr>locals := frame_bytes_update (\<lambda>k. k + length ?got) (locals ?w3)\<rparr>"
          have "b \<noteq> []"
            using es(1) Cons Segment by simp
          then have got: "?got \<noteq> []"
            using assms(2) by simp
          have "sys_recv fd want ?w2 = (Ok (Inr ?got), ?w3)"
            using es(4) Cons Segment by (simp add: sys_recv_def)
          then have run: "recv_pass dl fd want w = (Ok (Some ?got), ?w4)"
            using poll got pass by (simp add: recv_ready_def bind_io_def ret_def upd_local_def)
          have "stall_script fd ?es ps' ?w4"
            using es \<open>ps = pe # ps'\<close> ready Cons Segment \<open>b \<noteq> []\<close> jj assms(2)
            by (auto simp: stall_script_def set_rx_def)
          moreover have bs': "bs = ?got @ drop (length ?got) bs" "stream_bytes ?es = drop (length ?got) bs"
            using bs Cons Segment by (auto simp: min_def)
          ultimately have "stalling dl fd k (drop (length ?got) bs) ?w4"
            using len time ticks \<open>ps = pe # ps'\<close> unfolding stalling_def
            by (auto simp: set_rx_def intro!: exI [of _ ?es] exI [of _ ps'])
          then show ?thesis
            using more [OF run got] bs'(1) by simp
        next
          case Fin
          with es(1) Cons show ?thesis
            by simp
        next
          case (RxFail err)
          with es(1) Cons have err: "err = EINTR"
            by simp
          let ?w3 = "set_rx fd (es' @ replicate j (RxFail EAGAIN) @ rest) ?w2"
          have "sys_recv fd want ?w2 = (Ok (Inl EINTR), ?w3)"
            using es(4) Cons RxFail err by (simp add: sys_recv_def)
          then have "recv_ready fd want ?t ?w1 = (Ok None, ?w3)"
            using poll by (simp add: recv_ready_def bind_io_def ret_def)
          moreover have "stall_script fd es' ps' ?w3"
            using es \<open>ps = pe # ps'\<close> ready Cons RxFail jj by (auto simp: stall_script_def set_rx_def)
          ultimately show ?thesis
            using again_at [of ?w3 es'] bs Cons RxFail by (simp add: set_rx_def)
        qed
      qed
    qed
  qed
qed

lemma deadline_loop_stalling:
  assumes "stalling dl fd k bs w" "n = length buf + length bs'" "bs = bs' @ rest"
  shows "\<exists>w'. deadline_loop dl fd n buf w = (Ok (buf @ bs'), w') \<and> stalling dl fd k rest w'"
  using assms
proof (induction "length (ticks w)" arbitrary: w buf bs bs' rule: less_induct)
  case less
  show ?case
  proof (cases "bs' = []")
    case True
    with less.prems show ?thesis
      by (subst deadline_loop.simps) auto
  next
    case False
    then have pos: "0 < n - length buf" and short: "length buf < n"
      using less.prems(2) by simp_all
    from less.prems(1) pos show ?thesis
    proof (cases rule: recv_pass_stalling)
      case (again w')
      have "\<exists>w''. deadline_loop dl fd n buf w' = (Ok (buf @ bs'), w'') \<and> stalling dl fd k rest w''"
        by (rule less.hyps [OF recv_pass_less [OF again(1)] again(2) less.prems(2,3)])
      with again(1) short show ?thesis
        by (subst deadline_loop.simps) simp
    next
      case (more got w')
      have len: "length got \<le> length bs'"
        using more(3) less.prems(2) by simp
      have "got = take (length got) (bs' @ rest)"
        using arg_cong [OF more(4), of "take (length got)"] less.prems(3) by simp
      with len have got: "got = take (length got) bs'"
        by simp
      then have split: "bs' = got @ drop (length got) bs'"
        by (metis append_take_drop_id)
      have "\<exists>w''. deadline_loop dl fd n (buf @ got) w' = (Ok ((buf @ got) @ drop (length got) bs'), w'')
          \<and> stalling dl fd k rest w''"
        using len less.prems(2,3)
        by (intro less.hyps [OF recv_pass_less [OF more(1)] more(5)]) simp_all
      moreover have "(buf @ got) @ drop (length got) bs' = buf @ bs'"
        using split by simp
      ultimately show ?thesis
        using more(1) short by (subst deadline_loop.simps) simp
    next
      case (timeout w')
      with less.prems(3) False show ?thesis
        by simp
    qed
  qed
qed

lemma deadline_loop_stalled:
  assumes "stalling dl fd k bs w" "length buf + length bs < n"
  shows "\<exists>w'. deadline_loop dl fd n buf w = (Throw ResponseTimeout, w') \<and> reading dl fd bs w w'"
  using assms
proof (induction "length (ticks w)" arbitrary: w buf bs rule: less_induct)
  case less
  then have pos: "0 < n - length buf" and short: "length buf < n"
    by simp_all
  from less.prems(1) pos show ?case
  proof (cases rule: recv_pass_stalling)
    case (again w')
    have "\<exists>w''. deadline_loop dl fd n buf w' = (Throw ResponseTimeout, w'') \<and> reading dl fd bs w' w''"
      by (rule less.hyps [OF recv_pass_less [OF again(1)] again(2) less.prems(2)])
    moreover have "reading dl fd [] w w'"
      using recv_pass_reading [OF again(1) pos] by (auto simp: pass_result_def)
    ultimately show ?thesis
      using again(1) short by (subst deadline_loop.simps) (auto dest: reading_trans)
  next
    case (more got w')
    have "length (buf @ got) + length (drop (length got) bs) < n"
      using more(4) less.prems(2) by (metis add.assoc length_append)
    then have "\<exists>w''. deadline_loop dl fd n (buf @ got) w' = (Throw ResponseTimeout, w'')
        \<and> reading dl fd (drop (length got) bs) w' w''"
      by (rule less.hyps [OF recv_pass_less [OF more(1)] more(5)])
    then obtain w'' where w'': "deadline_loop dl fd n (buf @ got) w' = (Throw ResponseTimeout, w'')"
      "reading dl fd (drop (length got) bs) w' w''"
      by blast
    have "reading dl fd got w w'"
      using recv_pass_reading [OF more(1) pos] by (auto simp: pass_result_def)
    from reading_trans [OF this w''(2)] have "reading dl fd bs w w''"
      by (simp only: more(4) [symmetric])
    with more(1) short w''(1) show ?thesis
      by (subst deadline_loop.simps) simp
  next
    case (timeout w')
    then have "reading dl fd bs w w'"
      using recv_pass_reading [OF timeout(2) pos] by (auto simp: pass_result_def)
    with timeout short show ?thesis
      by (subst deadline_loop.simps) simp
  qed
qed

interpretation deadline: truncating_reader "sender_recv_exact fd dl" "stalling dl fd k" "reading dl fd" ResponseTimeout
  for dl k :: nat and fd :: fd
proof unfold_locales
  fix bs n and w :: sender_world
  assume st: "stalling dl fd k bs w"
  show "\<exists>w'. sender_recv_exact fd dl n w = (Ok (take n bs), w') \<and> stalling dl fd k (drop n bs) w'
      \<and> reading dl fd (take n bs) w w'" if "n \<le> length bs"
  proof -
    from deadline_loop_stalling [OF st, of n "[]" "take n bs" "drop n bs"] that obtain w' where
      w': "sender_recv_exact fd dl n w = (Ok (take n bs), w')" "stalling dl fd k (drop n bs) w'"
      by (auto simp: sender_recv_exact_def)
    from recv_exact_reading [OF w'(1)] w' show ?thesis
      by auto
  qed
  show "\<exists>w'. sender_recv_exact fd dl n w = (Throw ResponseTimeout, w') \<and> reading dl fd bs w w'"
    if "length bs < n"
    using deadline_loop_stalled [OF st, of "[]" n] that by (simp add: sender_recv_exact_def)
qed (rule reading_trans)

section \<open>The wait on such streams\<close>

lemma sys_now_stalling:
  assumes "stalling dl fd (Suc k) bs w"
  obtains now w1 where "sys_now w = (Ok now, w1)" "now < dl" "stalling dl fd k bs w1"
    "locals w1 = locals w" "trace w1 = trace w" "clock w1 = now"
proof -
  from assms obtain d ds where ticks: "ticks w = d # ds"
    by (cases "ticks w") (auto simp: stalling_def)
  show thesis
  proof (rule that)
    show "sys_now w = (Ok (clock w + d), w\<lparr>clock := clock w + d, ticks := ds\<rparr>)"
      using ticks by (simp add: sys_now_def)
    show "stalling dl fd k bs (w\<lparr>clock := clock w + d, ticks := ds\<rparr>)"
      using assms ticks unfolding stalling_def stall_script_def by auto
    show "clock w + d < dl"
      using assms ticks by (simp add: stalling_def)
  qed simp_all
qed

lemma stalling_locals [simp]:
  "stalling dl fd k bs (w\<lparr>locals := l\<rparr>) = stalling dl fd k bs w"
  "stalling dl fd k bs (w\<lparr>trace := t\<rparr>) = stalling dl fd k bs w"
  by (simp_all add: stalling_def stall_script_def)

text \<open>A response the wait has to skip.\<close>

definition old_response :: "(message_type \<times> u32) set \<Rightarrow> message_type \<Rightarrow> u32 \<Rightarrow> packet \<Rightarrow> bool" where
  "old_response done t s p \<longleftrightarrow> stale done p \<and> (type_of p = Ack \<or> type_of p = HeartbeatAck)
     \<and> (type_of p, sequence p) \<noteq> (t, s)"

lemma receive_before_frame:
  assumes "stalling dl fd k (frame p @ rest) w" "small p"
  obtains v where "receive_before fd dl w = (Ok (Some p), v)" "stalling dl fd k rest v"
    "completed (locals v) = completed (locals w)"
proof -
  let ?w0 = "w\<lparr>locals := frame_bytes_update (\<lambda>_. 0) (locals w)\<rparr>"
  have "stalling dl fd k (frame p @ rest) ?w0"
    using assms(1) by simp
  from deadline.receive_frame [OF this assms(2)] obtain v where
    "sender_receive_packet fd dl ?w0 = (Ok p, v)" "stalling dl fd k rest v" "reading dl fd (frame p) ?w0 v"
    by (auto simp: sender_receive_packet_def)
  with that show thesis
    by (simp add: receive_before_def bind_upd_local catch_io_def bind_io_Ok ret_def reading_def)
qed

lemma receive_before_partial:
  assumes "stalling dl fd k bs w" "strict_prefix bs (frame q)" "small q"
  shows "\<exists>v. receive_before fd dl w =
      (if bs = [] then (Ok None, v) else (Throw partial_response, discarded fd v))
    \<and> waiting dl fd bs w v"
proof -
  let ?w0 = "w\<lparr>locals := frame_bytes_update (\<lambda>_. 0) (locals w)\<rparr>"
  have "stalling dl fd k bs ?w0"
    using assms(1) by simp
  from deadline.receive_partial_frame [OF this assms(2,3)] obtain v where
    v: "sender_receive_packet fd dl ?w0 = (Throw ResponseTimeout, v)" "reading dl fd bs ?w0 v"
    by (auto simp: sender_receive_packet_def)
  then have "frame_bytes (locals v) = length bs"
    by (simp add: reading_def)
  with v(1) have "receive_before fd dl w =
      (if bs = [] then (Ok None, v) else (Throw partial_response, discarded fd v))"
    by (cases "bs = []")
      (simp_all add: receive_before_def bind_upd_local catch_io_def bind_io_Throw io_simps discarded_def)
  moreover have "waiting dl fd bs w v"
    using reading_waiting [OF v(2)] by (auto simp: waiting_def)
  ultimately show ?thesis
    by blast
qed

lemma wait_loop_skips:
  assumes "stalling dl fd (k + 2 * length ps) (concat (map frame ps) @ rest) w"
    and "list_all (old_response (completed (locals w)) t s) ps"
  shows "\<exists>w'. wait_loop fd t s dl w = wait_loop fd t s dl w' \<and> stalling dl fd k rest w'
    \<and> completed (locals w') = completed (locals w)"
  using assms
proof (induction ps arbitrary: w)
  case Nil
  then show ?case
    by auto
next
  case (Cons p ps)
  from Cons.prems(2) have p: "old_response (completed (locals w)) t s p" "small p"
    by (auto simp: old_response_def stale_def small_def)
  have "stalling dl fd (Suc (Suc (k + 2 * length ps))) (frame p @ (concat (map frame ps) @ rest)) w"
    using Cons.prems(1) by simp
  then obtain now w1 where w1: "sys_now w = (Ok now, w1)" "now < dl"
    "stalling dl fd (Suc (k + 2 * length ps)) (frame p @ (concat (map frame ps) @ rest)) w1"
    "locals w1 = locals w"
    by (rule sys_now_stalling)
  from w1(3) p(2) obtain v where v: "receive_before fd dl w1 = (Ok (Some p), v)"
    "stalling dl fd (Suc (k + 2 * length ps)) (concat (map frame ps) @ rest) v"
    "completed (locals v) = completed (locals w1)"
    by (rule receive_before_frame)
  from v(2) obtain now' v1 where v1: "sys_now v = (Ok now', v1)" "now' < dl"
    "stalling dl fd (k + 2 * length ps) (concat (map frame ps) @ rest) v1" "locals v1 = locals v"
    by (rule sys_now_stalling)
  let ?v2 = "v1\<lparr>trace := trace v1 @ [Line (IgnoredStaleResponse (sequence p))]\<rparr>"
  have "judge_response t s dl p v = (Ok None, ?v2)"
    using v1(1,2,4) p(1) v(3) w1(4)
    by (auto simp: judge_response_def bind_io_Ok io_simps old_response_def stale_def)
  then have "wait_loop fd t s dl w = wait_loop fd t s dl ?v2"
    using w1(1,2) v(1) by (subst wait_loop.simps) (simp add: wait_pass_def bind_io_Ok)
  moreover have "\<exists>w'. wait_loop fd t s dl ?v2 = wait_loop fd t s dl w' \<and> stalling dl fd k rest w'
      \<and> completed (locals w') = completed (locals ?v2)"
    using Cons.prems(2) v1(3,4) v(3) w1(4) by (intro Cons.IH) simp_all
  ultimately show ?case
    using v1(4) v(3) w1(4) by auto
qed

lemma wait_loop_accepts:
  assumes "stalling dl fd (Suc (Suc k)) (frame (response_packet t s) @ rest) w" "t = Ack \<or> t = HeartbeatAck"
  shows "\<exists>w'. wait_loop fd t s dl w = (Ok True, w') \<and> stalling dl fd k rest w'
    \<and> completed (locals w') = insert (t, s) (completed (locals w))"
proof -
  let ?p = "response_packet t s"
  from assms(1) obtain now w1 where w1: "sys_now w = (Ok now, w1)" "now < dl"
    "stalling dl fd (Suc k) (frame ?p @ rest) w1" "locals w1 = locals w"
    by (rule sys_now_stalling)
  have "small ?p"
    by (simp add: response_packet_def)
  with w1(3) obtain v where v: "receive_before fd dl w1 = (Ok (Some ?p), v)"
    "stalling dl fd (Suc k) rest v" "completed (locals v) = completed (locals w1)"
    by (rule receive_before_frame)
  from v(2) obtain now' v1 where v1: "sys_now v = (Ok now', v1)" "now' < dl"
    "stalling dl fd k rest v1" "locals v1 = locals v"
    by (rule sys_now_stalling)
  have "judge_response t s dl ?p v = (Ok (Some True), accept_response t s v1)"
    using v1(1,2) assms(2)
    by (auto simp: judge_response_def bind_io_Ok io_simps response_packet_def accept_response_def)
  then have "wait_loop fd t s dl w = (Ok True, accept_response t s v1)"
    using w1(1,2) v(1) by (subst wait_loop.simps) (simp add: wait_pass_def bind_io_Ok)
  then show ?thesis
    using v1(3,4) v(3) w1(4) by (simp add: accept_response_def)
qed

lemma wait_loop_stalls:
  assumes "stalling dl fd (Suc k) bs w" "strict_prefix bs (frame q)" "small q"
  shows "\<exists>v. wait_loop fd t s dl w =
      (if bs = [] then (Ok False, v) else (Throw partial_response, discarded fd v))
    \<and> completed (locals v) = completed (locals w)"
proof -
  from assms(1) obtain now w1 where w1: "sys_now w = (Ok now, w1)" "now < dl"
    "stalling dl fd k bs w1" "locals w1 = locals w"
    by (rule sys_now_stalling)
  from receive_before_partial [OF w1(3) assms(2,3)] obtain v where
    v: "receive_before fd dl w1 = (if bs = [] then (Ok None, v) else (Throw partial_response, discarded fd v))"
    "waiting dl fd bs w1 v"
    by blast
  then have "wait_loop fd t s dl w =
      (if bs = [] then (Ok False, v) else (Throw partial_response, discarded fd v))"
    using w1(1,2) by (subst wait_loop.simps) (simp add: wait_pass_def bind_io_def ret_def)
  with v(2) w1(4) show ?thesis
    by (auto simp: waiting_def)
qed

end
