(* ===== verification/Transmissions.thy ===== *)
theory Transmissions
  imports Streams
begin

text \<open>
  What an operation sends, as a list of messages: a relation on worlds that composes under
  sequencing, and the languages of messages an operation can send whatever its calls
  answer.
\<close>

definition is_sent :: "'l action \<Rightarrow> bool" where
  "is_sent a \<longleftrightarrow> (case a of Sent fd bs \<Rightarrow> True | SentTo fd addr bs \<Rightarrow> True | _ \<Rightarrow> False)"

text \<open>
  \<open>transmits T ps\<close>: everything sent between two worlds is one transmission of each of the
  messages \<open>ps\<close>, in that order; \<open>T p block\<close> says which actions are a transmission of \<open>p\<close>.
\<close>

definition transmits ::
  "('m \<Rightarrow> 'l action list \<Rightarrow> bool) \<Rightarrow> 'm list \<Rightarrow> ('l, 'p) world \<Rightarrow> ('l, 'p) world \<Rightarrow> bool" where
  "transmits T ps w w' \<longleftrightarrow> (\<exists>as blocks. trace w' = trace w @ as
     \<and> filter is_sent as = concat blocks \<and> list_all2 T ps blocks)"

lemma transmits_append:
  assumes "transmits T ps u v" "transmits T qs v w"
  shows "transmits T (ps @ qs) u w"
proof -
  from assms obtain as bs as' bs' where
    "trace v = trace u @ as" "filter is_sent as = concat bs" "list_all2 T ps bs"
    "trace w = trace v @ as'" "filter is_sent as' = concat bs'" "list_all2 T qs bs'"
    by (auto simp: transmits_def)
  then show ?thesis
    unfolding transmits_def
    by (intro exI [of _ "as @ as'"] exI [of _ "bs @ bs'"]) (auto intro: list_all2_appendI)
qed

lemma filter_none: "list_all (\<lambda>a. \<not> P a) as \<Longrightarrow> filter P as = []"
  by (induction as) auto

lemma transmits_none: "trace w' = trace w @ as \<Longrightarrow> list_all (\<lambda>a. \<not> is_sent a) as \<Longrightarrow> transmits T [] w w'"
  unfolding transmits_def by (auto simp: filter_none)

text \<open>\<open>emits T L m\<close>: whatever happens, the messages \<open>m\<close> transmits are one of the lists in \<open>L\<close>.\<close>

definition emits ::
  "('m \<Rightarrow> 'l action list \<Rightarrow> bool) \<Rightarrow> 'm list set \<Rightarrow> ('l, 'p, 'a) io \<Rightarrow> bool" where
  "emits T L m \<longleftrightarrow> (\<forall>w. \<exists>ps \<in> L. transmits T ps w (snd (m w)))"

definition conc :: "'m list set \<Rightarrow> 'm list set \<Rightarrow> 'm list set" where
  "conc A B = {ps @ qs |ps qs. ps \<in> A \<and> qs \<in> B}"

lemma concI: "ps \<in> A \<Longrightarrow> qs \<in> B \<Longrightarrow> ps @ qs \<in> conc A B"
  by (auto simp: conc_def)

lemma emits_mono: "emits T A m \<Longrightarrow> A \<subseteq> B \<Longrightarrow> emits T B m"
  unfolding emits_def by blast

lemma emits_bind:
  assumes m: "emits T A m" and f: "\<And>x. emits T B (f x)" and nil: "[] \<in> B"
  shows "emits T (conc A B) (bind_io m f)"
  unfolding emits_def
proof
  fix w
  obtain r v where run: "m w = (r, v)"
    by fastforce
  with m obtain ps where ps: "ps \<in> A" "transmits T ps w v"
    unfolding emits_def by (metis snd_conv)
  show "\<exists>ps \<in> conc A B. transmits T ps w (snd (bind_io m f w))"
  proof (cases r)
    case (Ok x)
    from f obtain qs where "qs \<in> B" "transmits T qs v (snd (f x v))"
      unfolding emits_def by blast
    with ps Ok run show ?thesis
      by (auto simp: bind_io_Ok intro: concI transmits_append)
  qed (use run ps concI [OF ps(1) nil] in \<open>auto simp: bind_io_def\<close>)
qed

lemma emits_catch:
  assumes m: "emits T A m" and h: "\<And>e k. h e = Some k \<Longrightarrow> emits T B k" and nil: "[] \<in> B"
  shows "emits T (conc A B) (catch_io m h)"
  unfolding emits_def
proof
  fix w
  obtain r v where run: "m w = (r, v)"
    by fastforce
  with m obtain ps where ps: "ps \<in> A" "transmits T ps w v"
    unfolding emits_def by (metis snd_conv)
  show "\<exists>ps \<in> conc A B. transmits T ps w (snd (catch_io m h w))"
  proof (cases "\<exists>e k. r = Throw e \<and> h e = Some k")
    case True
    then obtain e k where k: "r = Throw e" "h e = Some k"
      by blast
    from h [OF k(2)] obtain qs where "qs \<in> B" "transmits T qs v (snd (k v))"
      unfolding emits_def by blast
    with ps k run show ?thesis
      by (auto simp: catch_io_def intro: concI transmits_append)
  next
    case False
    with run have "snd (catch_io m h w) = v"
      by (cases r) (auto simp: catch_io_def split: option.splits)
    with ps concI [OF ps(1) nil] show ?thesis
      by auto
  qed
qed

lemma emits_silent: "within (appends (\<lambda>a. \<not> is_sent a)) m \<Longrightarrow> emits T {[]} m"
  unfolding emits_def within_def appends_def using transmits_none by blast

lemma is_sent_simps [simp]:
  "\<not> is_sent (Line l)" "\<not> is_sent (Closed fd)" "\<not> is_sent (ShutDown fd)" "\<not> is_sent (Slept n)"
  "\<not> is_sent (Polled t)" "is_sent (Sent fd bs)" "is_sent (SentTo fd a bs)"
  by (simp_all add: is_sent_def)

lemma emits_upd_local: "emits T {[]} (upd_local f)"
  unfolding emits_def upd_local_def by (auto intro: transmits_none [of _ _ "[]"])

lemma filter_only_sent: "only_sent fd as \<Longrightarrow> filter is_sent as = as"
  by (induction as) (auto simp: only_sent_def)

lemma conc_none [simp]: "conc {[]} A = A" "conc A {[]} = A"
  by (auto simp: conc_def)

lemma emits_silent_first: "emits T {[]} m \<Longrightarrow> (\<And>x. emits T B (f x)) \<Longrightarrow> [] \<in> B \<Longrightarrow> emits T B (bind_io m f)"
  using emits_bind [of T "{[]}" m B f] by simp

lemma emits_if: "(b \<Longrightarrow> emits T A m) \<Longrightarrow> (\<not> b \<Longrightarrow> emits T A m') \<Longrightarrow> emits T A (if b then m else m')"
  by simp

text \<open>Up to \<open>n\<close> transmissions of one message.\<close>

definition upto_times :: "nat \<Rightarrow> 'm \<Rightarrow> 'm list set" where
  "upto_times n p = {replicate a p |a. a \<le> n}"

lemma Nil_languages [simp]: "[] \<in> upto_times n p" "[] \<in> {[]}" "[] \<in> conc (upto_times n p) (upto_times m q)"
  by (auto simp: upto_times_def conc_def)

lemma conc_upto: "conc (upto_times m p) (upto_times n p) \<subseteq> upto_times (m + n) p"
  by (auto simp: conc_def upto_times_def) (metis add_mono replicate_add)

lemma emits_zero: "emits T {[]} m \<Longrightarrow> emits T (upto_times n p) m"
  by (erule emits_mono) simp

lemma emits_once_then:
  assumes m: "emits T {[p]} m" and f: "\<And>x. emits T (upto_times n p) (f x)"
  shows "emits T (upto_times (Suc n) p) (bind_io m f)"
proof -
  have "{[p]} \<subseteq> upto_times 1 p"
    by (auto simp: upto_times_def intro: exI [of _ 1])
  with m have "emits T (upto_times 1 p) m"
    by (rule emits_mono)
  from emits_bind [OF this, of "upto_times n p" f] f
  have "emits T (conc (upto_times 1 p) (upto_times n p)) (bind_io m f)"
    by simp
  moreover have "conc (upto_times 1 p) (upto_times n p) \<subseteq> upto_times (Suc n) p"
    using conc_upto [of 1 p n] by simp
  ultimately show ?thesis
    by (rule emits_mono)
qed

end
