(* ===== verification/SenderProgram.thy ===== *)
theory SenderProgram
  imports SenderDeadline Transmissions
begin

text \<open>
  The sender as a whole: which packets it can put on the wire and how often, what it has
  accepted when it reports success, how it reconnects, and how it ends.
\<close>

section \<open>Exceptions\<close>

lemma standard_iff: "standard e \<longleftrightarrow> e \<noteq> ResponseTimeout"
  by (cases e) simp_all

lemma standard_wait: "raises standard (wait_for_response fd t s ms)"
proof (rule raisesI)
  fix w e w'
  assume "wait_for_response fd t s ms w = (Throw e, w')"
  from wait_for_response_outcome [OF this] show "standard e"
    by (auto simp: wait_outcome_def wait_throws_def standard_iff)
qed

lemma standard_send_packet: "raises standard (sender_send_packet fd p)"
  unfolding sender_send_packet_def sender_send_all_def
  by (intro raises_bind raises_lift_codec raises_send_loop) (simp_all add: send_error_def)

lemma standard_connect_to_receiver: "raises standard connect_to_receiver"
  unfolding connect_to_receiver_def by (intro raises_rules) simp_all

lemma standard_connect_from: "raises standard (connect_from attempt)"
proof (induction attempt rule: connect_from.induct)
  case (1 attempt)
  have body: "raises standard (bind_io connect_to_receiver (\<lambda>fd.
      bind_io (cout (ConnectedToReceiver attempt)) (\<lambda>_. ret fd)))"
    by (intro raises_rules standard_connect_to_receiver)
  show ?case
  proof (subst connect_from.simps, intro raises_if raises_throw raises_catch [OF body])
    fix e k
    assume e: "standard e" "map_option (\<lambda>m. bind_io (cout (ConnectFailed attempt m)) (\<lambda>_.
        if attempt = kMaxReconnectAttempts then throw e
        else bind_io (sleep_ms (kReconnectDelaySec * 1000)) (\<lambda>_. connect_from (attempt + 1)))) (std_what e) = Some k"
    show "raises standard k"
    proof (cases "attempt < kMaxReconnectAttempts")
      case True
      obtain m where "std_what e = Some m"
        using e(2) by auto
      then have "raises standard (connect_from (attempt + 1))"
      proof (rule "1.IH" [rotated])
        show "attempt \<le> kMaxReconnectAttempts" "attempt \<noteq> kMaxReconnectAttempts"
          using True by simp_all
      qed
      with e show ?thesis
        by (auto intro!: raises_rules)
    next
      case False
      show ?thesis
      proof (cases "attempt = kMaxReconnectAttempts")
        case True
        with e show ?thesis
          by (auto intro!: raises_rules)
      next
        case False
        with \<open>\<not> attempt < kMaxReconnectAttempts\<close> have "connect_from (attempt + 1) = throw (RuntimeError (Msg ''reconnect failed''))"
          by (subst connect_from.simps) simp
        with e show ?thesis
          by (auto intro!: raises_rules)
      qed
    qed
  qed simp_all
qed

lemma standard_send_data_from: "raises standard (send_data_from fd attempt)"
proof (induction fd attempt rule: send_data_from.induct)
  case (1 fd attempt)
  show ?case
  proof (cases "attempt \<le> kMaxRetries + 1")
    case True
    then have "raises standard (send_data_from fd (attempt + 1))"
      using "1.IH" [OF True, of False] by simp
    then show ?thesis
      by (subst send_data_from.simps) (intro raises_rules standard_send_packet standard_wait)
  qed (subst send_data_from.simps, simp add: raises_ret)
qed

lemma standard_try_heartbeat: "raises standard (try_heartbeat fd s count)"
  unfolding try_heartbeat_def
proof (rule raises_catch)
  show "raises standard (bind_io (sender_send_packet fd (heartbeat_packet s)) (\<lambda>_.
        bind_io (cout (SentHeartbeat s count)) (\<lambda>_.
        bind_io (wait_for_response fd HeartbeatAck s kHeartbeatTimeoutMs) (\<lambda>ok.
        if \<not> ok then bind_io (cout (HeartbeatTimeout s)) (\<lambda>_. ret True)
        else ret False))))"
    by (intro raises_rules standard_send_packet standard_wait)
  fix e k
  assume "(case e of ConnectionLost m \<Rightarrow>
      Some (bind_io (cout (ConnectionLostDuringHeartbeat s m)) (\<lambda>_. ret True)) | _ \<Rightarrow> None) = Some k"
  then obtain m where "k = bind_io (cout (ConnectionLostDuringHeartbeat s m)) (\<lambda>_. ret True)"
    by (auto split: exn.splits)
  then show "raises standard k"
    by (simp only:) (intro raises_rules)
qed

lemma standard_heartbeats_from: "raises standard (heartbeats_from fd s count)"
proof (induction fd s count rule: heartbeats_from.induct)
  case (1 fd s count)
  have pass: "raises standard (heartbeat_pass fd s count)"
    unfolding heartbeat_pass_def reconnect_def connect_with_retry_def
    by (intro raises_rules standard_try_heartbeat standard_send_packet standard_wait standard_connect_from)
      simp_all
  show ?case
  proof (cases "count \<le> kHeartbeatCount")
    case True
    then have "raises standard (heartbeats_from fd' (s + 1) (count + 1))" for fd'
      by (rule "1.IH")
    then show ?thesis
      by (subst heartbeats_from.simps) (intro raises_rules pass)
  qed (subst heartbeats_from.simps, simp add: raises_ret)
qed

lemma standard_sender_body: "raises standard sender_body"
  unfolding sender_body_def connect_with_retry_def
  by (intro raises_rules standard_connect_from standard_send_data_from standard_heartbeats_from) simp_all

section \<open>What has been accepted\<close>

text \<open>Everything but the wait leaves the sender's variables alone.\<close>

abbreviation "any_action \<equiv> (\<lambda>_. True)"

lemma appendsD_locals: "within (appends Q) m \<Longrightarrow> m w = (r, w') \<Longrightarrow> locals w' = locals w"
  by (drule (1) withinD) (simp add: appends_def)

lemma appends_sender_send_packet:
  assumes "\<And>bs. Q (Sent fd bs)"
  shows "within (appends Q) (sender_send_packet fd p)"
  unfolding sender_send_packet_def sender_send_all_def
  by (intro appends.within_bind appends_lift_codec appends_send_loop assms)

lemma appends_sleep: "Q (Slept n) \<Longrightarrow> within (appends Q) (sleep_ms n)"
  by (simp add: sleep_ms_def appends_emit)

lemma appends_connect_to_receiver:
  assumes "\<And>fd. Q (Closed fd)"
  shows "within (appends Q) connect_to_receiver"
  unfolding connect_to_receiver_def
  by (intro appends.within_rules appends_calls appends_close assms)

lemma appends_connect_from:
  assumes "\<And>fd. Q (Closed fd)" "\<And>n. Q (Slept n)" "\<And>n. Q (Line (ConnectedToReceiver n))"
    and "\<And>n m. Q (Line (ConnectFailed n m))"
  shows "within (appends Q) (connect_from attempt)"
proof (induction attempt rule: connect_from.induct)
  case (1 attempt)
  have body: "within (appends Q) (bind_io connect_to_receiver (\<lambda>fd.
      bind_io (cout (ConnectedToReceiver attempt)) (\<lambda>_. ret fd)))"
    by (intro appends.within_rules appends_connect_to_receiver appends_cout assms)
  have "within (appends Q) k"
    if "attempt \<le> kMaxReconnectAttempts" "map_option (\<lambda>m. bind_io (cout (ConnectFailed attempt m)) (\<lambda>_.
        if attempt = kMaxReconnectAttempts then throw e
        else bind_io (sleep_ms (kReconnectDelaySec * 1000)) (\<lambda>_. connect_from (attempt + 1)))) (std_what e) = Some k"
    for e k
  proof -
    from that(2) obtain m where m: "std_what e = Some m"
      and k: "k = bind_io (cout (ConnectFailed attempt m)) (\<lambda>_.
        if attempt = kMaxReconnectAttempts then throw e
        else bind_io (sleep_ms (kReconnectDelaySec * 1000)) (\<lambda>_. connect_from (attempt + 1)))"
      by auto
    show ?thesis
    proof (cases "attempt = kMaxReconnectAttempts")
      case True
      then show ?thesis
        unfolding k by (simp add: appends.within_rules appends_cout assms)
    next
      case False
      from "1.IH" [OF that(1) m False] show ?thesis
        unfolding k by (intro appends.within_rules appends_cout appends_sleep assms)
    qed
  qed
  note handlers = this
  show ?case
  proof (cases "attempt \<le> kMaxReconnectAttempts")
    case True
    show ?thesis
      by (subst connect_from.simps, subst if_P [OF True])
        (rule appends.within_catch [OF body handlers [OF True]])
  next
    case False
    then show ?thesis
      by (subst connect_from.simps) (simp add: appends.within_throw)
  qed
qed

lemma appends_connect_with_retry:
  "(\<And>fd. Q (Closed fd)) \<Longrightarrow> (\<And>n. Q (Slept n)) \<Longrightarrow> (\<And>n. Q (Line (ConnectedToReceiver n))) \<Longrightarrow>
    (\<And>n m. Q (Line (ConnectFailed n m))) \<Longrightarrow> within (appends Q) connect_with_retry"
  unfolding connect_with_retry_def by (rule appends_connect_from)

abbreviation "accepted w \<equiv> completed (locals (w :: sender_world))"

text \<open>A wait records the response it was asked for, exactly when it returns \<open>true\<close>.\<close>

lemma completed_wait:
  assumes "wait_for_response fd t s ms w = (r, w')"
  shows "completed (locals w') =
    (if r = Ok True then insert (t, s) (completed (locals w)) else completed (locals w))"
  using wait_for_response_outcome [OF assms]
proof
  assume "wait_outcome fd t s (clock (started w) + ms * 1000000) (started w) r w'"
  then obtain got v where v: "accepted v = accepted w" and r: "case r of
      Ok True \<Rightarrow> w' = accept_response t s v | Ok False \<Rightarrow> w' = v
    | Throw e \<Rightarrow> wait_throws fd got e v w' | Blocked \<Rightarrow> w' = v"
    unfolding wait_outcome_def waiting_def by (cases r) (auto simp: started_def split: bool.splits)
  show ?thesis
  proof (cases r)
    case (Ok b)
    with v r show ?thesis
      by (cases b) (simp_all add: accept_response_def)
  next
    case (Throw e)
    with v r show ?thesis
      by (auto simp: wait_throws_def discarded_def split: if_splits)
  qed (use v r in simp)
qed simp


lemma accepted_send_packet: "sender_send_packet fd p w = (r, w') \<Longrightarrow> accepted w' = accepted w"
  using appendsD_locals [OF appends_sender_send_packet [of any_action]] by simp

lemma accepted_connect: "connect_with_retry w = (r, w') \<Longrightarrow> accepted w' = accepted w"
  using appendsD_locals [OF appends_connect_with_retry [of any_action]] by simp

lemma accepted_try_heartbeat:
  assumes "try_heartbeat fd s count w = (Ok reconnect_required, w')"
  shows "accepted w' = (if reconnect_required then accepted w else insert (HeartbeatAck, s) (accepted w))"
proof -
  obtain x w1 where send: "sender_send_packet fd (heartbeat_packet s) w = (x, w1)"
    by fastforce
  note same = accepted_send_packet [OF send]
  show ?thesis
  proof (cases x)
    case (Ok u)
    let ?w2 = "w1\<lparr>trace := trace w1 @ [Line (SentHeartbeat s count)]\<rparr>"
    obtain y w3 where wait: "wait_for_response fd HeartbeatAck s kHeartbeatTimeoutMs ?w2 = (y, w3)"
      by fastforce
    define g :: "bool \<Rightarrow> bool sender_io" where "g ok = (if \<not> ok then bind_io (cout (HeartbeatTimeout s)) (\<lambda>_. ret True) else ret False)"
      for ok :: bool
    have body: "bind_io (sender_send_packet fd (heartbeat_packet s)) (\<lambda>_. bind_io (cout (SentHeartbeat s count)) (\<lambda>_.
        bind_io (wait_for_response fd HeartbeatAck s kHeartbeatTimeoutMs) g)) w =
      bind_io (wait_for_response fd HeartbeatAck s kHeartbeatTimeoutMs) g ?w2"
      using send Ok by (simp add: bind_io_Ok bind_cout)
    have g: "g ok v = (Ok (\<not> ok), if ok then v else v\<lparr>trace := trace v @ [Line (HeartbeatTimeout s)]\<rparr>)" for ok v
      by (simp add: g_def io_simps)
    note run = assms [unfolded try_heartbeat_def catch_io_def g_def [symmetric] body]
    note c = completed_wait [OF wait]
    show ?thesis
    proof (cases y)
      case (Ok ok)
      with run wait g c same show ?thesis
        by (auto simp: bind_io_Ok split: if_splits)
    next
      case (Throw e)
      with run wait c same show ?thesis
        by (auto simp: bind_io_Throw io_simps split: exn.splits)
    next
      case Blocked
      with run wait show ?thesis
        by (simp add: bind_io_Blocked)
    qed
  next
    case (Throw e)
    have body: "bind_io (sender_send_packet fd (heartbeat_packet s)) f w = (Throw e, w1)" for f :: "unit \<Rightarrow> bool sender_io"
      using send Throw by (simp add: bind_io_Throw)
    note run = assms [unfolded try_heartbeat_def catch_io_def body]
    show ?thesis
    proof (cases e)
      case (ConnectionLost m)
      from run have "reconnect_required \<and> accepted w' = accepted w1"
        by (auto simp: ConnectionLost bind_cout ret_def)
      with same show ?thesis
        by simp
    qed (use run in simp_all)
  next
    case Blocked
    have body: "bind_io (sender_send_packet fd (heartbeat_packet s)) f w = (Blocked, w1)" for f :: "unit \<Rightarrow> bool sender_io"
      using send Blocked by (simp add: bind_io_Blocked)
    from assms [unfolded try_heartbeat_def catch_io_def body] show ?thesis
      by simp
  qed
qed

lemma accepted_reconnect:
  assumes "reconnect fd s w = (Ok fd', w')"
  shows "accepted w' = insert (HeartbeatAck, s) (accepted w)"
proof -
  from assms obtain w1 w2 w3 where
    "connect_with_retry w1 = (Ok fd', w2)" "accepted w1 = accepted w"
    "sender_send_packet fd' (heartbeat_packet s) w2 = (Ok (), w3)"
    "wait_for_response fd' HeartbeatAck s kHeartbeatTimeoutMs
       (w3\<lparr>trace := trace w3 @ [Line (ResentHeartbeat s)]\<rparr>) = (Ok True, w')"
    by (auto simp: reconnect_def io_simps bind_io_eq_Ok split: if_splits)
  then show ?thesis
    using completed_wait accepted_connect accepted_send_packet by fastforce
qed

lemma accepted_heartbeat_pass:
  assumes "heartbeat_pass fd s count w = (Ok fd', w')"
  shows "accepted w' = insert (HeartbeatAck, s) (accepted w)"
proof -
  from assms obtain b w1 w2 where
    "try_heartbeat fd s count (w\<lparr>trace := trace w @ [Slept (kHeartbeatIntervalSec * 1000)]\<rparr>) = (Ok b, w1)"
    "(if b then reconnect fd s else ret fd) w1 = (Ok fd', w2)" "accepted w' = accepted w2"
    by (auto simp: heartbeat_pass_def io_simps bind_io_eq_Ok)
  then show ?thesis
    using accepted_try_heartbeat accepted_reconnect
    by (cases b) (fastforce simp: ret_def)+
qed

lemma accepted_send_data_from:
  "send_data_from fd attempt w = (Ok b, w') \<Longrightarrow> accepted w' =
     (if b then insert (Ack, 1) (accepted w) else accepted w)"
proof (induction fd attempt arbitrary: w rule: send_data_from.induct)
  case (1 fd attempt)
  note run = "1.prems" [unfolded send_data_from.simps [of fd attempt]]
  show ?case
  proof (cases "attempt \<le> kMaxRetries + 1")
    case True
    with run obtain w1 ok w2 where
      send: "sender_send_packet fd data_packet w = (Ok (), w1)" and
      wait: "wait_for_response fd Ack (sequence data_packet) kAckTimeoutMs
         (w1\<lparr>trace := trace w1 @ [Line (SentData (sequence data_packet) attempt message)]\<rparr>) = (Ok ok, w2)" and
      rest: "(if ok then bind_io (cout (ReceivedAck (sequence data_packet))) (\<lambda>_. ret True)
         else bind_io (cout (AckTimeout (sequence data_packet))) (\<lambda>_. send_data_from fd (attempt + 1))) w2 = (Ok b, w')"
      by (auto simp: io_simps bind_io_eq_Ok)
    from accepted_send_packet [OF send] completed_wait [OF wait]
    have w2: "accepted w2 = (if ok then insert (Ack, 1) (accepted w) else accepted w)"
      by (simp add: data_packet_def)
    show ?thesis
    proof (cases ok)
      case True
      with rest w2 show ?thesis
        by (auto simp: io_simps)
    next
      case False
      with rest have "send_data_from fd (attempt + 1)
          (w2\<lparr>trace := trace w2 @ [Line (AckTimeout (sequence data_packet))]\<rparr>) = (Ok b, w')"
        by (simp add: io_simps)
      from "1.IH" [OF \<open>attempt \<le> kMaxRetries + 1\<close> False this] w2 False show ?thesis
        by simp
    qed
  next
    case False
    with run show ?thesis
      by (simp add: ret_def)
  qed
qed

fun heartbeat_acks :: "u32 \<Rightarrow> nat \<Rightarrow> (message_type \<times> u32) set" where
  "heartbeat_acks s 0 = {}"
| "heartbeat_acks s (Suc n) = insert (HeartbeatAck, s) (heartbeat_acks (s + 1) n)"

lemma accepted_heartbeats_from:
  "heartbeats_from fd s count w = (Ok fd', w') \<Longrightarrow>
     accepted w' = accepted w \<union> heartbeat_acks s (kHeartbeatCount + 1 - count)"
proof (induction fd s count arbitrary: w rule: heartbeats_from.induct)
  case (1 fd s count)
  note run = "1.prems" [unfolded heartbeats_from.simps [of fd s count]]
  show ?case
  proof (cases "count \<le> kHeartbeatCount")
    case True
    with run obtain fd1 w1 where pass: "heartbeat_pass fd s count w = (Ok fd1, w1)"
      and rest: "heartbeats_from fd1 (s + 1) (count + 1) w1 = (Ok fd', w')"
      by (auto simp: bind_io_eq_Ok)
    have "kHeartbeatCount + 1 - count = Suc (kHeartbeatCount + 1 - (count + 1))"
      using True by simp
    with "1.IH" [OF True rest] accepted_heartbeat_pass [OF pass] show ?thesis
      by (simp del: diff_Suc_Suc)
  next
    case False
    with run show ?thesis
      by (simp add: ret_def)
  qed
qed

lemma sender_body_success:
  assumes "sender_body w = (Ok c, w')"
  shows "c = 0 \<and> accepted w' = {(Ack, 1), (HeartbeatAck, 2), (HeartbeatAck, 3), (HeartbeatAck, 4)}"
proof -
  from assms obtain fd w1 w2 fd' w3 where c: "c = 0" and
    data: "send_data_from fd 1 (w1\<lparr>locals := completed_update (\<lambda>_. {}) (locals w1)\<rparr>) = (Ok True, w2)" and
    beats: "heartbeats_from fd 2 1 w2 = (Ok fd', w3)" and w': "accepted w' = accepted w3"
    by (auto simp: sender_body_def io_simps bind_io_eq_Ok split: if_splits)
  from accepted_send_data_from [OF data] have "accepted w2 = {(Ack, 1)}"
    by simp
  with accepted_heartbeats_from [OF beats] c w' show ?thesis
    by (auto simp: kHeartbeatCount_def eval_nat_numeral)
qed

section \<open>What goes on the wire\<close>

text \<open>
  A transmission of a packet is a run of \<open>send\<close>s on one descriptor whose bytes are a prefix
  of its frame.
\<close>

definition transmission :: "packet \<Rightarrow> 'l action list \<Rightarrow> bool" where
  "transmission p as \<longleftrightarrow> (\<exists>fd. only_sent fd as \<and> prefix (wire_out fd as) (frame p))"

lemma emits_none:
  "emits transmission {[]} (ret x)" "emits transmission {[]} (throw e)" "emits transmission {[]} (cout l)" "emits transmission {[]} (sys_close fd)"
  "emits transmission {[]} (sleep_ms n)" "emits transmission {[]} connect_with_retry"
  by (intro emits_silent appends.within_ret appends.within_throw appends_cout appends_close appends_sleep
      appends_connect_with_retry; simp)+

lemma wait_action_silent: "list_all (wait_action m) as \<Longrightarrow> list_all (\<lambda>a. \<not> is_sent a) as"
  by (auto simp: list_all_iff wait_action_def is_sent_def split: action.splits)

lemma emits_wait: "emits transmission {[]} (wait_for_response fd t s ms)"
proof -
  have "transmits transmission [] w w'" if run: "wait_for_response fd t s ms w = (r, w')" for w r w'
    using wait_for_response_outcome [OF run]
  proof
    assume "wait_outcome fd t s (clock (started w) + ms * 1000000) (started w) r w'"
    then obtain got v as where v: "trace v = trace w @ as" "list_all (\<lambda>a. \<not> is_sent a) as" and r: "case r of
        Ok True \<Rightarrow> w' = accept_response t s v | Ok False \<Rightarrow> w' = v
      | Throw e \<Rightarrow> wait_throws fd got e v w' | Blocked \<Rightarrow> w' = v"
      unfolding wait_outcome_def waiting_def
      by (cases r) (auto simp: started_def split: bool.splits dest!: wait_action_silent)
    then have "trace w' = trace w @ as \<or> trace w' = trace w @ (as @ [ShutDown fd, Closed fd])"
      by (cases r) (auto simp: accept_response_def wait_throws_def discarded_def split: bool.splits if_splits)
    with v(2) show ?thesis
      using transmits_none [of w' w] by fastforce
  qed (auto intro: transmits_none [of _ _ "[]"])
  then show ?thesis
    unfolding emits_def by (metis insertI1 prod.collapse)
qed

lemma emits_send_packet: "small p \<Longrightarrow> emits transmission {[p]} (sender_send_packet fd p)"
  unfolding emits_def
proof
  fix w
  assume "small p"
  obtain r w' where run: "sender_send_packet fd p w = (r, w')"
    by fastforce
  with \<open>small p\<close> have "sends fd (frame p) w r w'"
    using send_loop_sends [of 0 "frame p"]
    by (auto simp: sender_send_packet_def sender_send_all_def encode_small bind_ret)
  then obtain es as where as: "w' = set_tx fd es (w\<lparr>trace := trace w @ as\<rparr>)" "only_sent fd as"
    "prefix (wire_out fd as) (frame p)"
    by (auto simp: sends_def)
  have "transmits transmission [p] w w'"
    unfolding transmits_def
    by (intro exI [of _ as] exI [of _ "[as]"])
      (use as filter_only_sent in \<open>auto simp: transmission_def\<close>)
  with run show "\<exists>ps \<in> {[p]}. transmits transmission ps w (snd (sender_send_packet fd p w))"
    by simp
qed

text \<open>The transmissions of the heartbeats from \<open>s\<close> on.\<close>

fun beats :: "u32 \<Rightarrow> nat list \<Rightarrow> packet list" where
  "beats s [] = []"
| "beats s (n # ns) = replicate n (heartbeat_packet s) @ beats (s + 1) ns"

definition beat_runs :: "u32 \<Rightarrow> nat \<Rightarrow> packet list set" where
  "beat_runs s m = {beats s ns |ns. length ns \<le> m \<and> list_all (\<lambda>n. n \<le> 2) ns}"

lemma Nil_beat_runs [simp]: "[] \<in> beat_runs s m"
  by (auto simp: beat_runs_def intro: exI [of _ "[]"])

lemma conc_beats: "conc (upto_times 2 (heartbeat_packet s)) (beat_runs (s + 1) m) \<subseteq> beat_runs s (Suc m)"
proof
  fix x
  assume "x \<in> conc (upto_times 2 (heartbeat_packet s)) (beat_runs (s + 1) m)"
  then obtain a ns where "x = beats s (a # ns)" "a \<le> 2" "length ns \<le> m" "list_all (\<lambda>n. n \<le> 2) ns"
    by (auto simp: conc_def upto_times_def beat_runs_def)
  then show "x \<in> beat_runs s (Suc m)"
    unfolding beat_runs_def by (intro CollectI exI [of _ "a # ns"]) simp
qed

lemma emits_send_then:
  assumes "small p" "\<And>x. emits transmission (upto_times n p) (f x)"
  shows "emits transmission (upto_times (Suc n) p) (bind_io (sender_send_packet fd p) f)"
  using assms by (intro emits_once_then emits_send_packet)

lemma small_requests [simp]: "small data_packet" "small (heartbeat_packet s)"
  by (simp_all add: small_def data_packet_def heartbeat_packet_def message_def kMaxPayloadSize_def)

lemma emits_send_data_from: "emits transmission (upto_times (kMaxRetries + 2 - attempt) data_packet) (send_data_from fd attempt)"
proof (induction fd attempt rule: send_data_from.induct)
  case (1 fd attempt)
  show ?case
  proof (cases "attempt \<le> kMaxRetries + 1")
    case True
    then have n: "kMaxRetries + 2 - attempt = Suc (kMaxRetries + 2 - (attempt + 1))"
      by simp
    have again: "emits transmission (upto_times (kMaxRetries + 2 - (attempt + 1)) data_packet) (send_data_from fd (attempt + 1))"
      using "1.IH" [OF True, of False] by simp
    show ?thesis
      unfolding n
      by (subst send_data_from.simps, subst if_P [OF True])
        (intro emits_send_then emits_silent_first emits_wait emits_none emits_if again emits_zero; simp)
  next
    case False
    then show ?thesis
      by (subst send_data_from.simps) (simp add: emits_zero emits_none)
  qed
qed

lemma emits_try_heartbeat: "emits transmission (upto_times 1 (heartbeat_packet s)) (try_heartbeat fd s count)"
proof -
  have "emits transmission (conc (upto_times (Suc 0) (heartbeat_packet s)) {[]}) (try_heartbeat fd s count)"
    unfolding try_heartbeat_def
  proof (rule emits_catch)
    show "emits transmission (upto_times (Suc 0) (heartbeat_packet s)) (bind_io (sender_send_packet fd (heartbeat_packet s)) (\<lambda>_.
        bind_io (cout (SentHeartbeat s count)) (\<lambda>_.
        bind_io (wait_for_response fd HeartbeatAck s kHeartbeatTimeoutMs) (\<lambda>ok.
        if \<not> ok then bind_io (cout (HeartbeatTimeout s)) (\<lambda>_. ret True)
        else ret False))))"
      by (intro emits_send_then emits_silent_first emits_wait emits_none emits_if emits_zero; simp)
    fix e k
    assume "(case e of ConnectionLost m \<Rightarrow>
        Some (bind_io (cout (ConnectionLostDuringHeartbeat s m)) (\<lambda>_. ret True)) | _ \<Rightarrow> None) = Some k"
    then obtain m where "k = bind_io (cout (ConnectionLostDuringHeartbeat s m)) (\<lambda>_. ret True)"
      by (auto split: exn.splits)
    then show "emits transmission {[]} k"
      by (simp only:) (intro emits_silent_first emits_none; simp)
  qed simp
  then show ?thesis
    by simp
qed

lemma emits_reconnect: "emits transmission (upto_times 1 (heartbeat_packet s)) (reconnect fd s)"
  unfolding reconnect_def One_nat_def
  by (intro emits_silent_first emits_send_then emits_wait emits_none emits_if emits_zero; simp)

lemma emits_heartbeat_pass: "emits transmission (upto_times 2 (heartbeat_packet s)) (heartbeat_pass fd s count)"
proof -
  let ?p = "heartbeat_packet s"
  have rest: "emits transmission (upto_times 1 ?p) (bind_io (if b then reconnect fd s else ret fd) (\<lambda>fd'.
      bind_io (cout (ReceivedHeartbeatAck s)) (\<lambda>_. ret fd')))" for b
  proof -
    have "emits transmission (upto_times 1 ?p) (if b then reconnect fd s else ret fd)"
      by (intro emits_if emits_reconnect emits_zero emits_none)
    moreover have "emits transmission {[]} (bind_io (cout (ReceivedHeartbeatAck s)) (\<lambda>_. ret fd'))" for fd'
      by (intro emits_silent_first emits_none; simp)
    ultimately show ?thesis
      using emits_bind [of transmission "upto_times 1 ?p" _ "{[]}"] by fastforce
  qed
  have "emits transmission (conc (upto_times 1 ?p) (upto_times 1 ?p)) (bind_io (try_heartbeat fd s count) (\<lambda>b.
      bind_io (if b then reconnect fd s else ret fd) (\<lambda>fd'.
      bind_io (cout (ReceivedHeartbeatAck s)) (\<lambda>_. ret fd'))))"
    by (intro emits_bind emits_try_heartbeat rest) simp
  then have "emits transmission (upto_times (1 + 1) ?p) (bind_io (try_heartbeat fd s count) (\<lambda>b.
      bind_io (if b then reconnect fd s else ret fd) (\<lambda>fd'.
      bind_io (cout (ReceivedHeartbeatAck s)) (\<lambda>_. ret fd'))))"
    by (rule emits_mono) (rule conc_upto)
  then have all: "emits transmission (upto_times 2 ?p) (bind_io (try_heartbeat fd s count) (\<lambda>b.
      bind_io (if b then reconnect fd s else ret fd) (\<lambda>fd'.
      bind_io (cout (ReceivedHeartbeatAck s)) (\<lambda>_. ret fd'))))"
    by (simp only: one_add_one)
  show ?thesis
    unfolding heartbeat_pass_def by (rule emits_silent_first [OF emits_none(5) all]) simp
qed

lemma emits_heartbeats_from: "emits transmission (beat_runs s (kHeartbeatCount + 1 - count)) (heartbeats_from fd s count)"
proof (induction fd s count rule: heartbeats_from.induct)
  case (1 fd s count)
  show ?case
  proof (cases "count \<le> kHeartbeatCount")
    case True
    then have n: "kHeartbeatCount + 1 - count = Suc (kHeartbeatCount + 1 - (count + 1))"
      by simp
    have "emits transmission (conc (upto_times 2 (heartbeat_packet s)) (beat_runs (s + 1) (kHeartbeatCount + 1 - (count + 1))))
        (bind_io (heartbeat_pass fd s count) (\<lambda>fd'. heartbeats_from fd' (s + 1) (count + 1)))"
      using "1.IH" [OF True] by (intro emits_bind emits_heartbeat_pass) simp_all
    then have "emits transmission (beat_runs s (Suc (kHeartbeatCount + 1 - (count + 1))))
        (bind_io (heartbeat_pass fd s count) (\<lambda>fd'. heartbeats_from fd' (s + 1) (count + 1)))"
      by (rule emits_mono) (rule conc_beats)
    then show ?thesis
      unfolding n by (subst heartbeats_from.simps, subst if_P [OF True])
  next
    case False
    have "emits transmission (beat_runs s m) (ret fd :: fd sender_io)" for m
      using emits_none(1) by (rule emits_mono) simp
    with False show ?thesis
      by (subst heartbeats_from.simps) simp
  qed
qed

definition sender_language :: "packet list set" where
  "sender_language = conc (upto_times 4 data_packet) (beat_runs 2 3)"

lemma emits_sender_main: "emits transmission sender_language sender_main"
proof -
  have data: "emits transmission (upto_times 4 data_packet) (send_data_from fd 1)" for fd
    using emits_send_data_from [of 1 fd] by (simp add: kMaxRetries_def)
  have beats: "emits transmission (beat_runs 2 3) (heartbeats_from fd 2 1)" for fd
    using emits_heartbeats_from [of 2 1 fd] by (simp add: kHeartbeatCount_def)
  have zero: "emits transmission {[]} m \<Longrightarrow> emits transmission (beat_runs 2 3) m" for m :: "'a sender_io"
    by (erule emits_mono) simp
  have close: "emits transmission {[]} (bind_io (sys_close fd) (\<lambda>_. ret (0::int)) :: int sender_io)" for fd
    by (intro emits_silent_first emits_none; simp)
  have tail: "emits transmission (conc (beat_runs 2 3) {[]}) (bind_io (heartbeats_from fd 2 1) (\<lambda>fd'. bind_io (sys_close fd') (\<lambda>_. ret (0::int))))" for fd
    by (intro emits_bind beats close) simp
  have rest: "emits transmission sender_language (bind_io (send_data_from fd 1) (\<lambda>acknowledged.
      if \<not> acknowledged then throw (RuntimeError (Msg ''ACK retry limit exceeded''))
      else bind_io (heartbeats_from fd 2 1) (\<lambda>fd'. bind_io (sys_close fd') (\<lambda>_. ret (0::int)))))" for fd
    unfolding sender_language_def
    using tail by (intro emits_bind data emits_if) (simp_all add: zero emits_none)
  have nil: "[] \<in> sender_language"
    using concI [of "[]" "upto_times 4 data_packet" "[]" "beat_runs 2 3"] by (simp add: sender_language_def)
  have body: "emits transmission sender_language sender_body"
    unfolding sender_body_def
    by (rule emits_silent_first [OF emits_none(6) emits_silent_first [OF emits_upd_local rest nil] nil])
  have handler: "emits transmission {[]} k"
    if "map_option (\<lambda>m. bind_io (cout (SenderError m)) (\<lambda>_. ret (1::int))) (std_what e) = Some k" for e and k :: "int sender_io"
    using that by (auto intro!: emits_silent_first emits_none)
  have "emits transmission (conc sender_language {[]}) sender_main"
    unfolding sender_main_def by (rule emits_catch [OF body handler insertI1])
  then show ?thesis
    by simp
qed

section \<open>Connection attempts\<close>

fun failures :: "nat \<Rightarrow> what list \<Rightarrow> sender_line action list" where
  "failures attempt [] = []"
| "failures attempt (m # ms) = Line (ConnectFailed attempt m)
     # (if attempt = kMaxReconnectAttempts then [] else [Slept (kReconnectDelaySec * 1000)])
     @ failures (attempt + 1) ms"

definition is_close :: "'l action \<Rightarrow> bool" where
  "is_close a \<longleftrightarrow> (\<exists>fd. a = Closed fd)"

definition attempts :: "nat \<Rightarrow> fd result \<Rightarrow> sender_world \<Rightarrow> sender_world \<Rightarrow> bool" where
  "attempts attempt r w w' \<longleftrightarrow> (\<exists>ms as. trace w' = trace w @ as
     \<and> filter (\<lambda>a. \<not> is_close a) as = failures attempt ms @
         (case r of Ok fd \<Rightarrow> [Line (ConnectedToReceiver (attempt + length ms))] | _ \<Rightarrow> [])
     \<and> (case r of Throw e \<Rightarrow> attempt + length ms = kMaxReconnectAttempts + 1 \<and> std_what e = Some (last ms)
        | _ \<Rightarrow> attempt + length ms \<le> kMaxReconnectAttempts))"

lemma connect_to_receiver_closes:
  assumes "connect_to_receiver w = (r, w')"
  obtains as where "trace w' = trace w @ as" "filter (\<lambda>a. \<not> is_close a) as = []"
proof -
  have "within (appends is_close) connect_to_receiver"
    by (rule appends_connect_to_receiver) (simp add: is_close_def)
  from withinD [OF this assms] obtain as where "trace w' = trace w @ as" "list_all is_close as"
    by (auto simp: appends_def)
  with that show thesis
    by (auto simp: list_all_iff filter_empty_conv)
qed

lemma connect_from_unfold:
  assumes "attempt \<le> kMaxReconnectAttempts" "connect_to_receiver w = (x, w1)"
  shows "connect_from attempt w = (case x of
      Ok fd \<Rightarrow> (Ok fd, w1\<lparr>trace := trace w1 @ [Line (ConnectedToReceiver attempt)]\<rparr>)
    | Throw e \<Rightarrow> (case std_what e of None \<Rightarrow> (Throw e, w1) | Some m \<Rightarrow>
        (let w2 = w1\<lparr>trace := trace w1 @ [Line (ConnectFailed attempt m)]\<rparr> in
         if attempt = kMaxReconnectAttempts then (Throw e, w2)
         else connect_from (attempt + 1) (w2\<lparr>trace := trace w2 @ [Slept (kReconnectDelaySec * 1000)]\<rparr>)))
    | Blocked \<Rightarrow> (Blocked, w1))"
  using assms
  by (cases x) (subst connect_from.simps;
    simp add: catch_io_def bind_io_Ok bind_io_Throw bind_io_Blocked io_simps Let_def split: option.splits)+

lemma connect_from_attempts:
  "attempt \<le> kMaxReconnectAttempts \<Longrightarrow> connect_from attempt w = (r, w') \<Longrightarrow> attempts attempt r w w'"
proof (induction "kMaxReconnectAttempts - attempt" arbitrary: attempt w rule: less_induct)
  case less
  obtain x w1 where conn: "connect_to_receiver w = (x, w1)"
    by fastforce
  obtain as where as: "trace w1 = trace w @ as" "filter (\<lambda>a. \<not> is_close a) as = []"
    by (rule connect_to_receiver_closes [OF conn])
  note run = less.prems(2) [unfolded connect_from_unfold [OF less.prems(1) conn]]
  show ?case
  proof (cases x)
    case (Ok fd)
    with run as less.prems(1) show ?thesis
      unfolding attempts_def
      by (intro exI [of _ "[]"] exI [of _ "as @ [Line (ConnectedToReceiver attempt)]"]) (auto simp: is_close_def)
  next
    case Blocked
    with run as less.prems(1) show ?thesis
      unfolding attempts_def by (intro exI [of _ "[]"] exI [of _ as]) auto
  next
    case (Throw e)
    with conn standard_connect_to_receiver have "standard e"
      by (auto dest: raisesD)
    then obtain m where m: "std_what e = Some m"
      by (auto simp: standard_def)
    show ?thesis
    proof (cases "attempt = kMaxReconnectAttempts")
      case True
      with run as m Throw show ?thesis
        unfolding attempts_def
        by (intro exI [of _ "[m]"] exI [of _ "as @ [Line (ConnectFailed attempt m)]"])
          (auto simp: is_close_def Let_def)
    next
      case False
      let ?w2 = "w1\<lparr>trace := trace w1 @ [Line (ConnectFailed attempt m), Slept (kReconnectDelaySec * 1000)]\<rparr>"
      have later: "attempt + 1 \<le> kMaxReconnectAttempts"
        using False less.prems(1) by simp
      have "connect_from (attempt + 1) ?w2 = (r, w')"
        using run Throw m False by (simp add: Let_def)
      from less.hyps [OF _ later this] later obtain ms as' where
        IH: "trace w' = trace ?w2 @ as'"
          "filter (\<lambda>a. \<not> is_close a) as' = failures (attempt + 1) ms @
            (case r of Ok fd \<Rightarrow> [Line (ConnectedToReceiver (attempt + 1 + length ms))] | _ \<Rightarrow> [])"
          "case r of Throw e \<Rightarrow> attempt + 1 + length ms = kMaxReconnectAttempts + 1 \<and> std_what e = Some (last ms)
            | _ \<Rightarrow> attempt + 1 + length ms \<le> kMaxReconnectAttempts"
        unfolding attempts_def by (metis Suc_eq_plus1 Suc_le_lessD diff_less_mono2 lessI)
      have "ms \<noteq> []" if "r = Throw e" for e
        using IH(3) that False less.prems(1) by auto
      then show ?thesis
        unfolding attempts_def
        by (intro exI [of _ "m # ms"]
            exI [of _ "as @ [Line (ConnectFailed attempt m), Slept (kReconnectDelaySec * 1000)] @ as'"])
          (use IH as False in \<open>auto simp: is_close_def split: result.splits\<close>)
    qed
  qed
qed

section \<open>Properties\<close>

text \<open>
  C8: a response is accepted only when it is the one asked for and in time. If
  \<open>wait_for_response\<close> returns \<open>true\<close>, the bytes it has taken from the stream are whole
  frames of responses accepted before, followed by the frame of the expected response with
  an empty payload; the expected type is one of the two response types; the clock stood
  before the absolute deadline when the response was judged; and the response, nothing
  else, was added to the completed ones.
\<close>

theorem wait_true_is_expected_response:
  assumes "wait_for_response fd t s ms w = (Ok True, w')"
  shows "(\<exists>ps. stream_bytes (rx (socks w fd)) =
        concat (map frame ps) @ frame (response_packet t s) @ stream_bytes (rx (socks w' fd))
      \<and> list_all (stale (completed (locals w))) ps)
    \<and> (t = Ack \<or> t = HeartbeatAck)
    \<and> clock w' < clock w + hd (ticks w) + ms * 1000000
    \<and> completed (locals w') = insert (t, s) (completed (locals w))"
  using wait_for_response_outcome [OF assms] completed_wait [OF assms]
  by (auto simp: wait_outcome_def waiting_def started_def accept_response_def)

text \<open>A world in which the bytes \<open>bs\<close> arrive, then nothing: the sender has accepted ACK 1 before.\<close>

definition stall_world :: "bytes \<Rightarrow> sender_world" where
  "stall_world bs = (set_sock 5 (idle_sock\<lparr>rx := Segment bs # replicate 33 (RxFail EAGAIN)\<rparr>)
     (idle_world \<lparr>completed = {(Ack, 1)}, frame_bytes = 0\<rparr>))\<lparr>
     ticks := replicate 50 7, polls := replicate 33 poll_ready @ [PollReturn [{}]]\<rparr>"

lemma ready_count_replicate: "ready_count (replicate n poll_ready) = n"
  by (induction n) simp_all

lemma stall_world_stalling:
  assumes "bs \<noteq> []" "length bs \<le> 32" "k \<le> 15"
  shows "stalling (clock (started (stall_world bs)) + 1000 * 1000000) 5 k bs (started (stall_world bs))"
proof -
  have "stall_script 5 [Segment bs] (replicate 33 poll_ready) (started (stall_world bs))"
    using assms
    by (auto simp: stall_script_def started_def stall_world_def set_sock_def ready_count_replicate
        list_all_iff good_poll_def intro!: exI [of _ 33])
  then show ?thesis
    unfolding stalling_def
    by (intro conjI exI [of _ "[Segment bs]"] exI [of _ "replicate 33 poll_ready"])
      (use assms in \<open>simp_all add: started_def stall_world_def set_sock_def sum_list_replicate\<close>)
qed

lemma stall_world_simps [simp]:
  "ticks (stall_world bs) \<noteq> []" "completed (locals (stall_world bs)) = {(Ack, 1)}"
  "completed (locals (started (stall_world bs))) = {(Ack, 1)}"
  by (simp_all add: stall_world_def set_sock_def started_def)

abbreviation "late_ack_world \<equiv> stall_world (frame (response_packet Ack 1) @ frame (response_packet HeartbeatAck 2))"

lemma response_frame_simps [simp]:
  "length (frame (response_packet t s)) = 16" "frame (response_packet t s) \<noteq> []"
  using length_frame [of "response_packet t s"] by (auto simp: response_packet_def)

lemma late_ack_stalling:
  "stalling (clock (started late_ack_world) + 1000 * 1000000) 5 (2 + 2 * length [response_packet Ack 1])
     (concat (map frame [response_packet Ack 1]) @ frame (response_packet HeartbeatAck 2) @ []) (started late_ack_world)"
  using stall_world_stalling [of "frame (response_packet Ack 1) @ frame (response_packet HeartbeatAck 2)" 4] by simp

lemma old_ack: "list_all (old_response {(Ack, 1)} HeartbeatAck 2) [response_packet Ack 1]"
  by (simp add: old_response_def stale_def response_packet_def)

lemma wait_answered:
  assumes "ticks w \<noteq> []" "list_all (old_response (completed (locals w)) t s) ps" "t = Ack \<or> t = HeartbeatAck"
    and "stalling (clock (started w) + ms * 1000000) fd (2 + 2 * length ps)
           (concat (map frame ps) @ frame (response_packet t s) @ rest) (started w)"
  shows "\<exists>w'. wait_for_response fd t s ms w = (Ok True, w')
    \<and> stalling (clock (started w) + ms * 1000000) fd 0 rest w'
    \<and> completed (locals w') = insert (t, s) (completed (locals w))"
proof -
  have same: "completed (locals (started w)) = completed (locals w)"
    by (simp add: started_def)
  from wait_loop_skips [OF assms(4)] assms(2) same obtain v where
    v: "wait_loop fd t s (clock (started w) + ms * 1000000) (started w)
        = wait_loop fd t s (clock (started w) + ms * 1000000) v"
      "stalling (clock (started w) + ms * 1000000) fd 2 (frame (response_packet t s) @ rest) v"
      "completed (locals v) = completed (locals (started w))"
    by metis
  from wait_loop_accepts [of _ fd 0 t s rest v] v(2) assms(3) show ?thesis
    unfolding wait_for_response_started [OF assms(1)] v(1) by (simp add: numeral_2_eq_2 v(3) same)
qed

theorem wait_true_is_expected_response_witness:
  "\<exists>w'. wait_for_response 5 HeartbeatAck 2 1000 late_ack_world = (Ok True, w')
    \<and> (\<exists>ps. stream_bytes (rx (socks late_ack_world 5)) =
          concat (map frame ps) @ frame (response_packet HeartbeatAck 2) @ stream_bytes (rx (socks w' 5))
        \<and> list_all (stale (completed (locals late_ack_world))) ps)
    \<and> clock w' < clock late_ack_world + hd (ticks late_ack_world) + 1000 * 1000000"
proof -
  obtain w' where run: "wait_for_response 5 HeartbeatAck 2 1000 late_ack_world = (Ok True, w')"
    using wait_answered [OF _ _ _ late_ack_stalling] old_ack by auto
  from run wait_true_is_expected_response [OF run] show ?thesis
    by blast
qed

text \<open>
  C14: when \<open>wait_for_response\<close> gives up with \<open>false\<close> the stream stands at a frame boundary, so
  the caller may use the connection again: only whole frames were taken, all but perhaps the
  last of them responses accepted before, and no response was recorded.
\<close>

theorem wait_false_at_frame_boundary:
  assumes "wait_for_response fd t s ms w = (Ok False, w')"
  shows "(\<exists>ps. stream_bytes (rx (socks w fd)) = concat (map frame ps) @ stream_bytes (rx (socks w' fd))
      \<and> list_all (stale (completed (locals w))) (butlast ps))
    \<and> completed (locals w') = completed (locals w)"
  using wait_for_response_outcome [OF assms]
  by (auto simp: wait_outcome_def waiting_def started_def)

definition silent_world :: sender_world where
  "silent_world = (idle_world \<lparr>completed = {}, frame_bytes = 3\<rparr>)\<lparr>ticks := [0, 999999999, 1]\<rparr>"

theorem wait_false_at_frame_boundary_witness:
  "\<exists>w'. wait_for_response 5 Ack 1 1000 silent_world = (Ok False, w')
    \<and> (\<exists>ps. stream_bytes (rx (socks silent_world 5)) = concat (map frame ps) @ stream_bytes (rx (socks w' 5))
        \<and> list_all (stale (completed (locals silent_world))) (butlast ps))
    \<and> completed (locals w') = completed (locals silent_world)"
proof -
  have "\<exists>w'. wait_for_response 5 Ack 1 1000 silent_world = (Ok False, w')"
    by (simp add: wait_for_response_def wait_loop.simps bind_io_def sys_now_def silent_world_def
        wait_pass_def receive_before_def upd_local_def catch_io_def sender_receive_packet_def framed_receive_def
        sender_recv_exact_def deadline_loop.simps recv_pass_def throw_def get_local_def ret_def)
  then obtain w' where run: "wait_for_response 5 Ack 1 1000 silent_world = (Ok False, w')"
    by blast
  from run wait_false_at_frame_boundary [OF run] show ?thesis
    by blast
qed

text \<open>
  C16: the internal time-out never escapes \<open>wait_for_response\<close>, no exception records a
  response, and when the deadline hits inside a frame the socket is shut down and closed
  before the error is raised, so the rest of the frame is never read as a header.
\<close>

theorem wait_exceptions:
  assumes "wait_for_response fd t s ms w = (Throw e, w')"
  shows "e \<noteq> ResponseTimeout \<and> completed (locals w') = completed (locals w)
    \<and> (if e = RuntimeError (Msg ''partial response deadline exceeded; connection discarded'')
       then \<exists>as. trace w' = trace w @ as @ [ShutDown fd, Closed fd]
       else \<exists>as. trace w' = trace w @ as \<and> list_all (wait_action (ceil_ms (ms * 1000000))) as)"
proof -
  from wait_for_response_outcome [OF assms] obtain got v where
    v: "waiting (clock (started w) + ms * 1000000) fd got (started w) v" "wait_throws fd got e v w'"
    by (auto simp: wait_outcome_def)
  then show ?thesis
    using completed_wait [OF assms]
    by (auto simp: waiting_def started_def wait_throws_def discarded_def split: if_splits)
qed

definition partial_world :: sender_world where
  "partial_world = (set_sock 5 (idle_sock\<lparr>rx := [Segment [0xAA, 0x55, 1]]\<rparr>)
     (idle_world \<lparr>completed = {}, frame_bytes = 0\<rparr>))\<lparr>
     ticks := [5, 5, 5, 5], polls := [PollReturn [{POLLIN}], PollReturn [{}]]\<rparr>"

theorem wait_exceptions_witness:
  "\<exists>w'. wait_for_response 5 Ack 1 1000 partial_world = (Throw partial_response, w')
    \<and> completed (locals w') = {} \<and> (\<exists>as. trace w' = as @ [ShutDown 5, Closed 5])"
proof -
  have "\<exists>w'. wait_for_response 5 Ack 1 1000 partial_world = (Throw partial_response, w')"
    by (simp add: wait_for_response_def wait_loop.simps bind_io_def sys_now_def partial_world_def set_sock_def
        wait_pass_def receive_before_def upd_local_def catch_io_def sender_receive_packet_def framed_receive_def
        sender_recv_exact_def deadline_loop.simps recv_pass_def recv_ready_def throw_def get_local_def ret_def
        sys_poll_def sys_recv_def set_rx_def sys_shutdown_def sys_close_def emit_def)
  then obtain w' where run: "wait_for_response 5 Ack 1 1000 partial_world = (Throw partial_response, w')"
    by blast
  from run wait_exceptions [OF run] show ?thesis
    by (simp add: partial_world_def set_sock_def)
qed

text \<open>
  C15: the deadline is absolute. However many responses, interruptions and fragments arrive,
  every \<open>poll\<close> of one wait has a positive timeout of at most the requested milliseconds, so
  no wait is ever unbounded, and nothing is sent while waiting.
\<close>

theorem wait_polls_within_deadline:
  "\<exists>as. trace (snd (wait_for_response fd t s ms w)) = trace w @ as
    \<and> list_all (\<lambda>a. case a of Polled n \<Rightarrow> 0 < n \<and> n \<le> int ms | Sent _ _ \<Rightarrow> False | _ \<Rightarrow> True) as"
proof -
  let ?ok = "\<lambda>a :: sender_line action. case a of Polled n \<Rightarrow> 0 < n \<and> n \<le> int ms | Sent _ _ \<Rightarrow> False | _ \<Rightarrow> True"
  obtain r w' where run: "wait_for_response fd t s ms w = (r, w')"
    by fastforce
  have ceil: "ceil_ms (ms * 1000000) = ms"
    by (simp add: ceil_ms_def)
  have ok: "?ok a" if "wait_action ms a" for a
    using that by (auto simp: wait_action_def split: action.splits)
  from wait_for_response_outcome [OF run] show ?thesis
  proof
    assume "wait_outcome fd t s (clock (started w) + ms * 1000000) (started w) r w'"
    then obtain got v where v: "waiting (clock (started w) + ms * 1000000) fd got (started w) v" and r: "case r of
        Ok True \<Rightarrow> w' = accept_response t s v | Ok False \<Rightarrow> w' = v
      | Throw e \<Rightarrow> wait_throws fd got e v w' | Blocked \<Rightarrow> w' = v"
      unfolding wait_outcome_def by (cases r) (auto split: bool.splits)
    from v obtain as where as: "trace v = trace w @ as" "list_all (wait_action ms) as"
      by (auto simp: waiting_def started_def ceil)
    have "trace w' = trace w @ as \<or> trace w' = trace w @ (as @ [ShutDown fd, Closed fd])"
      using r as(1)
      by (cases r) (auto simp: accept_response_def wait_throws_def discarded_def split: bool.splits if_splits)
    moreover have "list_all ?ok as" "list_all ?ok (as @ [ShutDown fd, Closed fd])"
      using as(2) ok by (auto simp: list_all_iff)
    ultimately show ?thesis
      unfolding run snd_conv by blast
  qed (use run in \<open>auto intro: exI [of _ "[]"]\<close>)
qed

text \<open>
  C10: old responses do not disturb a wait. When the stream brings responses accepted before
  and then the expected one, cut into segments in any way, with interruptions and spurious
  wake-ups, all before the deadline, the wait skips the old ones, returns \<open>true\<close>, and leaves
  what follows in the stream.
\<close>

theorem wait_skips_stale_responses:
  assumes "ticks w \<noteq> []" "list_all (old_response (completed (locals w)) t s) ps" "t = Ack \<or> t = HeartbeatAck"
    and "stalling (clock (started w) + ms * 1000000) fd (2 + 2 * length ps)
           (concat (map frame ps) @ frame (response_packet t s) @ rest) (started w)"
  shows "\<exists>w'. wait_for_response fd t s ms w = (Ok True, w')
    \<and> stalling (clock (started w) + ms * 1000000) fd 0 rest w'
    \<and> completed (locals w') = insert (t, s) (completed (locals w))"
  using assms by (rule wait_answered)

theorem wait_skips_stale_responses_witness:
  "\<exists>w'. wait_for_response 5 HeartbeatAck 2 1000 late_ack_world = (Ok True, w')
    \<and> stalling (clock (started late_ack_world) + 1000 * 1000000) 5 0 [] w'
    \<and> completed (locals w') = {(HeartbeatAck, 2), (Ack, 1)}"
  using wait_skips_stale_responses [OF _ _ _ late_ack_stalling] old_ack by simp

text \<open>
  C9: a stream that stalls. When old responses are followed by part of a frame and nothing
  more until \<open>poll\<close> times out, the wait returns \<open>false\<close> if the part is empty; otherwise it
  shuts the socket down, closes it and raises the error for a partial response.
\<close>

theorem wait_times_out:
  assumes "ticks w \<noteq> []" "list_all (old_response (completed (locals w)) t s) ps"
    and "strict_prefix part (frame q)" "small q"
    and "stalling (clock (started w) + ms * 1000000) fd (1 + 2 * length ps)
           (concat (map frame ps) @ part) (started w)"
  shows "\<exists>v. wait_for_response fd t s ms w =
      (if part = [] then (Ok False, v)
       else (Throw (RuntimeError (Msg ''partial response deadline exceeded; connection discarded'')),
             v\<lparr>trace := trace v @ [ShutDown fd, Closed fd]\<rparr>))
    \<and> completed (locals v) = completed (locals w)"
proof -
  have same: "completed (locals (started w)) = completed (locals w)"
    by (simp add: started_def)
  from wait_loop_skips [OF assms(5)] assms(2) same obtain v where
    v: "wait_loop fd t s (clock (started w) + ms * 1000000) (started w)
        = wait_loop fd t s (clock (started w) + ms * 1000000) v"
      "stalling (clock (started w) + ms * 1000000) fd 1 part v"
      "completed (locals v) = completed (locals (started w))"
    by metis
  from v(2) have "stalling (clock (started w) + ms * 1000000) fd (Suc 0) part v"
    by simp
  from wait_loop_stalls [OF this assms(3,4), of t s] show ?thesis
    unfolding wait_for_response_started [OF assms(1)] v(1,3) same discarded_def .
qed

theorem wait_times_out_witness:
  "\<exists>v. wait_for_response 5 HeartbeatAck 2 1000 (stall_world (frame (response_packet Ack 1) @ [0xAA])) =
      (Throw (RuntimeError (Msg ''partial response deadline exceeded; connection discarded'')),
       v\<lparr>trace := trace v @ [ShutDown 5, Closed 5]\<rparr>)
    \<and> completed (locals v) = {(Ack, 1)}"
proof -
  let ?w = "stall_world (frame (response_packet Ack 1) @ [0xAA])"
  have "stalling (clock (started ?w) + 1000 * 1000000) 5 (1 + 2 * length [response_packet Ack 1])
      (concat (map frame [response_packet Ack 1]) @ [0xAA]) (started ?w)"
    using stall_world_stalling [of "frame (response_packet Ack 1) @ [0xAA]" 3] by (simp add: numeral_3_eq_3)
  from wait_times_out [OF _ _ magic_prefix small_requests(1) this] old_ack show ?thesis
    by simp
qed

text \<open>
  C7: what the sender can put on the wire, whatever happens: the DATA packet at most four
  times, then the heartbeats 2, 3 and 4 in order, each at most twice; every transmission is
  a prefix of the packet's frame, and a later packet starts only after it.
\<close>

theorem sender_transmissions:
  "\<exists>as blocks a ns. trace (snd (sender_main w)) = trace w @ as \<and> filter is_sent as = concat blocks
    \<and> list_all2 transmission (replicate a data_packet @ beats 2 ns) blocks
    \<and> a \<le> 4 \<and> length ns \<le> 3 \<and> list_all (\<lambda>n. n \<le> 2) ns"
  using emits_sender_main
  unfolding emits_def sender_language_def conc_def upto_times_def beat_runs_def transmits_def
  by (fastforce dest: spec [of _ w])

text \<open>
  C13: success means acknowledged. If the sender returns 0 it has accepted the ACK of its DATA
  packet and the HEARTBEAT_ACKs of the three heartbeats, and no other response.
\<close>

theorem sender_success_acknowledged:
  assumes "sender_main w = (Ok 0, w')"
  shows "completed (locals w') = {(Ack, 1), (HeartbeatAck, 2), (HeartbeatAck, 3), (HeartbeatAck, 4)}"
proof -
  obtain r v where body: "sender_body w = (r, v)"
    by fastforce
  show ?thesis
  proof (cases r)
    case (Ok c)
    with assms body have "w' = v"
      by (auto simp: sender_main_def catch_io_def)
    with sender_body_success body Ok show ?thesis
      by simp
  next
    case (Throw e)
    with assms body show ?thesis
      by (auto simp: sender_main_def catch_io_def io_simps split: option.splits)
  next
    case Blocked
    with assms body show ?thesis
      by (simp add: sender_main_def catch_io_def)
  qed
qed

text \<open>A run in which every request is answered at once.\<close>

lemma quick_send:
  assumes "tx (socks w fd) = TxAccept 100 # es" "small p" "length (frame p) \<le> 100"
  shows "sender_send_packet fd p w = (Ok (), set_tx fd es (w\<lparr>trace := trace w @ [Sent fd (frame p)]\<rparr>))"
proof -
  have "0 < length (frame p)"
    by (simp add: length_frame)
  with assms show ?thesis
    by (simp add: sender_send_packet_def sender_send_all_def encode_small bind_ret send_loop.simps sys_send_def)
qed

lemma quick_wait:
  assumes "ticks w = 0 # 0 # 0 # 0 # ts" "polls w = poll_ready # ps"
    and "rx (socks w fd) = Segment (frame (response_packet t s)) # es" "t = Ack \<or> t = HeartbeatAck" "0 < ms"
  shows "wait_for_response fd t s ms w = (Ok True, accept_response t s (set_rx fd es
    (w\<lparr>ticks := ts, polls := ps, trace := trace w @ [Polled (int ms)], locals := (locals w)\<lparr>frame_bytes := 16\<rparr>\<rparr>)))"
proof -
  let ?p = "response_packet t s"
  have f: "frame ?p = header_of ?p" "get_payload_length (header_of ?p) = Inr 0" "decode_packet (header_of ?p) [] = Inr ?p"
    using get_payload_length_header [of ?p] decode_packet_header [of ?p]
    by (simp_all add: frame_def response_packet_def)
  have h: "header_of ?p \<noteq> []"
    by (metis length_header_of list.size(3) zero_neq_numeral)
  have ceil: "ceil_ms (ms * 1000000) = ms"
    by (simp add: ceil_ms_def)
  let ?w1 = "w\<lparr>ticks := 0 # ts, polls := ps, trace := trace w @ [Polled (int ms)],
    socks := (socks w)(fd := (socks w fd)\<lparr>rx := es\<rparr>), locals := (locals w)\<lparr>frame_bytes := 16\<rparr>\<rparr>"
  have "receive_before fd (clock w + ms * 1000000) (w\<lparr>ticks := 0 # 0 # ts\<rparr>) = (Ok (Some ?p), ?w1)"
    using assms(2,3,5) h
    by (simp add: receive_before_def bind_upd_local catch_io_def sender_receive_packet_def framed_receive_def
        sender_recv_exact_def deadline_loop.simps recv_pass_def recv_ready_def bind_io_def sys_now_def
        sys_poll_def poll_ready_def sys_recv_def set_rx_def upd_local_def ret_def f ceil)
  moreover have "judge_response t s (clock w + ms * 1000000) ?p ?w1 = (Ok (Some True), accept_response t s (?w1\<lparr>ticks := ts\<rparr>))"
    using assms(4,5)
    by (auto simp: judge_response_def bind_io_def sys_now_def response_packet_def upd_local_def ret_def accept_response_def)
  ultimately show ?thesis
    using assms(1,5)
    by (simp add: wait_for_response_def wait_loop.simps bind_io_def sys_now_def wait_pass_def accept_response_def set_rx_def)
qed

definition success_world :: sender_world where
  "success_world = (idle_world \<lparr>completed = {}, frame_bytes = 0\<rparr>)\<lparr>
     fds := [Inr (5, idle_sock\<lparr>
       rx := [Segment (frame (response_packet Ack 1)), Segment (frame (response_packet HeartbeatAck 2)),
              Segment (frame (response_packet HeartbeatAck 3)), Segment (frame (response_packet HeartbeatAck 4))],
       tx := [TxAccept 100, TxAccept 100, TxAccept 100, TxAccept 100]\<rparr>)],
     calls := [None, None], ticks := [0, 0, 0, 0, 0, 0, 0, 0, 0, 0, 0, 0, 0, 0, 0, 0],
     polls := [poll_ready, poll_ready, poll_ready, poll_ready]\<rparr>"

lemmas run_simps = bind_io_def catch_io_def ret_def throw_def cout_def emit_def sleep_ms_def upd_local_def
  get_local_def sys_close_def sys_open_def sys_call_def

lemma success_run: "\<exists>w'. sender_main success_world = (Ok 0, w')"
proof -
  have len: "length (frame data_packet) \<le> 100" "length (frame (heartbeat_packet s)) \<le> 100" for s
    by (simp_all add: length_frame data_packet_def message_def heartbeat_packet_def)
  have seq: "sequence data_packet = 1"
    by (simp add: data_packet_def)
  show ?thesis
    by (simp add: sender_main_def sender_body_def run_simps connect_with_retry_def connect_from.simps [of "Suc 0"]
        connect_to_receiver_def success_world_def send_data_from.simps [of 5 "Suc 0"] heartbeats_from.simps [of 5 2 "Suc 0"]
        heartbeats_from.simps [of 5 3 "Suc (Suc 0)"]
        heartbeats_from.simps [of 5 4 "Suc (Suc (Suc 0))"] heartbeats_from.simps [of 5 5 "Suc (Suc (Suc (Suc 0)))"]
        heartbeat_pass_def try_heartbeat_def kMaxReconnectAttempts_def kMaxRetries_def kHeartbeatCount_def
        kAckTimeoutMs_def kHeartbeatTimeoutMs_def quick_send quick_wait len seq
        accept_response_def set_rx_def set_tx_def)
qed

theorem sender_success_acknowledged_witness:
  "\<exists>w'. sender_main success_world = (Ok 0, w') \<and>
     completed (locals w') = {(Ack, 1), (HeartbeatAck, 2), (HeartbeatAck, 3), (HeartbeatAck, 4)}"
proof -
  obtain w' where run: "sender_main success_world = (Ok 0, w')"
    using success_run by blast
  from run sender_success_acknowledged [OF run] show ?thesis
    by blast
qed

text \<open>
  C18: the sender ends with 0 or 1, or is still waiting in a call: every exception, those of
  reconnection included, is reported by \<open>main\<close>.
\<close>

theorem sender_main_outcome: "fst (sender_main w) \<in> {Ok 0, Ok 1, Blocked}"
proof -
  obtain r v where body: "sender_body w = (r, v)"
    by fastforce
  show ?thesis
  proof (cases r)
    case (Ok c)
    with sender_body_success [of w c v] body show ?thesis
      by (simp add: sender_main_def catch_io_def)
  next
    case (Throw e)
    then have "standard e"
      using raisesD [OF standard_sender_body, of w e v] body by simp
    then obtain m where "std_what e = Some m"
      by (auto simp: standard_def)
    with Throw body show ?thesis
      by (simp add: sender_main_def catch_io_def io_simps)
  next
    case Blocked
    with body show ?thesis
      by (simp add: sender_main_def catch_io_def)
  qed
qed

text \<open>
  C17: connecting with retries. Apart from closed sockets, a run of \<open>connect_with_retry\<close> shows
  some failed attempts, numbered from 1 and each but the third followed by a pause of two
  seconds, and then the successful one; if it raises an exception, there were exactly
  three failures and the exception is the last of them.
\<close>

theorem connect_retries:
  "case connect_with_retry w of (r, w') \<Rightarrow> \<exists>ms as. trace w' = trace w @ as
     \<and> filter (\<lambda>a. \<not> is_close a) as = failures 1 ms @
         (case r of Ok fd \<Rightarrow> [Line (ConnectedToReceiver (1 + length ms))] | _ \<Rightarrow> [])
     \<and> (case r of Throw e \<Rightarrow> length ms = 3 \<and> std_what e = Some (last ms) | _ \<Rightarrow> length ms < 3)"
proof -
  obtain r w' where run: "connect_with_retry w = (r, w')"
    by fastforce
  from connect_from_attempts [of 1 w r w'] run have "attempts 1 r w w'"
    by (simp add: connect_with_retry_def kMaxReconnectAttempts_def)
  then obtain ms as where "trace w' = trace w @ as"
    "filter (\<lambda>a. \<not> is_close a) as = failures 1 ms @
         (case r of Ok fd \<Rightarrow> [Line (ConnectedToReceiver (1 + length ms))] | _ \<Rightarrow> [])"
    "case r of Throw e \<Rightarrow> length ms = 3 \<and> std_what e = Some (last ms) | _ \<Rightarrow> length ms < 3"
    unfolding attempts_def kMaxReconnectAttempts_def by (cases r) auto
  with run show ?thesis
    by auto
qed

end
