(* ===== verification/FaultInjector.thy ===== *)
theory FaultInjector
  imports Framing Transmissions
begin

text \<open>
  The proxy of \<open>src/fault_injector/tcp_proxy.cpp\<close>: it relays the frames of one sender
  connection to a receiver connection and back, and applies one fault per process.
\<close>

section \<open>The code\<close>

definition kListenPort :: nat where "kListenPort = 5000"
definition kAckDelayMs :: nat where "kAckDelayMs = 700"

datatype fault_mode = FaultNone | DropAck | DelayAck | CorruptData | Disconnect

datatype proxy_line =
  ProxyListening nat
| ProxyMode string
| CorruptedData u32
| DisconnectedHeartbeat u32
| SenderToReceiver string u32
| DroppedAck u32
| DelayedAck nat u32
| ReceiverToSender string u32
| ProxySenderConnected
| ProxyReceiverConnected
| ProxyConnectionClosed what
| ProxyConnectionError what
| ProxyWaiting
| ProxyError what

text \<open>\<open>fault_applied\<close> is the variable of \<open>main\<close> that \<open>relay_connection\<close> gets by reference.\<close>

record proxy_state =
  fault_applied :: bool

type_synonym proxy_world = "(proxy_line, proxy_state) world"
type_synonym 'a proxy_io = "(proxy_line, proxy_state, 'a) io"

definition proxy_send_all :: "fd \<Rightarrow> bytes \<Rightarrow> unit proxy_io" where
  "proxy_send_all fd data =
     send_loop (\<lambda>e. RuntimeError (Sys ''send failed: '' e))
       (PeerDisconnected (Msg ''connection closed while sending'')) fd data 0"

definition proxy_recv_exact :: "fd \<Rightarrow> nat \<Rightarrow> bytes proxy_io" where
  "proxy_recv_exact fd n = recv_loop (PeerDisconnected (Msg ''peer disconnected'')) fd n []"

definition proxy_send_packet :: "fd \<Rightarrow> packet \<Rightarrow> unit proxy_io" where
  "proxy_send_packet fd p =
     bind_io (lift_codec (encode_packet p)) (\<lambda>encoded. proxy_send_all fd encoded)"

definition send_corrupted_packet :: "fd \<Rightarrow> packet \<Rightarrow> unit proxy_io" where
  "send_corrupted_packet fd p =
     bind_io (lift_codec (encode_packet p)) (\<lambda>encoded.
     if length encoded \<le> kHeaderSize then
       throw (RuntimeError (Msg ''cannot corrupt packet without payload''))
     else proxy_send_all fd (encoded[kHeaderSize := encoded ! kHeaderSize XOR 0xFF]))"

definition proxy_receive_packet :: "fd \<Rightarrow> packet proxy_io" where
  "proxy_receive_packet fd = framed_receive (proxy_recv_exact fd)"

definition message_type_name :: "message_type \<Rightarrow> string" where
  "message_type_name t =
     (if t = Data then ''DATA''
      else if t = Ack then ''ACK''
      else if t = Heartbeat then ''HEARTBEAT''
      else if t = HeartbeatAck then ''HEARTBEAT_ACK''
      else ''UNKNOWN'')"

fun fault_mode_name :: "fault_mode \<Rightarrow> string" where
  "fault_mode_name FaultNone = ''none''"
| "fault_mode_name DropAck = ''drop-ack''"
| "fault_mode_name DelayAck = ''delay-ack''"
| "fault_mode_name CorruptData = ''corrupt-data''"
| "fault_mode_name Disconnect = ''disconnect''"

text \<open>The arguments without the program name; the error is the exception's text.\<close>

fun parse_fault_mode :: "string list \<Rightarrow> string + fault_mode" where
  "parse_fault_mode [] = Inr FaultNone"
| "parse_fault_mode (mode # _) =
     (if mode = ''none'' then Inr FaultNone
      else if mode = ''drop-ack'' then Inr DropAck
      else if mode = ''delay-ack'' then Inr DelayAck
      else if mode = ''corrupt-data'' then Inr CorruptData
      else if mode = ''disconnect'' then Inr Disconnect
      else Inl (''unknown fault mode: '' @ mode))"

definition create_listen_socket :: "fd proxy_io" where
  "create_listen_socket =
     bind_io sys_open (\<lambda>r. case r of
       Inl e \<Rightarrow> throw (RuntimeError (Sys ''socket failed: '' e))
     | Inr fd \<Rightarrow>
         bind_io sys_call (\<lambda>r. case r of
           Some e \<Rightarrow> bind_io (sys_close fd) (\<lambda>_. throw (RuntimeError (Sys ''setsockopt failed: '' e)))
         | None \<Rightarrow>
             bind_io sys_call (\<lambda>r. case r of
               Some e \<Rightarrow> bind_io (sys_close fd) (\<lambda>_. throw (RuntimeError (Sys ''bind failed: '' e)))
             | None \<Rightarrow>
                 bind_io sys_call (\<lambda>r. case r of
                   Some e \<Rightarrow> bind_io (sys_close fd) (\<lambda>_. throw (RuntimeError (Sys ''listen failed: '' e)))
                 | None \<Rightarrow> ret fd))))"

definition proxy_connect_to_receiver :: "fd proxy_io" where
  "proxy_connect_to_receiver =
     bind_io sys_open (\<lambda>r. case r of
       Inl e \<Rightarrow> throw (RuntimeError (Sys ''socket failed: '' e))
     | Inr fd \<Rightarrow>
         bind_io sys_call (\<lambda>r. case r of
           Some e \<Rightarrow> bind_io (sys_close fd) (\<lambda>_. throw (RuntimeError (Msg ''invalid receiver IP address'')))
         | None \<Rightarrow>
             bind_io sys_call (\<lambda>r. case r of
               Some e \<Rightarrow> bind_io (sys_close fd) (\<lambda>_. throw (RuntimeError (Sys ''connect to receiver failed: '' e)))
             | None \<Rightarrow> ret fd)))"

text \<open>
  The two branches of the relay loop on a readable socket; the result tells whether the
  branch ended with \<open>continue\<close>.
\<close>

definition from_sender :: "fd \<Rightarrow> fd \<Rightarrow> fault_mode \<Rightarrow> bool proxy_io" where
  "from_sender sender_fd receiver_fd mode =
     bind_io (proxy_receive_packet sender_fd) (\<lambda>p.
     bind_io (get_local fault_applied) (\<lambda>applied.
     if type_of p = Data \<and> mode = CorruptData \<and> \<not> applied then
       bind_io (cout (CorruptedData (sequence p))) (\<lambda>_.
       bind_io (send_corrupted_packet receiver_fd p) (\<lambda>_.
       bind_io (upd_local (fault_applied_update (\<lambda>_. True))) (\<lambda>_.
       ret True)))
     else if type_of p = Heartbeat \<and> mode = Disconnect \<and> \<not> applied then
       bind_io (cout (DisconnectedHeartbeat (sequence p))) (\<lambda>_.
       bind_io (upd_local (fault_applied_update (\<lambda>_. True))) (\<lambda>_.
       bind_io (sys_shutdown sender_fd) (\<lambda>_.
       bind_io (sys_shutdown receiver_fd) (\<lambda>_.
       throw (PeerDisconnected (Msg ''forced disconnect injected''))))))
     else
       bind_io (cout (SenderToReceiver (message_type_name (type_of p)) (sequence p))) (\<lambda>_.
       bind_io (proxy_send_packet receiver_fd p) (\<lambda>_.
       ret False))))"

definition from_receiver :: "fd \<Rightarrow> fd \<Rightarrow> fault_mode \<Rightarrow> bool proxy_io" where
  "from_receiver sender_fd receiver_fd mode =
     bind_io (proxy_receive_packet receiver_fd) (\<lambda>p.
     bind_io (get_local fault_applied) (\<lambda>applied.
     if type_of p = Ack \<and> \<not> applied \<and> mode = DropAck then
       bind_io (cout (DroppedAck (sequence p))) (\<lambda>_.
       bind_io (upd_local (fault_applied_update (\<lambda>_. True))) (\<lambda>_.
       ret True))
     else
       bind_io
         (if type_of p = Ack \<and> \<not> applied \<and> mode = DelayAck then
            bind_io (cout (DelayedAck kAckDelayMs (sequence p))) (\<lambda>_.
            bind_io (sleep_ms kAckDelayMs) (\<lambda>_.
            upd_local (fault_applied_update (\<lambda>_. True))))
          else ret ()) (\<lambda>_.
       bind_io (cout (ReceiverToSender (message_type_name (type_of p)) (sequence p))) (\<lambda>_.
       bind_io (proxy_send_packet sender_fd p) (\<lambda>_.
       ret False)))))"

definition hung_up :: "revents \<Rightarrow> bool" where
  "hung_up revents \<longleftrightarrow> POLLERR \<in> revents \<or> POLLHUP \<in> revents \<or> POLLNVAL \<in> revents"

text \<open>One pass through the relay loop; an interrupted \<open>poll\<close> is a pass of its own.\<close>

definition relay_pass :: "fd \<Rightarrow> fd \<Rightarrow> fault_mode \<Rightarrow> unit proxy_io" where
  "relay_pass sender_fd receiver_fd mode =
     bind_io (sys_poll [sender_fd, receiver_fd] (- 1)) (\<lambda>result. case result of
       Inl e \<Rightarrow>
         if e = EINTR then ret ()
         else throw (RuntimeError (Sys ''poll failed: '' e))
     | Inr rs \<Rightarrow>
         bind_io (if POLLIN \<in> revents_at rs 0 then from_sender sender_fd receiver_fd mode
                  else ret False) (\<lambda>continued.
         if continued then ret ()
         else
           bind_io (if POLLIN \<in> revents_at rs 1 then from_receiver sender_fd receiver_fd mode
                    else ret False) (\<lambda>continued.
           if continued then ret ()
           else if hung_up (revents_at rs 0) then
             throw (PeerDisconnected (Msg ''sender connection closed''))
           else if hung_up (revents_at rs 1) then
             throw (PeerDisconnected (Msg ''receiver connection closed''))
           else ret ())))"

lemma proxy_receive_packet_eq:
  "proxy_receive_packet fd =
     framed_receive (\<lambda>n. recv_loop (PeerDisconnected (Msg ''peer disconnected'')) fd n [])"
  unfolding proxy_receive_packet_def proxy_recv_exact_def ..

lemma session_proxy_receive: "within session_le (proxy_receive_packet fd)"
  unfolding proxy_receive_packet_eq by (intro session_framed_receive session_recv_loop)

lemma session_proxy_send: "within session_le (proxy_send_packet fd p)"
  unfolding proxy_send_packet_def proxy_send_all_def
  by (intro session.within_bind session_lift_codec session_send_loop)

lemma session_send_corrupted: "within session_le (send_corrupted_packet fd p)"
  unfolding send_corrupted_packet_def proxy_send_all_def
  by (intro session.within_rules session_lift_codec session_send_loop)

lemma session_from_sender: "within session_le (from_sender s r mode)"
  unfolding from_sender_def
  by (intro session.within_rules session_proxy_receive session_send_corrupted session_proxy_send session_calls)

lemma session_from_receiver: "within session_le (from_receiver s r mode)"
  unfolding from_receiver_def
  by (intro session.within_rules session_proxy_receive session_proxy_send session_calls)

lemma session_relay_pass: "within session_le (relay_pass s r mode)"
  unfolding relay_pass_def
  by (intro session.within_rules session_from_sender session_from_receiver session_calls)

lemma relay_pass_less:
  assumes "relay_pass s r mode w = (Ok u, w')"
  shows "length (polls w') < length (polls w)"
proof -
  from assms obtain x w1 where poll: "sys_poll [s, r] (- 1) w = (Ok x, w1)"
    by (auto simp: relay_pass_def bind_io_eq_Ok)
  have "session_le w1 w'"
  proof -
    define rest where "rest = (\<lambda>result. case result of
       Inl e \<Rightarrow> if e = EINTR then ret () else throw (RuntimeError (Sys ''poll failed: '' e))
     | Inr rs \<Rightarrow>
         bind_io (if POLLIN \<in> revents_at rs 0 then from_sender s r mode else ret False) (\<lambda>continued.
         if continued then ret ()
         else
           bind_io (if POLLIN \<in> revents_at rs 1 then from_receiver s r mode else ret False) (\<lambda>continued.
           if continued then ret ()
           else if hung_up (revents_at rs 0) then throw (PeerDisconnected (Msg ''sender connection closed''))
           else if hung_up (revents_at rs 1) then throw (PeerDisconnected (Msg ''receiver connection closed''))
           else ret ())))"
    have "within session_le (rest x)"
      unfolding rest_def by (intro session.within_rules session_from_sender session_from_receiver)
    moreover have "rest x w1 = (Ok u, w')"
      using assms poll by (simp add: relay_pass_def bind_io_Ok rest_def)
    ultimately show ?thesis
      by (rule withinD)
  qed
  with sys_poll_less [OF poll] show ?thesis
    by (simp add: session_le_def world_le_def)
qed

text \<open>\<open>relay_connection\<close>; it ends by an exception only.\<close>

function relay_connection ::
  "fd \<Rightarrow> fd \<Rightarrow> fault_mode \<Rightarrow> proxy_world \<Rightarrow> unit result \<times> proxy_world" where
  "relay_connection sender_fd receiver_fd mode w =
     (case relay_pass sender_fd receiver_fd mode w of
        (Ok _, w') \<Rightarrow> relay_connection sender_fd receiver_fd mode w'
      | (Throw e, w') \<Rightarrow> (Throw e, w')
      | (Blocked, w') \<Rightarrow> (Blocked, w'))"
  by pat_completeness auto
termination
  by (relation "measure (\<lambda>(_, _, _, w). length (polls w))") (auto dest: relay_pass_less [OF sym])

declare relay_connection.simps [simp del]

text \<open>The two handlers around one connection.\<close>

definition report_connection :: "exn \<Rightarrow> 'a \<Rightarrow> 'a proxy_io option" where
  "report_connection e x =
     (case e of
        PeerDisconnected m \<Rightarrow> Some (bind_io (cout (ProxyConnectionClosed m)) (\<lambda>_. ret x))
      | _ \<Rightarrow> map_option (\<lambda>m. bind_io (cout (ProxyConnectionError m)) (\<lambda>_. ret x)) (std_what e))"

text \<open>
  From \<open>accept\<close> to the next one. The \<open>try\<close> block is split at the assignment to
  \<open>receiver_fd\<close>, which the code after the handlers reads: \<open>None\<close> stands for -1.
\<close>

definition proxy_client :: "fault_mode \<Rightarrow> fd \<Rightarrow> unit proxy_io" where
  "proxy_client mode sender_fd =
     bind_io (cout ProxySenderConnected) (\<lambda>_.
     bind_io
       (catch_io (bind_io proxy_connect_to_receiver (\<lambda>fd. ret (Some fd)))
         (\<lambda>e. report_connection e None)) (\<lambda>receiver_fd.
     bind_io
       (case receiver_fd of
          None \<Rightarrow> ret ()
        | Some fd \<Rightarrow>
            catch_io
              (bind_io (cout ProxyReceiverConnected) (\<lambda>_. relay_connection sender_fd fd mode))
              (\<lambda>e. report_connection e ())) (\<lambda>_.
     bind_io (sys_close sender_fd) (\<lambda>_.
     bind_io
       (case receiver_fd of
          None \<Rightarrow> ret ()
        | Some fd \<Rightarrow> sys_close fd) (\<lambda>_.
     cout ProxyWaiting)))))"

text \<open>An order on worlds that every pass respects is respected by the loop.\<close>

lemma relay_connection_within:
  assumes R: "world_order R" and pass: "within R (relay_pass s r mode)"
  shows "within R (relay_connection s r mode)"
proof (rule withinI)
  fix w
  show "R w (snd (relay_connection s r mode w))"
    using pass
  proof (induction s r mode w rule: relay_connection.induct)
    case (1 s r mode w)
    obtain x w1 where step: "relay_pass s r mode w = (x, w1)"
      by fastforce
    note le = withinD [OF "1.prems" step]
    have again: "R w1 (snd (relay_connection s r mode w1))" if "x = Ok ()"
      using that "1.prems" by (intro "1.IH" [OF step [symmetric]]) simp_all
    show ?case
      using step le world_order.trans [OF R le again]
      by (subst relay_connection.simps) (simp split: result.splits)
  qed
qed

lemmas session_relay_connection = relay_connection_within [OF session.world_order_axioms session_relay_pass]

lemma report_connection_Some:
  assumes "report_connection e x = Some k"
  obtains l where "k = bind_io (cout l) (\<lambda>_. ret x)" "l \<in> range ProxyConnectionClosed \<union> range ProxyConnectionError"
  using assms by (cases e) (auto simp: report_connection_def)

lemma world_relay_connection: "within world_le (relay_connection s r mode)"
  by (rule within_mono [OF session_relay_connection session_le_world])

lemma world_report: "report_connection e x = Some k \<Longrightarrow> within world_le k"
  by (erule report_connection_Some) (simp add: world.within_bind world.within_ret world_calls)

lemma world_proxy_client: "within world_le (proxy_client mode fd)"
  unfolding proxy_client_def proxy_connect_to_receiver_def
  by (intro world.within_rules world.within_catch world_calls world_relay_connection world_report)

text \<open>The \<open>accept\<close> loop of \<open>main\<close>.\<close>

function proxy_accept_loop :: "fault_mode \<Rightarrow> proxy_world \<Rightarrow> unit result \<times> proxy_world" where
  "proxy_accept_loop mode w =
     (case sys_open w of
        (Ok (Inl e), w') \<Rightarrow>
          if e = EINTR then proxy_accept_loop mode w'
          else (Throw (RuntimeError (Sys ''accept failed: '' e)), w')
      | (Ok (Inr sender_fd), w') \<Rightarrow>
          (case proxy_client mode sender_fd w' of
             (Ok _, w'') \<Rightarrow> proxy_accept_loop mode w''
           | (Throw e, w'') \<Rightarrow> (Throw e, w'')
           | (Blocked, w'') \<Rightarrow> (Blocked, w''))
      | (Throw e, w') \<Rightarrow> (Throw e, w')
      | (Blocked, w') \<Rightarrow> (Blocked, w'))"
  by pat_completeness auto
termination
proof (relation "measure (\<lambda>(mode, w). length (fds w))")
  fix mode w x w1 y sender_fd x' w2
  assume "(x, w1) = sys_open w" "x = Ok y" "(x', w2) = proxy_client mode sender_fd w1"
  then show "((mode, w2), mode, w) \<in> measure (\<lambda>(mode, w). length (fds w))"
    using withinD [OF world_proxy_client, of mode sender_fd w1 x' w2] sys_open_less [of w y w1]
    by (simp add: world_le_def)
qed (auto dest: sys_open_less [OF sym])

declare proxy_accept_loop.simps [simp del]

lemma proxy_accept_loop_within:
  assumes R: "world_order R" and opn: "within R sys_open" and client: "\<And>s. within R (proxy_client mode s)"
  shows "within R (proxy_accept_loop mode)"
proof (rule withinI)
  fix w
  show "R w (snd (proxy_accept_loop mode w))"
    using client
  proof (induction mode w rule: proxy_accept_loop.induct)
    case (1 mode w)
    obtain y w1 where run: "sys_open w = (y, w1)"
      by fastforce
    note le = withinD [OF opn run]
    show ?case
    proof (cases "\<exists>s. y = Ok (Inr s)")
      case True
      then obtain s where y: "y = Ok (Inr s)"
        by blast
      obtain c w2 where step: "proxy_client mode s w1 = (c, w2)"
        by fastforce
      note le2 = world_order.trans [OF R le withinD [OF "1.prems" step]]
      have again: "R w2 (snd (proxy_accept_loop mode w2))" if "c = Ok ()"
        using that "1.prems" by (intro "1.IH"(2) [OF run [symmetric] y _ step [symmetric]]) simp_all
      show ?thesis
        using run y step le2 world_order.trans [OF R le2 again]
        by (subst proxy_accept_loop.simps) (simp split: result.splits)
    next
      case False
      show ?thesis
      proof (cases "y = Ok (Inl EINTR)")
        case True
        with "1.IH"(1) [OF run [symmetric] True] "1.prems" world_order.trans [OF R le] run show ?thesis
          by (subst proxy_accept_loop.simps) simp
      next
        case other: False
        with False run le show ?thesis
          by (subst proxy_accept_loop.simps) (auto split: result.splits sum.splits)
      qed
    qed
  qed
qed

lemmas world_accept_loop = proxy_accept_loop_within [OF world.world_order_axioms world_open world_proxy_client]

definition proxy_main :: "string list \<Rightarrow> int proxy_io" where
  "proxy_main args =
     catch_io
       (case parse_fault_mode args of
          Inl m \<Rightarrow> throw (RuntimeError (Msg m))
        | Inr mode \<Rightarrow>
            bind_io create_listen_socket (\<lambda>listen_fd.
            bind_io (upd_local (fault_applied_update (\<lambda>_. False))) (\<lambda>_.
            bind_io (cout (ProxyListening kListenPort)) (\<lambda>_.
            bind_io (cout (ProxyMode (fault_mode_name mode))) (\<lambda>_.
            bind_io (proxy_accept_loop mode) (\<lambda>_.
            ret 0))))))
       (\<lambda>e. map_option (\<lambda>m. bind_io (cout (ProxyError m)) (\<lambda>_. ret 1)) (std_what e))"

end
