(* ===== verification/ProxyRelay.thy ===== *)
theory ProxyRelay
  imports FaultInjector
begin

text \<open>
  The proxy against its specification: a transducer that reads packets from the two sides
  and writes bytes to them. Whatever the kernel answers, the bytes the relay has written are
  those the transducer prescribes for the packets it has read.
\<close>

section \<open>The specification\<close>

datatype relay_input = FromSender packet | FromReceiver packet
datatype relay_output = ToReceiver bytes | ToSender bytes

text \<open>The frame of a packet with the first payload byte inverted.\<close>

definition corrupted_frame :: "packet \<Rightarrow> bytes" where
  "corrupted_frame p = header_of p @ (payload p)[0 := payload p ! 0 XOR 0xFF]"

text \<open>The output for one packet, and whether the fault has been applied after it.\<close>

fun relay_step :: "fault_mode \<Rightarrow> bool \<Rightarrow> relay_input \<Rightarrow> relay_output list \<times> bool" where
  "relay_step mode applied (FromSender p) =
     (if type_of p = Data \<and> mode = CorruptData \<and> \<not> applied then ([ToReceiver (corrupted_frame p)], True)
      else if type_of p = Heartbeat \<and> mode = Disconnect \<and> \<not> applied then ([], True)
      else ([ToReceiver (frame p)], applied))"
| "relay_step mode applied (FromReceiver p) =
     (if type_of p = Ack \<and> \<not> applied \<and> mode = DropAck then ([], True)
      else ([ToSender (frame p)], applied \<or> (type_of p = Ack \<and> mode = DelayAck)))"

fun relay_run :: "fault_mode \<Rightarrow> bool \<Rightarrow> relay_input list \<Rightarrow> relay_output list" where
  "relay_run mode applied [] = []"
| "relay_run mode applied (i # is) =
     fst (relay_step mode applied i) @ relay_run mode (snd (relay_step mode applied i)) is"

fun relay_applied :: "fault_mode \<Rightarrow> bool \<Rightarrow> relay_input list \<Rightarrow> bool" where
  "relay_applied mode applied [] = applied"
| "relay_applied mode applied (i # is) = relay_applied mode (snd (relay_step mode applied i)) is"

fun to_receiver :: "relay_output list \<Rightarrow> bytes" where
  "to_receiver [] = []"
| "to_receiver (ToReceiver bs # os) = bs @ to_receiver os"
| "to_receiver (ToSender bs # os) = to_receiver os"

fun to_sender :: "relay_output list \<Rightarrow> bytes" where
  "to_sender [] = []"
| "to_sender (ToReceiver bs # os) = to_sender os"
| "to_sender (ToSender bs # os) = bs @ to_sender os"

fun sender_packets :: "relay_input list \<Rightarrow> packet list" where
  "sender_packets [] = []"
| "sender_packets (FromSender p # is) = p # sender_packets is"
| "sender_packets (FromReceiver p # is) = sender_packets is"

fun receiver_packets :: "relay_input list \<Rightarrow> packet list" where
  "receiver_packets [] = []"
| "receiver_packets (FromSender p # is) = receiver_packets is"
| "receiver_packets (FromReceiver p # is) = p # receiver_packets is"

lemma io_append [simp]:
  "to_receiver (xs @ ys) = to_receiver xs @ to_receiver ys" "to_sender (xs @ ys) = to_sender xs @ to_sender ys"
  by (induction xs rule: to_receiver.induct) simp_all

lemma packets_append [simp]:
  "sender_packets (is @ js) = sender_packets is @ sender_packets js"
  "receiver_packets (is @ js) = receiver_packets is @ receiver_packets js"
  by (induction "is" rule: sender_packets.induct) simp_all

lemma relay_run_append:
  "relay_run mode a (is @ js) = relay_run mode a is @ relay_run mode (relay_applied mode a is) js"
  "relay_applied mode a (is @ js) = relay_applied mode (relay_applied mode a is) js"
  by (induction "is" arbitrary: a) simp_all

text \<open>Without a fault, or once it has been applied, the transducer copies.\<close>

lemma relay_transparent:
  "mode = FaultNone \<or> a \<Longrightarrow>
     to_receiver (relay_run mode a is) = concat (map frame (sender_packets is))
     \<and> to_sender (relay_run mode a is) = concat (map frame (receiver_packets is))
     \<and> relay_applied mode a is = a"
proof (induction "is" arbitrary: a)
  case (Cons i "is")
  show ?case
  proof (cases i)
    case (FromSender p)
    with Cons.prems have "relay_step mode a i = ([ToReceiver (frame p)], a)"
      by auto
    with Cons.IH [OF Cons.prems] FromSender show ?thesis
      by simp
  next
    case (FromReceiver p)
    with Cons.prems have "relay_step mode a i = ([ToSender (frame p)], a)"
      by auto
    with Cons.IH [OF Cons.prems] FromReceiver show ?thesis
      by simp
  qed
qed simp

section \<open>What the relay has read and written\<close>

text \<open>
  \<open>relayed ins\<close>: the packets \<open>ins\<close> were read and answered in full. \<open>relaying ins\<close>: they were
  read, perhaps with a part of a further frame, and the bytes written are a prefix of the
  transducer's.
\<close>

definition relayed ::
  "fd \<Rightarrow> fd \<Rightarrow> fault_mode \<Rightarrow> relay_input list \<Rightarrow> proxy_world \<Rightarrow> proxy_world \<Rightarrow> bool" where
  "relayed s r mode ins w w' \<longleftrightarrow>
     list_all small (sender_packets ins) \<and> list_all small (receiver_packets ins) \<and> stream_bytes (rx (socks w s)) = concat (map frame (sender_packets ins)) @ stream_bytes (rx (socks w' s))
     \<and> stream_bytes (rx (socks w r)) = concat (map frame (receiver_packets ins)) @ stream_bytes (rx (socks w' r))
     \<and> fault_applied (locals w') = relay_applied mode (fault_applied (locals w)) ins
     \<and> (\<exists>as. trace w' = trace w @ as
          \<and> wire_out r as = to_receiver (relay_run mode (fault_applied (locals w)) ins)
          \<and> wire_out s as = to_sender (relay_run mode (fault_applied (locals w)) ins))"

definition relaying ::
  "fd \<Rightarrow> fd \<Rightarrow> fault_mode \<Rightarrow> relay_input list \<Rightarrow> proxy_world \<Rightarrow> proxy_world \<Rightarrow> bool" where
  "relaying s r mode ins w w' \<longleftrightarrow>
     list_all small (sender_packets ins) \<and> list_all small (receiver_packets ins) \<and> prefix (concat (map frame (sender_packets ins))) (stream_bytes (rx (socks w s)))
     \<and> prefix (concat (map frame (receiver_packets ins))) (stream_bytes (rx (socks w r)))
     \<and> (\<exists>as. trace w' = trace w @ as
          \<and> prefix (wire_out r as) (to_receiver (relay_run mode (fault_applied (locals w)) ins))
          \<and> prefix (wire_out s as) (to_sender (relay_run mode (fault_applied (locals w)) ins)))"

lemma relayed_refl: "relayed s r mode [] w w"
  by (auto simp: relayed_def)

lemma relayed_append:
  assumes "relayed s r mode ins u v" "relayed s r mode ins' v w"
  shows "relayed s r mode (ins @ ins') u w"
proof -
  from assms obtain as as' where "trace v = trace u @ as" "trace w = trace v @ as'"
    "wire_out r as = to_receiver (relay_run mode (fault_applied (locals u)) ins)"
    "wire_out s as = to_sender (relay_run mode (fault_applied (locals u)) ins)"
    "wire_out r as' = to_receiver (relay_run mode (fault_applied (locals v)) ins')"
    "wire_out s as' = to_sender (relay_run mode (fault_applied (locals v)) ins')"
    by (auto simp: relayed_def)
  with assms show ?thesis
    unfolding relayed_def by (auto simp: relay_run_append intro!: exI [of _ "as @ as'"])
qed

lemma relayed_relaying: "relayed s r mode ins w w' \<Longrightarrow> relaying s r mode ins w w'"
  by (auto simp: relayed_def relaying_def)

lemma relaying_append:
  assumes "relayed s r mode ins u v" "relaying s r mode ins' v w"
  shows "relaying s r mode (ins @ ins') u w"
proof -
  from assms obtain as as' where "trace v = trace u @ as" "trace w = trace v @ as'"
    "wire_out r as = to_receiver (relay_run mode (fault_applied (locals u)) ins)"
    "wire_out s as = to_sender (relay_run mode (fault_applied (locals u)) ins)"
    "prefix (wire_out r as') (to_receiver (relay_run mode (fault_applied (locals v)) ins'))"
    "prefix (wire_out s as') (to_sender (relay_run mode (fault_applied (locals v)) ins'))"
    by (auto simp: relayed_def relaying_def)
  with assms show ?thesis
    unfolding relayed_def relaying_def by (auto simp: relay_run_append intro!: exI [of _ "as @ as'"])
qed

section \<open>The relay meets the specification\<close>

lemma proxy_receive_packet_takes:
  "proxy_receive_packet fd w = (x, w') \<Longrightarrow>
     \<exists>es got. w' = set_rx fd es w \<and> stream_bytes (rx (socks w fd)) = got @ stream_bytes es
       \<and> (case x of Ok p \<Rightarrow> small p \<and> got = frame p | _ \<Rightarrow> True)"
  unfolding proxy_receive_packet_eq by (rule framed_receive_takes)

lemma proxy_send_packet_sends:
  "small p \<Longrightarrow> proxy_send_packet fd p w = (x, w') \<Longrightarrow> sends fd (frame p) w x w'"
  using send_loop_sends [of 0 "frame p"]
  by (simp add: proxy_send_packet_def proxy_send_all_def encode_small bind_ret)

lemma corrupted_encoding:
  "payload p \<noteq> [] \<Longrightarrow> (frame p)[16 := frame p ! 16 XOR 0xFF] = corrupted_frame p"
  by (simp add: frame_def corrupted_frame_def list_update_append nth_append)

lemma send_corrupted_packet_sends:
  assumes "small p" "send_corrupted_packet fd p w = (x, w')"
  shows "(payload p = [] \<and> (\<forall>u. x \<noteq> Ok u) \<and> w' = w) \<or> sends fd (corrupted_frame p) w x w'"
proof (cases "payload p = []")
  case True
  with assms show ?thesis
    by (auto simp: send_corrupted_packet_def encode_small bind_ret length_frame throw_def)
next
  case False
  with assms have "send_loop (\<lambda>e. RuntimeError (Sys ''send failed: '' e))
      (PeerDisconnected (Msg ''connection closed while sending'')) fd (corrupted_frame p) 0 w = (x, w')"
    by (simp add: send_corrupted_packet_def proxy_send_all_def encode_small bind_ret length_frame
        corrupted_encoding split: if_splits)
  from send_loop_sends [OF _ this] show ?thesis
    by simp
qed

lemma from_sender_relays:
  assumes run: "from_sender s r mode w = (x, w')" and sr: "s \<noteq> r"
  shows "\<exists>ins. (case x of Ok c \<Rightarrow> relayed s r mode ins w w' | _ \<Rightarrow> relaying s r mode ins w w')"
proof -
  obtain y w1 where recv: "proxy_receive_packet s w = (y, w1)"
    by fastforce
  from proxy_receive_packet_takes [OF recv] obtain es got where w1: "w1 = set_rx s es w"
    "stream_bytes (rx (socks w s)) = got @ stream_bytes es"
    and y: "case y of Ok p \<Rightarrow> small p \<and> got = frame p | _ \<Rightarrow> True"
    by blast
  show ?thesis
  proof (cases "\<exists>p. y = Ok p")
    case False
    with run recv w1 have "w' = w1" "\<And>c. x \<noteq> Ok c"
      by (cases y; auto simp: from_sender_def bind_io_def)+
    moreover have "relaying s r mode [] w w1"
      using w1 by (auto simp: relaying_def)
    ultimately show ?thesis
      by (intro exI [of _ "[]"]) (auto split: result.splits)
  next
    case True
    then obtain p where p: "y = Ok p" "small p" "got = frame p"
      using y by auto
    let ?a = "fault_applied (locals w)"
    let ?in = "[FromSender p]"
    have rx1: "stream_bytes (rx (socks w s)) = frame p @ stream_bytes (rx (socks w1 s))"
      "socks w1 r = socks w r" "trace w1 = trace w" "locals w1 = locals w" "small p"
      using w1 p(2,3) sr by auto
    have sent: "(case z of Ok u \<Rightarrow> relayed s r mode ?in w (w2\<lparr>locals := fault_applied_update (\<lambda>_. a') (locals w2)\<rparr>)
        | _ \<Rightarrow> True) \<and> relaying s r mode ?in w w2"
      if z: "sends r data (w1\<lparr>trace := trace w1 @ [Line l]\<rparr>) z w2"
        and spec: "relay_step mode ?a (FromSender p) = ([ToReceiver data], a')"
      for data l z w2 a' and u :: unit
    proof -
      from z obtain ts as where as: "w2 = set_tx r ts (w1\<lparr>trace := trace w1 @ Line l # as\<rparr>)" "only_sent r as"
        "prefix (wire_out r as) data" "(\<exists>u. z = Ok u) \<longleftrightarrow> wire_out r as = data"
        by (auto simp: sends_def set_tx_def)
      have "wire_out s as = []"
        using only_sent_other [OF as(2) sr] .
      with as rx1 spec show ?thesis
        by (auto simp: relayed_def relaying_def split: result.splits)
    qed
    consider (corrupt) "type_of p = Data" "mode = CorruptData" "\<not> ?a"
      | (cut) "type_of p = Heartbeat" "mode = Disconnect" "\<not> ?a"
      | (copy) "\<not> (type_of p = Data \<and> mode = CorruptData \<and> \<not> ?a)" "\<not> (type_of p = Heartbeat \<and> mode = Disconnect \<and> \<not> ?a)"
      by blast
    then show ?thesis
    proof cases
      case corrupt
      let ?w2 = "w1\<lparr>trace := trace w1 @ [Line (CorruptedData (sequence p))]\<rparr>"
      obtain z w3 where send: "send_corrupted_packet r p ?w2 = (z, w3)"
        by fastforce
      have out: "(x, w') = (case z of Ok u \<Rightarrow> (Ok True, w3\<lparr>locals := fault_applied_update (\<lambda>_. True) (locals w3)\<rparr>)
          | Throw e \<Rightarrow> (Throw e, w3) | Blocked \<Rightarrow> (Blocked, w3))"
        using run recv p(1) corrupt rx1(4) send
        by (cases z) (auto simp: from_sender_def bind_io_def get_local_def cout_def emit_def upd_local_def ret_def)
      from send_corrupted_packet_sends [OF p(2) send] show ?thesis
      proof
        assume "sends r (corrupted_frame p) ?w2 z w3"
        from sent [OF this, of True] corrupt out show ?thesis
          by (intro exI [of _ ?in]) (cases z; simp)
      next
        assume none: "payload p = [] \<and> (\<forall>u. z \<noteq> Ok u) \<and> w3 = ?w2"
        then have "relaying s r mode ?in w w3"
          using corrupt rx1 by (auto simp: relaying_def)
        with none out show ?thesis
          by (intro exI [of _ ?in]) (cases z; simp)
      qed
    next
      case cut
      have "x = Throw (PeerDisconnected (Msg ''forced disconnect injected''))"
        "trace w' = trace w @ [Line (DisconnectedHeartbeat (sequence p)), ShutDown s, ShutDown r]"
        using run recv p(1) cut rx1
        by (auto simp: from_sender_def bind_io_Ok io_simps)
      moreover have "relaying s r mode ?in w w'"
        unfolding relaying_def using rx1 cut calculation(2) by simp
      ultimately show ?thesis
        by (intro exI [of _ ?in]) simp
    next
      case copy
      let ?w2 = "w1\<lparr>trace := trace w1 @ [Line (SenderToReceiver (message_type_name (type_of p)) (sequence p))]\<rparr>"
      obtain z w3 where send: "proxy_send_packet r p ?w2 = (z, w3)"
        by fastforce
      have out: "(x, w') = (case z of Ok u \<Rightarrow> (Ok False, w3) | Throw e \<Rightarrow> (Throw e, w3) | Blocked \<Rightarrow> (Blocked, w3))"
        using run recv p(1) copy rx1(4) send
        by (cases z) (auto simp: from_sender_def bind_io_def get_local_def cout_def emit_def ret_def)
      note s = proxy_send_packet_sends [OF p(2) send]
      have same: "w3\<lparr>locals := fault_applied_update (\<lambda>_. ?a) (locals w3)\<rparr> = w3"
        using s rx1(4) by (auto simp: sends_def set_tx_def)
      from sent [OF s, of ?a] copy out same show ?thesis
        by (intro exI [of _ ?in]) (cases z; simp)
    qed
  qed
qed

lemma from_receiver_relays:
  assumes run: "from_receiver s r mode w = (x, w')" and sr: "s \<noteq> r"
  shows "\<exists>ins. (case x of Ok c \<Rightarrow> relayed s r mode ins w w' | _ \<Rightarrow> relaying s r mode ins w w')"
proof -
  obtain y w1 where recv: "proxy_receive_packet r w = (y, w1)"
    by fastforce
  from proxy_receive_packet_takes [OF recv] obtain es got where w1: "w1 = set_rx r es w"
    "stream_bytes (rx (socks w r)) = got @ stream_bytes es"
    and y: "case y of Ok p \<Rightarrow> small p \<and> got = frame p | _ \<Rightarrow> True"
    by blast
  show ?thesis
  proof (cases "\<exists>p. y = Ok p")
    case False
    with run recv w1 have "w' = w1" "\<And>c. x \<noteq> Ok c"
      by (cases y; auto simp: from_receiver_def bind_io_def)+
    moreover have "relaying s r mode [] w w1"
      using w1 by (auto simp: relaying_def)
    ultimately show ?thesis
      by (intro exI [of _ "[]"]) (auto split: result.splits)
  next
    case True
    then obtain p where p: "y = Ok p" "small p" "got = frame p"
      using y by auto
    let ?a = "fault_applied (locals w)"
    let ?in = "[FromReceiver p]"
    have rx1: "stream_bytes (rx (socks w r)) = frame p @ stream_bytes (rx (socks w1 r))"
      "socks w1 s = socks w s" "trace w1 = trace w" "locals w1 = locals w" "small p"
      using w1 p(2,3) sr by auto
    show ?thesis
    proof (cases "type_of p = Ack \<and> \<not> ?a \<and> mode = DropAck")
      case True
      then have "x = Ok True" "trace w' = trace w1 @ [Line (DroppedAck (sequence p))]"
        "socks w' = socks w1" "fault_applied (locals w')"
        using run recv p(1) rx1(4) by (auto simp: from_receiver_def bind_io_Ok io_simps)
      with True rx1 show ?thesis
        by (intro exI [of _ ?in]) (simp add: relayed_def)
    next
      case copy: False
      define delayed where "delayed \<longleftrightarrow> type_of p = Ack \<and> \<not> ?a \<and> mode = DelayAck"
      define ls where "ls = (if delayed then [Line (DelayedAck kAckDelayMs (sequence p)), Slept kAckDelayMs] else [])"
      define line where "line = Line (ReceiverToSender (message_type_name (type_of p)) (sequence p))"
      define w2 where "w2 = (if delayed
        then w1\<lparr>locals := fault_applied_update (\<lambda>_. True) (locals w1), trace := trace w1 @ ls @ [line]\<rparr>
        else w1\<lparr>trace := trace w1 @ [line]\<rparr>)"
      have silent: "wire_out fd ls = []" for fd
        by (simp add: ls_def)
      have step: "relay_step mode ?a (FromReceiver p) = ([ToSender (frame p)], ?a \<or> delayed)"
        using copy by (auto simp: delayed_def)
      obtain z w3 where send: "proxy_send_packet s p w2 = (z, w3)"
        by fastforce
      have out: "(x, w') = (case z of Ok u \<Rightarrow> (Ok False, w3) | Throw e \<Rightarrow> (Throw e, w3) | Blocked \<Rightarrow> (Blocked, w3))"
      proof (cases delayed)
        case True
        with run recv p(1) copy rx1(4) send show ?thesis
          by (cases z) (auto simp: from_receiver_def bind_io_def get_local_def cout_def emit_def ret_def
              sleep_ms_def upd_local_def w2_def ls_def line_def delayed_def)
      next
        case False
        with run recv p(1) copy rx1(4) send show ?thesis
          by (cases z) (auto simp: from_receiver_def bind_io_def get_local_def cout_def emit_def ret_def
              w2_def ls_def line_def delayed_def)
      qed
      from proxy_send_packet_sends [OF p(2) send] obtain ts as where
        as: "w3 = set_tx s ts (w2\<lparr>trace := trace w2 @ as\<rparr>)" "only_sent s as"
          "prefix (wire_out s as) (frame p)" "(\<exists>u. z = Ok u) \<longleftrightarrow> wire_out s as = frame p"
        by (auto simp: sends_def)
      have "wire_out r as = []"
        using only_sent_other [OF as(2)] sr by simp
      with as rx1 step silent have
        "(case z of Ok u \<Rightarrow> relayed s r mode ?in w w3 | _ \<Rightarrow> True) \<and> relaying s r mode ?in w w3"
        by (auto simp: relayed_def relaying_def w2_def ls_def line_def split: result.splits)
      with out show ?thesis
        by (intro exI [of _ ?in]) (cases z; simp)
    qed
  qed
qed

lemma relayed_poll: "sys_poll ps t w = (y, w1) \<Longrightarrow> relayed s r mode [] w w1"
  by (auto simp: sys_poll_def relayed_def Let_def split: list.splits poll_event.splits)

lemma relay_pass_relays:
  assumes run: "relay_pass s r mode w = (x, w')" and sr: "s \<noteq> r"
  shows "\<exists>ins. (case x of Ok u \<Rightarrow> relayed s r mode ins w w' | _ \<Rightarrow> relaying s r mode ins w w')"
proof -
  obtain y w1 where poll: "sys_poll [s, r] (- 1) w = (y, w1)"
    by fastforce
  note w1 = relayed_poll [OF poll, of s r mode]
  show ?thesis
  proof (cases "\<exists>rs. y = Ok (Inr rs)")
    case False
    with run poll have "w' = w1"
      by (cases y) (auto simp: relay_pass_def bind_io_def ret_def throw_def split: sum.splits if_splits)
    with w1 relayed_relaying [OF w1] show ?thesis
      by (intro exI [of _ "[]"]) (auto split: result.splits)
  next
    case True
    then obtain rs where y: "y = Ok (Inr rs)"
      by blast
    define one two where "one = (if POLLIN \<in> revents_at rs 0 then from_sender s r mode else ret False)"
      and "two = (if POLLIN \<in> revents_at rs 1 then from_receiver s r mode else ret False)"
    define G :: "bool \<Rightarrow> unit proxy_io" where "G = (\<lambda>continued. if continued then ret ()
      else if hung_up (revents_at rs 0) then throw (PeerDisconnected (Msg ''sender connection closed''))
      else if hung_up (revents_at rs 1) then throw (PeerDisconnected (Msg ''receiver connection closed''))
      else ret ())"
    define F where "F = (\<lambda>continued. if continued then ret () else bind_io two G)"
    have pass: "bind_io one F w1 = (x, w')"
      using run poll y by (simp only: relay_pass_def bind_io_Ok sum.case one_def two_def F_def G_def)
    obtain c1 w2 where one: "one w1 = (c1, w2)"
      by fastforce
    have "\<exists>ins. (case c1 of Ok c \<Rightarrow> relayed s r mode ins w1 w2 | _ \<Rightarrow> relaying s r mode ins w1 w2)"
    proof (cases "POLLIN \<in> revents_at rs 0")
      case True
      with one show ?thesis
        by (intro from_sender_relays [OF _ sr]) (simp add: one_def)
    next
      case False
      with one relayed_refl show ?thesis
        by (intro exI [of _ "[]"]) (auto simp: ret_def one_def)
    qed
    then obtain i1 where i1: "case c1 of Ok c \<Rightarrow> relayed s r mode i1 w w2 | _ \<Rightarrow> relaying s r mode i1 w w2"
      using relayed_append [OF w1] relaying_append [OF w1] by (cases c1; simp; blast)
    show ?thesis
    proof (cases "c1 = Ok False")
      case False
      with pass one have "w' = w2" "(\<exists>u. x = Ok u) \<longleftrightarrow> (\<exists>c. c1 = Ok c)"
        by (cases c1; auto simp: bind_io_Ok bind_io_Throw bind_io_Blocked F_def ret_def)+
      with i1 show ?thesis
        by (intro exI [of _ i1]) (auto split: result.splits intro: relayed_relaying)
    next
      case True
      with i1 have r1: "relayed s r mode i1 w w2"
        by simp
      obtain c2 w3 where two: "two w2 = (c2, w3)"
        by fastforce
      have "\<exists>ins. (case c2 of Ok c \<Rightarrow> relayed s r mode ins w2 w3 | _ \<Rightarrow> relaying s r mode ins w2 w3)"
      proof (cases "POLLIN \<in> revents_at rs 1")
        case True
        with two show ?thesis
          by (intro from_receiver_relays [OF _ sr]) (simp add: two_def)
      next
        case False
        with two relayed_refl show ?thesis
          by (intro exI [of _ "[]"]) (auto simp: ret_def two_def)
      qed
      then obtain i2 where i2: "case c2 of Ok c \<Rightarrow> relayed s r mode i2 w w3 | _ \<Rightarrow> relaying s r mode i2 w w3"
        using relayed_append [OF r1] relaying_append [OF r1] by (cases c2; simp; blast)
      have "bind_io one F w1 = F False w2"
        by (rule bind_io_Ok) (use one True in simp)
      with pass have "bind_io two G w2 = (x, w')"
        by (simp add: F_def)
      then have "w' = w3" "(\<exists>u. x = Ok u) \<Longrightarrow> (\<exists>c. c2 = Ok c)"
        using two by (cases c2; auto simp: bind_io_def G_def ret_def throw_def split: if_splits)+
      with i2 show ?thesis
        by (intro exI [of _ i2]) (auto split: result.splits intro: relayed_relaying)
    qed
  qed
qed

lemma relay_connection_never_returns: "relay_connection s r mode w \<noteq> (Ok u, w')"
proof (induction s r mode w rule: relay_connection.induct)
  case (1 s r mode w)
  then show ?case
    by (subst relay_connection.simps) (auto split: prod.splits result.splits)
qed

lemma relay_connection_relays:
  "s \<noteq> r \<Longrightarrow> relay_connection s r mode w = (x, w') \<Longrightarrow> \<exists>ins. relaying s r mode ins w w'"
proof (induction s r mode w rule: relay_connection.induct)
  case (1 s r mode w)
  obtain y w1 where pass: "relay_pass s r mode w = (y, w1)"
    by fastforce
  from relay_pass_relays [OF pass "1.prems"(1)] obtain i1 where
    i1: "case y of Ok u \<Rightarrow> relayed s r mode i1 w w1 | _ \<Rightarrow> relaying s r mode i1 w w1"
    by blast
  note run = "1.prems"(2) [unfolded relay_connection.simps [of s r mode w] pass prod.case]
  show ?case
  proof (cases y)
    case (Ok u)
    with run have "relay_connection s r mode w1 = (x, w')"
      by simp
    from "1.IH" [OF pass [symmetric] Ok "1.prems"(1) this] obtain i2 where "relaying s r mode i2 w1 w'"
      by blast
    with i1 Ok show ?thesis
      by (auto intro: relaying_append)
  qed (use run i1 in auto)
qed

section \<open>The relay delivers\<close>

text \<open>
  Inputs that keep the connection: no heartbeat on which a disconnection is due, no empty
  DATA packet that is to be corrupted.
\<close>

fun keeps_connection :: "fault_mode \<Rightarrow> bool \<Rightarrow> relay_input \<Rightarrow> bool" where
  "keeps_connection mode applied (FromSender p) \<longleftrightarrow> small p
     \<and> \<not> (type_of p = Heartbeat \<and> mode = Disconnect \<and> \<not> applied)
     \<and> \<not> (type_of p = Data \<and> mode = CorruptData \<and> \<not> applied \<and> payload p = [])"
| "keeps_connection mode applied (FromReceiver p) \<longleftrightarrow> small p"

fun keep_connection :: "fault_mode \<Rightarrow> bool \<Rightarrow> relay_input list \<Rightarrow> bool" where
  "keep_connection mode applied [] = True"
| "keep_connection mode applied (i # is) =
     (keeps_connection mode applied i \<and> keep_connection mode (snd (relay_step mode applied i)) is)"

text \<open>The state of the two sockets in which the inputs can be relayed.\<close>

definition relay_ready ::
  "fd \<Rightarrow> fd \<Rightarrow> fault_mode \<Rightarrow> relay_input list \<Rightarrow> bytes \<Rightarrow> bytes \<Rightarrow> proxy_world \<Rightarrow> bool" where
  "relay_ready s r mode ins bs br w \<longleftrightarrow>
     incoming s (concat (map frame (sender_packets ins)) @ bs) w
     \<and> incoming r (concat (map frame (receiver_packets ins)) @ br) w
     \<and> accepting r (length (to_receiver (relay_run mode (fault_applied (locals w)) ins))) w
     \<and> accepting s (length (to_sender (relay_run mode (fault_applied (locals w)) ins))) w
     \<and> keep_connection mode (fault_applied (locals w)) ins"

text \<open>The part of it that is about the sockets only.\<close>

definition relay_streams ::
  "fd \<Rightarrow> fd \<Rightarrow> fault_mode \<Rightarrow> relay_input list \<Rightarrow> bytes \<Rightarrow> bytes \<Rightarrow> proxy_world \<Rightarrow> bool" where
  "relay_streams s r mode ins bs br w \<longleftrightarrow>
     incoming s (concat (map frame (sender_packets ins)) @ bs) w
     \<and> incoming r (concat (map frame (receiver_packets ins)) @ br) w
     \<and> accepting r (length (to_receiver (relay_run mode (fault_applied (locals w)) ins))) w
     \<and> accepting s (length (to_sender (relay_run mode (fault_applied (locals w)) ins))) w"

lemma relay_ready_iff:
  "relay_ready s r mode ins bs br w \<longleftrightarrow>
     relay_streams s r mode ins bs br w \<and> keep_connection mode (fault_applied (locals w)) ins"
  unfolding relay_ready_def relay_streams_def by blast

lemma relay_ready_same:
  "relay_ready s r mode ins bs br w \<Longrightarrow> socks w' = socks w \<Longrightarrow> locals w' = locals w \<Longrightarrow>
     relay_ready s r mode ins bs br w'"
  by (simp add: relay_ready_def incoming_def accepting_def)

text \<open>Reading a frame on one side leaves the rest of the stream and the other side alone.\<close>

lemma proxy_receive_frame:
  assumes "incoming fd (frame p @ bs) w" "small p"
  obtains es where "proxy_receive_packet fd w = (Ok p, set_rx fd es w)" "incoming fd bs (set_rx fd es w)"
    "stream_bytes (rx (socks w fd)) = frame p @ stream_bytes es"
proof -
  from blocking.receive_frame [OF assms] obtain w1 where
    recv: "proxy_receive_packet fd w = (Ok p, w1)" and rest: "incoming fd bs w1"
    by (auto simp: proxy_receive_packet_eq)
  from proxy_receive_packet_takes [OF recv] rest recv that show thesis
    by auto
qed

lemma proxy_send_loop_delivers:
  assumes "accepting fd (length data + m) w"
  obtains ts as where "proxy_send_all fd data w = (Ok (), set_tx fd ts (w\<lparr>trace := trace w @ as\<rparr>))"
    "only_sent fd as" "wire_out fd as = data" "accepting fd m (set_tx fd ts w)"
proof -
  from send_loop_delivers [OF assms] obtain ts as where
    "send_loop (\<lambda>e. RuntimeError (Sys ''send failed: '' e)) (PeerDisconnected (Msg ''connection closed while sending''))
       fd data 0 w = (Ok (), set_tx fd ts (w\<lparr>trace := trace w @ as\<rparr>))"
    "only_sent fd as" "wire_out fd as = data" "accepting fd m (set_tx fd ts (w\<lparr>trace := trace w @ as\<rparr>))"
    by metis
  with that show thesis
    by (simp add: proxy_send_all_def accepting_def set_tx_def)
qed

text \<open>One input from the sender: what is sent to \<open>r\<close> after reading it, in either case.\<close>

lemma from_sender_delivers:
  assumes ready: "relay_ready s r mode (FromSender p # is) bs br w" and sr: "s \<noteq> r"
  shows "\<exists>w' c. from_sender s r mode w = (Ok c, w') \<and> relay_ready s r mode is bs br w'
    \<and> relayed s r mode [FromSender p] w w' \<and> polls w' = polls w"
proof -
  let ?a = "fault_applied (locals w)"
  define data where "data = (if type_of p = Data \<and> mode = CorruptData \<and> \<not> ?a then corrupted_frame p else frame p)"
  define a' where "a' \<longleftrightarrow> ?a \<or> type_of p = Data \<and> mode = CorruptData"
  from ready have small: "small p" and keep: "keeps_connection mode ?a (FromSender p)"
    by (auto simp: relay_ready_def)
  have step: "relay_step mode ?a (FromSender p) = ([ToReceiver data], a')"
    using keep by (auto simp: data_def a'_def)
  have "incoming s (frame p @ (concat (map frame (sender_packets is)) @ bs)) w"
    using ready by (simp add: relay_ready_def)
  then obtain es where recv: "proxy_receive_packet s w = (Ok p, set_rx s es w)"
    and rest: "incoming s (concat (map frame (sender_packets is)) @ bs) (set_rx s es w)"
    and stream: "stream_bytes (rx (socks w s)) = frame p @ stream_bytes es"
    using small by (rule proxy_receive_frame)
  define line where "line = (if type_of p = Data \<and> mode = CorruptData \<and> \<not> ?a then CorruptedData (sequence p)
    else SenderToReceiver (message_type_name (type_of p)) (sequence p))"
  let ?w1 = "(set_rx s es w)\<lparr>trace := trace w @ [Line line]\<rparr>"
  have "accepting r (length data + length (to_receiver (relay_run mode a' is))) ?w1"
    using ready step by (simp add: relay_ready_def)
  then obtain ts as where send: "proxy_send_all r data ?w1 = (Ok (), set_tx r ts (?w1\<lparr>trace := trace ?w1 @ as\<rparr>))"
    and as: "only_sent r as" "wire_out r as = data"
    and acc: "accepting r (length (to_receiver (relay_run mode a' is))) (set_tx r ts ?w1)"
    by (rule proxy_send_loop_delivers)
  let ?w2 = "set_tx r ts (?w1\<lparr>trace := trace ?w1 @ as\<rparr>)"
  define w' where "w' = (if a' = ?a then ?w2 else ?w2\<lparr>locals := fault_applied_update (\<lambda>_. True) (locals ?w2)\<rparr>)"
  have run: "\<exists>c. from_sender s r mode w = (Ok c, w')"
  proof (cases "type_of p = Data \<and> mode = CorruptData \<and> \<not> ?a")
    case True
    with keep have "payload p \<noteq> []"
      by auto
    then have "send_corrupted_packet r p ?w1 = (Ok (), ?w2)"
      using send small True
      by (simp add: send_corrupted_packet_def encode_small bind_ret length_frame corrupted_encoding data_def)
    with recv True have "from_sender s r mode w = (Ok True, w')"
      by (simp add: from_sender_def bind_io_Ok io_simps line_def w'_def a'_def)
    then show ?thesis ..
  next
    case False
    then have "proxy_send_packet r p ?w1 = (Ok (), ?w2)"
      using send small by (auto simp: proxy_send_packet_def encode_small bind_ret data_def)
    moreover have "\<not> (type_of p = Heartbeat \<and> mode = Disconnect \<and> \<not> ?a)"
      using keep by simp
    ultimately have "from_sender s r mode w = (Ok False, w')"
      using recv False by (auto simp: from_sender_def bind_io_Ok io_simps line_def w'_def a'_def)
    then show ?thesis ..
  qed
  have w': "rx (socks w' s) = es" "rx (socks w' r) = rx (socks w r)" "tx (socks w' s) = tx (socks w s)"
    "tx (socks w' r) = ts" "fault_applied (locals w') = a'" "polls w' = polls w"
    "trace w' = trace w @ Line line # as"
    using sr by (auto simp: w'_def a'_def set_tx_def set_rx_def)
  have "relayed s r mode [FromSender p] w w'"
    using w' step stream small as only_sent_other [OF as(1) sr]
    by (auto simp: relayed_def)
  moreover have "relay_ready s r mode is bs br w'"
    using ready rest acc step w' by (simp add: relay_ready_def incoming_def accepting_def)
  ultimately show ?thesis
    using run w'(6) by blast
qed

text \<open>One input from the receiver.\<close>

lemma from_receiver_drops:
  assumes ready: "relay_ready s r mode (FromReceiver p # is) bs br w" and sr: "s \<noteq> r"
    and drop: "type_of p = Ack" "\<not> fault_applied (locals w)" "mode = DropAck"
  shows "\<exists>w' c. from_receiver s r mode w = (Ok c, w') \<and> relay_ready s r mode is bs br w'
    \<and> relayed s r mode [FromReceiver p] w w' \<and> polls w' = polls w"
proof -
  have "incoming r (frame p @ (concat (map frame (receiver_packets is)) @ br)) w" and small: "small p"
    using ready by (simp_all add: relay_ready_def)
  then obtain es where recv: "proxy_receive_packet r w = (Ok p, set_rx r es w)"
    and rest: "incoming r (concat (map frame (receiver_packets is)) @ br) (set_rx r es w)"
    and stream: "stream_bytes (rx (socks w r)) = frame p @ stream_bytes es"
    by (rule proxy_receive_frame)
  let ?w' = "(set_rx r es w)\<lparr>trace := trace w @ [Line (DroppedAck (sequence p))],
    locals := fault_applied_update (\<lambda>_. True) (locals w)\<rparr>"
  have "from_receiver s r mode w = (Ok True, ?w')"
    using recv drop by (simp add: from_receiver_def bind_io_Ok io_simps)
  moreover have "relayed s r mode [FromReceiver p] w ?w'"
    using stream drop sr small by (simp add: relayed_def)
  moreover have "relay_ready s r mode is bs br ?w'"
    using ready rest drop sr by (simp add: relay_ready_def incoming_def accepting_def)
  ultimately show ?thesis
    by (intro exI [of _ ?w'] exI [of _ True]) simp
qed

lemma from_receiver_copies:
  assumes ready: "relay_ready s r mode (FromReceiver p # is) bs br w" and sr: "s \<noteq> r"
    and copy: "\<not> (type_of p = Ack \<and> \<not> fault_applied (locals w) \<and> mode = DropAck)"
  shows "\<exists>w' c. from_receiver s r mode w = (Ok c, w') \<and> relay_ready s r mode is bs br w'
    \<and> relayed s r mode [FromReceiver p] w w' \<and> polls w' = polls w"
proof -
  let ?a = "fault_applied (locals w)"
  define delayed where "delayed \<longleftrightarrow> type_of p = Ack \<and> \<not> ?a \<and> mode = DelayAck"
  define a' where "a' \<longleftrightarrow> ?a \<or> delayed"
  have small: "small p"
    using ready by (simp add: relay_ready_def)
  have step: "relay_step mode ?a (FromReceiver p) = ([ToSender (frame p)], a')"
    using copy by (auto simp: a'_def delayed_def)
  have "incoming r (frame p @ (concat (map frame (receiver_packets is)) @ br)) w"
    using ready by (simp add: relay_ready_def)
  then obtain es where recv: "proxy_receive_packet r w = (Ok p, set_rx r es w)"
    and rest: "incoming r (concat (map frame (receiver_packets is)) @ br) (set_rx r es w)"
    and stream: "stream_bytes (rx (socks w r)) = frame p @ stream_bytes es"
    using small by (rule proxy_receive_frame)
  define ls where "ls = (if delayed then [Line (DelayedAck kAckDelayMs (sequence p)), Slept kAckDelayMs] else [])
    @ [Line (ReceiverToSender (message_type_name (type_of p)) (sequence p))]"
  have silent: "wire_out fd ls = []" for fd
    by (simp add: ls_def)
  let ?w1 = "(set_rx r es w)\<lparr>trace := trace w @ ls, locals := fault_applied_update (\<lambda>_. a') (locals w)\<rparr>"
  have "accepting s (length (frame p) + length (to_sender (relay_run mode a' is))) ?w1"
    using ready step by (simp add: relay_ready_def accepting_def)
  then obtain ts as where send: "proxy_send_all s (frame p) ?w1 = (Ok (), set_tx s ts (?w1\<lparr>trace := trace ?w1 @ as\<rparr>))"
    and as: "only_sent s as" "wire_out s as = frame p"
    and acc: "accepting s (length (to_sender (relay_run mode a' is))) (set_tx s ts ?w1)"
    by (rule proxy_send_loop_delivers)
  let ?w2 = "set_tx s ts (?w1\<lparr>trace := trace ?w1 @ as\<rparr>)"
  have "proxy_send_packet s p ?w1 = (Ok (), ?w2)"
    using send small by (simp add: proxy_send_packet_def encode_small bind_ret)
  moreover have "from_receiver s r mode w = bind_io (proxy_send_packet s p) (\<lambda>_. ret False) ?w1"
  proof (cases delayed)
    case True
    then have now: "a'" "type_of p = Ack" "\<not> ?a" "mode = DelayAck"
      by (auto simp: a'_def delayed_def)
    have w1: "?w1 = (set_rx r es w)\<lparr>locals := fault_applied_update (\<lambda>_. True) (locals w), trace := trace w @ ls\<rparr>"
      using \<open>a'\<close> by (cases "set_rx r es w") simp
    show ?thesis
      unfolding w1 using recv True now by (simp add: from_receiver_def bind_io_Ok io_simps ls_def)
  next
    case False
    then have "fault_applied_update (\<lambda>_. a') (locals w) = locals w"
      by (simp add: a'_def)
    then have w1: "?w1 = (set_rx r es w)\<lparr>trace := trace w @ ls\<rparr>"
      by (cases w) (simp add: set_rx_def)
    have quiet: "\<not> (type_of p = Ack \<and> \<not> ?a \<and> mode = DelayAck)"
      using False by (simp add: delayed_def)
    have ls: "ls = [Line (ReceiverToSender (message_type_name (type_of p)) (sequence p))]"
      using False by (simp add: ls_def)
    show ?thesis
      unfolding w1 unfolding ls from_receiver_def
      by (simp only: bind_io_Ok [where m = "proxy_receive_packet r" and w = w, OF recv] bind_get_local set_rx_simps copy quiet if_False bind_ret bind_cout)
  qed
  ultimately have run: "from_receiver s r mode w = (Ok False, ?w2)"
    by (simp add: bind_io_Ok ret_def)
  have "relayed s r mode [FromReceiver p] w ?w2"
    using step stream small as only_sent_other [OF as(1), of r] sr silent
    by (auto simp: relayed_def set_tx_def)
  moreover have "relay_ready s r mode is bs br ?w2"
    using ready rest acc step sr by (simp add: relay_ready_def incoming_def accepting_def set_tx_def)
  moreover have "polls ?w2 = polls w"
    by (simp add: set_tx_def)
  ultimately show ?thesis
    using run by blast
qed

lemma from_receiver_delivers:
  assumes "relay_ready s r mode (FromReceiver p # is) bs br w" "s \<noteq> r"
  shows "\<exists>w' c. from_receiver s r mode w = (Ok c, w') \<and> relay_ready s r mode is bs br w'
    \<and> relayed s r mode [FromReceiver p] w w' \<and> polls w' = polls w"
  using from_receiver_drops [OF assms] from_receiver_copies [OF assms] by blast

text \<open>One readable socket per pass.\<close>

fun poll_for :: "relay_input \<Rightarrow> poll_event" where
  "poll_for (FromSender p) = PollReturn [{POLLIN}, {}]"
| "poll_for (FromReceiver p) = PollReturn [{}, {POLLIN}]"

lemma relay_pass_delivers:
  assumes ready: "relay_ready s r mode (i # is) bs br w" and sr: "s \<noteq> r"
    and polls: "polls w = poll_for i # es"
  shows "\<exists>w'. relay_pass s r mode w = (Ok (), w') \<and> relay_ready s r mode is bs br w'
    \<and> relayed s r mode [i] w w' \<and> polls w' = es"
proof -
  let ?w1 = "w\<lparr>trace := trace w @ [Polled (- 1)], polls := es\<rparr>"
  have upt: "[0..<length [s, r]] = [0, 1]"
    by (simp add: upt_rec)
  have poll: "sys_poll [s, r] (- 1) w = (Ok (Inr (case i of FromSender _ \<Rightarrow> [{POLLIN}, {}] | FromReceiver _ \<Rightarrow> [{}, {POLLIN}])), ?w1)"
    using polls unfolding sys_poll_def upt by (cases i) (simp_all add: revents_at_def)
  have r1: "relay_ready s r mode (i # is) bs br ?w1"
    by (rule relay_ready_same [OF ready]) simp_all
  note r0 = relayed_poll [OF poll, of s r mode]
  show ?thesis
  proof (cases i)
    case (FromSender p)
    from from_sender_delivers [OF r1 [unfolded FromSender] sr] obtain w' c where w': "from_sender s r mode ?w1 = (Ok c, w')"
      "relay_ready s r mode is bs br w'" "relayed s r mode [FromSender p] ?w1 w'" "polls w' = polls ?w1"
      by blast
    have "relay_pass s r mode w = (Ok (), w')"
      using poll w'(1) unfolding FromSender
      by (simp add: relay_pass_def bind_io_Ok revents_at_def bind_ret hung_up_def apply_io)
    with w' relayed_append [OF r0 w'(3)] FromSender show ?thesis
      by simp
  next
    case (FromReceiver p)
    from from_receiver_delivers [OF r1 [unfolded FromReceiver] sr] obtain w' c where w': "from_receiver s r mode ?w1 = (Ok c, w')"
      "relay_ready s r mode is bs br w'" "relayed s r mode [FromReceiver p] ?w1 w'" "polls w' = polls ?w1"
      by blast
    have "relay_pass s r mode w = (Ok (), w')"
      using poll w'(1) unfolding FromReceiver
      by (simp add: relay_pass_def bind_io_Ok revents_at_def bind_ret hung_up_def apply_io)
    with w' relayed_append [OF r0 w'(3)] FromReceiver show ?thesis
      by simp
  qed
qed

lemma relay_delivers:
  assumes "relay_ready s r mode ins bs br w" "s \<noteq> r" "polls w = map poll_for ins @ es"
  shows "\<exists>w'. relay_connection s r mode w = relay_connection s r mode w'
    \<and> relay_ready s r mode [] bs br w' \<and> relayed s r mode ins w w' \<and> polls w' = es"
  using assms
proof (induction ins arbitrary: w)
  case Nil
  then show ?case
    by (auto intro: relayed_refl)
next
  case (Cons i ins)
  from relay_pass_delivers [OF Cons.prems(1,2), of "map poll_for ins @ es"] Cons.prems(3)
  obtain w1 where w1: "relay_pass s r mode w = (Ok (), w1)" "relay_ready s r mode ins bs br w1"
    "relayed s r mode [i] w w1" "polls w1 = map poll_for ins @ es"
    by auto
  from Cons.IH [OF w1(2) Cons.prems(2) w1(4)] obtain w2 where
    w2: "relay_connection s r mode w1 = relay_connection s r mode w2"
      "relay_ready s r mode [] bs br w2" "relayed s r mode ins w1 w2" "polls w2 = es"
    by blast
  have "relay_connection s r mode w = relay_connection s r mode w1"
    using w1(1) by (subst relay_connection.simps) simp
  with w2 relayed_append [OF w1(3) w2(3)] show ?case
    by auto
qed

end
