(* ===== verification/ProxyProgram.thy ===== *)
theory ProxyProgram
  imports ProxyRelay "HOL-Library.Multiset"
begin

text \<open>
  The properties of the fault injector as a program: failures of a connection stay inside
  it, a fault is injected at most once per process, and the bytes that leave the proxy.
\<close>

section \<open>Exceptions\<close>

lemma standard_receive: "raises standard (proxy_receive_packet fd)"
  unfolding proxy_receive_packet_eq by (intro raises_framed_receive raises_recv_loop) simp_all

lemma standard_send: "raises standard (proxy_send_packet fd p)"
  unfolding proxy_send_packet_def proxy_send_all_def
  by (intro raises_rules raises_lift_codec raises_send_loop) simp_all

lemma standard_send_corrupted: "raises standard (send_corrupted_packet fd p)"
  unfolding send_corrupted_packet_def proxy_send_all_def
  by (intro raises_rules raises_lift_codec raises_send_loop) simp_all

lemma standard_relay_pass: "raises standard (relay_pass s r mode)"
  unfolding relay_pass_def from_sender_def from_receiver_def
  by (intro raises_rules standard_receive standard_send standard_send_corrupted) simp_all

lemma standard_relay_connection: "raises standard (relay_connection s r mode)"
proof -
  have "relay_connection s r mode w = (Throw e, w') \<Longrightarrow> standard e" for w e w'
  proof (induction s r mode w rule: relay_connection.induct)
    case (1 s r mode w)
    from "1.prems" [unfolded relay_connection.simps [of s r mode w]] show ?case
      using "1.IH" raisesD [OF standard_relay_pass, of s r mode w]
      by (auto split: prod.splits result.splits)
  qed
  then show ?thesis
    by (rule raisesI)
qed

text \<open>The handlers of a connection take every exception the programs throw.\<close>

lemma report_connection_standard: "standard e \<Longrightarrow> report_connection e x \<noteq> None"
  by (cases e) (auto simp: report_connection_def)

lemma report_connection_raises: "report_connection e x = Some k \<Longrightarrow> raises E k"
  by (erule report_connection_Some) (simp add: raises_rules)

lemma contained: "raises standard m \<Longrightarrow> raises (\<lambda>_. False) (catch_io m (\<lambda>e. report_connection e x))"
  by (erule raises_catch) (auto intro: report_connection_raises dest: report_connection_standard)

lemma proxy_client_never_throws: "raises (\<lambda>_. False) (proxy_client mode s)"
proof -
  have "raises standard proxy_connect_to_receiver"
    unfolding proxy_connect_to_receiver_def by (intro raises_rules) simp_all
  then show ?thesis
    unfolding proxy_client_def by (intro raises_rules contained standard_relay_connection)
qed

lemma proxy_accept_loop_result:
  "proxy_accept_loop mode w = (x, w') \<Longrightarrow>
     x = Blocked \<or> (\<exists>e. x = Throw (RuntimeError (Sys ''accept failed: '' e)) \<and> e \<noteq> EINTR)"
proof (induction mode w rule: proxy_accept_loop.induct)
  case (1 mode w)
  obtain y w1 where opn: "sys_open w = (y, w1)"
    by fastforce
  show ?case
  proof (cases y)
    case (Ok z)
    show ?thesis
    proof (cases z)
      case (Inl e)
      with 1 opn Ok show ?thesis
        by (cases "e = EINTR") (auto simp: proxy_accept_loop.simps [of mode w])
    next
      case (Inr s)
      obtain c w2 where client: "proxy_client mode s w1 = (c, w2)"
        by fastforce
      show ?thesis
      proof (cases c)
        case (Ok u)
        with "1.IH"(2) [OF opn [symmetric] _ Inr client [symmetric]] "1.prems" opn Inr client \<open>y = Ok z\<close>
        show ?thesis
          by (simp add: proxy_accept_loop.simps [of mode w])
      next
        case (Throw e)
        with raisesD [OF proxy_client_never_throws, of mode s w1 e w2] client show ?thesis
          by simp
      next
        case Blocked
        with "1.prems" opn Inr client \<open>y = Ok z\<close> show ?thesis
          by (simp add: proxy_accept_loop.simps [of mode w])
      qed
    qed
  qed (use opn "1.prems" in \<open>simp_all add: proxy_accept_loop.simps [of mode w] sys_calls_no_throw\<close>)
qed

section \<open>Descriptors\<close>

definition not_closed :: "'l action \<Rightarrow> bool" where
  "not_closed a \<longleftrightarrow> (case a of Closed fd \<Rightarrow> False | _ \<Rightarrow> True)"

lemma not_closed_simps [simp]:
  "not_closed (Line l)" "not_closed (Sent fd bs)" "not_closed (ShutDown fd)" "not_closed (Slept n)"
  "not_closed (Polled t)" "\<not> not_closed (Closed fd)"
  by (simp_all add: not_closed_def)

fun closed_fds :: "'l action list \<Rightarrow> fd list" where
  "closed_fds [] = []"
| "closed_fds (Closed fd # as) = fd # closed_fds as"
| "closed_fds (a # as) = closed_fds as"

lemma closed_fds_append [simp]: "closed_fds (as @ bs) = closed_fds as @ closed_fds bs"
  by (induction as rule: closed_fds.induct) simp_all

lemma closed_fds_none: "list_all not_closed as \<Longrightarrow> closed_fds as = []"
  by (induction as rule: closed_fds.induct) simp_all

text \<open>Relaying opens and closes nothing.\<close>

lemma logs_relay_pass: "within (logs not_closed) (relay_pass s r mode)"
proof -
  have receive: "within (logs not_closed) (proxy_receive_packet fd)" for fd :: fd
    unfolding proxy_receive_packet_eq by (intro logs_appends appends_framed_receive appends_recv_loop)
  have send: "within (logs not_closed) (proxy_send_packet fd p)"
    "within (logs not_closed) (send_corrupted_packet fd p)" for fd :: fd and p
    unfolding proxy_send_packet_def send_corrupted_packet_def proxy_send_all_def
    by (intro logs_appends appends.within_rules appends_lift_codec appends_send_loop; simp)+
  have out: "within (logs not_closed) (cout l)" "within (logs not_closed) (sys_shutdown fd)"
    "within (logs not_closed) (sleep_ms n)" "within (logs not_closed) (sys_poll ps t)" for l :: proxy_line and fd n ps t
    by (simp_all add: cout_def sys_shutdown_def sleep_ms_def logs_emit appends_poll [THEN logs_appends])
  show ?thesis
    unfolding relay_pass_def from_sender_def from_receiver_def
    by (intro logs.within_rules receive send out logs_upd_local)
qed

lemmas logs_relay_connection = relay_connection_within [OF logs.world_order_axioms logs_relay_pass]

fun opened_fds :: "(errno + fd \<times> sock) list \<Rightarrow> fd list" where
  "opened_fds [] = []"
| "opened_fds (Inl e # rs) = opened_fds rs"
| "opened_fds (Inr (fd, _) # rs) = fd # opened_fds rs"

lemma connect_closes:
  assumes "proxy_connect_to_receiver w = (x, w')"
  shows "case x of
      Ok fd \<Rightarrow> trace w' = trace w \<and> (\<exists>k. fds w = Inr (fd, k) # fds w')
    | Throw e \<Rightarrow> \<exists>op as. trace w' = trace w @ as \<and> fds w = op # fds w' \<and> closed_fds as = opened_fds [op]
    | Blocked \<Rightarrow> True"
proof (cases "fds w")
  case Nil
  with assms show ?thesis
    by (auto simp: proxy_connect_to_receiver_def bind_io_def sys_open_def)
next
  case (Cons op ops)
  show ?thesis
  proof (cases op)
    case (Inl e)
    with assms Cons show ?thesis
      by (auto simp: proxy_connect_to_receiver_def bind_io_def sys_open_def throw_def)
  next
    case (Inr fk)
    then obtain fd k where op: "op = Inr (fd, k)"
      by (cases fk) auto
    let ?w1 = "w\<lparr>fds := ops, socks := (socks w)(fd := k)\<rparr>"
    define rest :: "fd proxy_io" where "rest = bind_io sys_call (\<lambda>r. case r of
           Some e \<Rightarrow> bind_io (sys_close fd) (\<lambda>_. throw (RuntimeError (Msg ''invalid receiver IP address'')))
         | None \<Rightarrow>
             bind_io sys_call (\<lambda>r. case r of
               Some e \<Rightarrow> bind_io (sys_close fd) (\<lambda>_. throw (RuntimeError (Sys ''connect to receiver failed: '' e)))
             | None \<Rightarrow> ret fd))"
    have "proxy_connect_to_receiver w = rest ?w1"
      using Cons op by (simp add: proxy_connect_to_receiver_def bind_io_def sys_open_def rest_def)
    with assms have "rest ?w1 = (x, w')"
      by simp
    then have "fds w' = ops \<and> (x = Ok fd \<and> trace w' = trace w
        \<or> (\<exists>e. x = Throw e) \<and> trace w' = trace w @ [Closed fd] \<or> x = Blocked)"
      unfolding rest_def bind_io_def sys_call_def
      by (auto simp: sys_close_def emit_def ret_def throw_def split: list.splits option.splits)
    with Cons op show ?thesis
      by (auto intro!: exI [of _ "[Closed fd]"])
  qed
qed

text \<open>A block under the handlers: it ends normally, or with one line of report, or it waits.\<close>

lemma contained_cases:
  assumes m: "raises standard m"
  obtains (normal) v w' where "m w = (Ok v, w')" "catch_io m (\<lambda>e. report_connection e x) w = (Ok v, w')"
  | (failed) e w' l where "m w = (Throw e, w')"
      "catch_io m (\<lambda>e. report_connection e x) w = (Ok x, w'\<lparr>trace := trace w' @ [Line l]\<rparr>)"
  | (waiting) w' where "m w = (Blocked, w')" "catch_io m (\<lambda>e. report_connection e x) w = (Blocked, w')"
proof -
  obtain y w' where run: "m w = (y, w')"
    by fastforce
  show thesis
  proof (cases y)
    case (Ok v)
    with run show ?thesis
      by (intro normal) (simp_all add: catch_io_def)
  next
    case (Throw e)
    with raisesD [OF m] run have "standard e"
      by simp
    then obtain k where k: "report_connection e x = Some k"
      using report_connection_standard [of e x] by auto
    obtain l where "k = bind_io (cout l) (\<lambda>_. ret x)"
      by (rule report_connection_Some [OF k])
    with k run Throw have "catch_io m (\<lambda>e. report_connection e x) w = (Ok x, w'\<lparr>trace := trace w' @ [Line l]\<rparr>)"
      by (simp add: catch_io_def io_simps)
    with run Throw show ?thesis
      by (intro failed) simp_all
  next
    case Blocked
    with run show ?thesis
      by (intro waiting) (simp_all add: catch_io_def)
  qed
qed

text \<open>A handled connection closes the two descriptors it owns, each once, and nothing else.\<close>

lemma standard_connect: "raises standard (bind_io proxy_connect_to_receiver (\<lambda>fd. ret (Some fd)))"
  unfolding proxy_connect_to_receiver_def by (intro raises_rules) simp_all

lemma proxy_client_closes:
  assumes run: "proxy_client mode s w = (Ok u, w')"
  shows "\<exists>as op. trace w' = trace w @ as @ [Line ProxyWaiting] \<and> fds w = op # fds w'
    \<and> mset (closed_fds as) = add_mset s (mset (opened_fds [op]))"
proof -
  let ?w0 = "w\<lparr>trace := trace w @ [Line ProxySenderConnected]\<rparr>"
  define connect where "connect = bind_io proxy_connect_to_receiver (\<lambda>fd. ret (Some fd))"
  define report :: "exn \<Rightarrow> fd option proxy_io option" where "report = (\<lambda>e. report_connection e None)"
  define rest :: "fd option \<Rightarrow> unit proxy_io" where "rest = (\<lambda>receiver_fd.
     bind_io
       (case receiver_fd of
          None \<Rightarrow> ret ()
        | Some fd \<Rightarrow>
            catch_io
              (bind_io (cout ProxyReceiverConnected) (\<lambda>_. relay_connection s fd mode))
              (\<lambda>e. report_connection e ())) (\<lambda>_.
     bind_io (sys_close s) (\<lambda>_.
     bind_io
       (case receiver_fd of
          None \<Rightarrow> ret ()
        | Some fd \<Rightarrow> sys_close fd) (\<lambda>_.
     cout ProxyWaiting))))"
  have whole: "bind_io (catch_io connect report) rest ?w0 = (Ok u, w')"
    using run by (simp add: proxy_client_def bind_cout connect_def report_def rest_def)
  have conn: "case proxy_connect_to_receiver ?w0 of (x, w1) \<Rightarrow>
      connect ?w0 = ((case x of Ok fd \<Rightarrow> Ok (Some fd) | Throw e \<Rightarrow> Throw e | Blocked \<Rightarrow> Blocked), w1)"
    by (auto simp: connect_def bind_io_def ret_def split: prod.splits result.splits)
  show ?thesis
  proof (rule contained_cases [OF standard_connect, of ?w0 None, folded connect_def report_def])
    fix v w1
    assume ok: "connect ?w0 = (Ok v, w1)" "catch_io connect report ?w0 = (Ok v, w1)"
    then obtain r where r: "v = Some r" "proxy_connect_to_receiver ?w0 = (Ok r, w1)"
      using conn by (auto split: prod.splits result.splits)
    with connect_closes [OF r(2)] obtain k where k: "fds w = Inr (r, k) # fds w1" "trace w1 = trace ?w0"
      by auto
    define relay where "relay = bind_io (cout ProxyReceiverConnected) (\<lambda>_. relay_connection s r mode)"
    have "raises standard relay"
      unfolding relay_def by (intro raises_rules standard_relay_connection)
    note cases = contained_cases [OF this, of w1 "()"]
    have kept: "\<exists>as. trace w2 = trace w1 @ as \<and> closed_fds as = [] \<and> fds w2 = fds w1" if "relay w1 = (y, w2)" for y w2
    proof -
      have "within (logs not_closed) relay" "within session_le relay"
        unfolding relay_def
        by (intro logs.within_bind logs_relay_connection session.within_bind session_relay_connection session_calls;
            simp add: cout_def logs_emit)+
      with that show ?thesis
        by (auto dest!: withinD simp: logs_def session_le_def closed_fds_none)
    qed
    have rest: "rest v w1 = bind_io (catch_io relay (\<lambda>e. report_connection e ())) (\<lambda>_.
        bind_io (sys_close s) (\<lambda>_. bind_io (sys_close r) (\<lambda>_. cout ProxyWaiting))) w1"
      by (simp add: r(1) rest_def relay_def)
    have after: "bind_io (catch_io connect report) rest ?w0 = rest v w1"
      by (rule bind_io_Ok) (rule ok(2))
    show ?thesis
      using whole [unfolded after rest] k
      by (rule_tac cases) (auto simp: bind_io_Ok bind_io_Blocked io_simps dest!: kept)
  next
    fix e w1 l
    assume failed: "connect ?w0 = (Throw e, w1)" "catch_io connect report ?w0 = (Ok None, w1\<lparr>trace := trace w1 @ [Line l]\<rparr>)"
    then have "proxy_connect_to_receiver ?w0 = (Throw e, w1)"
      using conn by (auto split: prod.splits result.splits)
    from connect_closes [OF this] obtain op as where "trace w1 = trace ?w0 @ as" "fds w = op # fds w1"
      "closed_fds as = opened_fds [op]"
      by auto
    moreover have "bind_io (catch_io connect report) rest ?w0 = rest None (w1\<lparr>trace := trace w1 @ [Line l]\<rparr>)"
      by (rule bind_io_Ok) (rule failed(2))
    ultimately show ?thesis
      using whole by (auto simp: rest_def io_simps)
  next
    fix w1
    assume "catch_io connect report ?w0 = (Blocked, w1)"
    with whole show ?thesis
      by (simp add: bind_io_Blocked)
  qed
qed

section \<open>One fault per process\<close>

text \<open>The lines that report a fault that is recorded before anything can fail.\<close>

definition fault_line :: "proxy_line action \<Rightarrow> bool" where
  "fault_line a \<longleftrightarrow> (case a of
     Line (DroppedAck s) \<Rightarrow> True | Line (DelayedAck ms s) \<Rightarrow> True | Line (DisconnectedHeartbeat s) \<Rightarrow> True
   | _ \<Rightarrow> False)"

lemma fault_line_simps [simp]:
  "fault_line (Line (DroppedAck s))" "fault_line (Line (DelayedAck ms s))" "fault_line (Line (DisconnectedHeartbeat s))"
  "\<not> fault_line (Line (CorruptedData s))" "\<not> fault_line (Line (SenderToReceiver t s))"
  "\<not> fault_line (Line (ReceiverToSender t s))" "\<not> fault_line (Line ProxySenderConnected)"
  "\<not> fault_line (Line ProxyReceiverConnected)" "\<not> fault_line (Line (ProxyConnectionClosed m))"
  "\<not> fault_line (Line (ProxyConnectionError m))" "\<not> fault_line (Line ProxyWaiting)"
  "\<not> fault_line (Line (ProxyListening n))" "\<not> fault_line (Line (ProxyMode t))" "\<not> fault_line (Line (ProxyError m))"
  "\<not> fault_line (Sent fd bs)" "\<not> fault_line (Closed fd)" "\<not> fault_line (ShutDown fd)" "\<not> fault_line (Slept n)"
  "\<not> fault_line (Polled ms')"
  by (simp_all add: fault_line_def)

text \<open>Faults reported between two worlds are paid for by \<open>fault_applied\<close>, which is never reset.\<close>

definition budget :: "proxy_world \<Rightarrow> proxy_world \<Rightarrow> bool" where
  "budget w w' \<longleftrightarrow> (\<exists>as. trace w' = trace w @ as
     \<and> length (filter fault_line as) + of_bool (fault_applied (locals w)) \<le> of_bool (fault_applied (locals w')))"

interpretation budget: world_order budget
proof unfold_locales
  fix u v w
  show "budget w w"
    by (simp add: budget_def)
  assume "budget u v" "budget v w"
  then obtain as bs where "trace v = trace u @ as" "trace w = trace v @ bs"
    "length (filter fault_line as) + of_bool (fault_applied (locals u)) \<le> (of_bool (fault_applied (locals v)) :: nat)"
    "length (filter fault_line bs) + of_bool (fault_applied (locals v)) \<le> (of_bool (fault_applied (locals w)) :: nat)"
    by (auto simp: budget_def)
  then show "budget u w"
    unfolding budget_def by (intro exI [of _ "as @ bs"]) simp
qed

abbreviation harmless :: "proxy_line action \<Rightarrow> bool" where
  "harmless a \<equiv> \<not> fault_line a"

lemma budget_appends: "within (appends harmless) m \<Longrightarrow> within budget m"
  by (erule within_mono) (auto simp: appends_def budget_def filter_none)

text \<open>A fault is paid for when it was still available.\<close>

lemma budget_spend:
  assumes "\<not> fault_applied (locals w)" "within budget k" "list_all harmless as"
  shows "budget w (snd (k (w\<lparr>trace := trace w @ Line l # as, locals := fault_applied_update (\<lambda>_. True) (locals w)\<rparr>)))"
    (is "budget w (snd (k ?w1))")
proof -
  have "budget w ?w1"
    using assms(1,3) by (simp add: budget_def filter_none)
  moreover have "budget ?w1 (snd (k ?w1))"
    using assms(2) by (simp add: within_def)
  ultimately show ?thesis
    by (rule budget.trans)
qed

lemma budget_receive: "within budget (proxy_receive_packet fd)"
  unfolding proxy_receive_packet_eq by (intro budget_appends appends_framed_receive appends_recv_loop)

lemma budget_send: "within budget (proxy_send_packet fd p)" "within budget (send_corrupted_packet fd p)"
  unfolding proxy_send_packet_def send_corrupted_packet_def proxy_send_all_def
  by (intro budget_appends appends.within_rules appends_lift_codec appends_send_loop; simp)+

lemma budget_outputs:
  "harmless (Line l) \<Longrightarrow> within budget (cout l)" "within budget (sys_shutdown fd)" "within budget (sleep_ms n)"
  "within budget (sys_close fd)" "within budget (sys_poll ps t)" "within budget sys_open" "within budget sys_call"
  by (simp_all add: cout_def sys_shutdown_def sleep_ms_def sys_close_def appends_emit appends_poll appends_open
      appends_call budget_appends)

lemma budget_applied: "within budget (upd_local (fault_applied_update (\<lambda>_. True)))"
  by (simp add: within_def upd_local_def budget_def)

lemma budget_sequel:
  assumes m: "within budget m" and f: "\<And>x w'. budget w' (snd (f x w'))"
  shows "budget w (snd (bind_io m f w))"
  using budget.within_bind [OF m, of f] f by (simp add: within_def)

lemma budget_from_sender: "within budget (from_sender s r mode)"
proof (rule withinI)
  fix w
  have rest: "budget v (snd (bind_io (get_local fault_applied) (\<lambda>applied.
     if type_of p = Data \<and> mode = CorruptData \<and> \<not> applied then
       bind_io (cout (CorruptedData (sequence p))) (\<lambda>_.
       bind_io (send_corrupted_packet r p) (\<lambda>_.
       bind_io (upd_local (fault_applied_update (\<lambda>_. True))) (\<lambda>_. ret True)))
     else if type_of p = Heartbeat \<and> mode = Disconnect \<and> \<not> applied then
       bind_io (cout (DisconnectedHeartbeat (sequence p))) (\<lambda>_.
       bind_io (upd_local (fault_applied_update (\<lambda>_. True))) (\<lambda>_.
       bind_io (sys_shutdown s) (\<lambda>_.
       bind_io (sys_shutdown r) (\<lambda>_.
       throw (PeerDisconnected (Msg ''forced disconnect injected''))))))
     else
       bind_io (cout (SenderToReceiver (message_type_name (type_of p)) (sequence p))) (\<lambda>_.
       bind_io (proxy_send_packet r p) (\<lambda>_. ret False))) v))" for p v
  proof (cases "type_of p = Heartbeat \<and> mode = Disconnect \<and> \<not> fault_applied (locals v)")
    case True
    define cut :: "bool proxy_io" where "cut = bind_io (sys_shutdown s) (\<lambda>_. bind_io (sys_shutdown r) (\<lambda>_.
       throw (PeerDisconnected (Msg ''forced disconnect injected''))))"
    have "within budget cut"
      unfolding cut_def by (intro budget.within_rules budget_outputs)
    from budget_spend [OF _ this, of v "[]" "DisconnectedHeartbeat (sequence p)"] True show ?thesis
      by (simp add: bind_get_local bind_cout bind_upd_local cut_def)
  next
    case False
    have "within budget (bind_io (cout (CorruptedData (sequence p))) (\<lambda>_.
       bind_io (send_corrupted_packet r p) (\<lambda>_.
       bind_io (upd_local (fault_applied_update (\<lambda>_. True))) (\<lambda>_. ret True))))"
      "within budget (bind_io (cout (SenderToReceiver (message_type_name (type_of p)) (sequence p))) (\<lambda>_.
       bind_io (proxy_send_packet r p) (\<lambda>_. ret False)))"
      by (intro budget.within_rules budget_outputs budget_send budget_applied; simp)+
    with False show ?thesis
      by (simp add: bind_get_local within_def del: not_all) blast
  qed
  then show "budget w (snd (from_sender s r mode w))"
    unfolding from_sender_def by (rule budget_sequel [OF budget_receive])
qed

lemma budget_from_receiver: "within budget (from_receiver s r mode)"
proof (rule withinI)
  fix w
  have rest: "budget v (snd (bind_io (get_local fault_applied) (\<lambda>applied.
     if type_of p = Ack \<and> \<not> applied \<and> mode = DropAck then
       bind_io (cout (DroppedAck (sequence p))) (\<lambda>_.
       bind_io (upd_local (fault_applied_update (\<lambda>_. True))) (\<lambda>_. ret True))
     else
       bind_io
         (if type_of p = Ack \<and> \<not> applied \<and> mode = DelayAck then
            bind_io (cout (DelayedAck kAckDelayMs (sequence p))) (\<lambda>_.
            bind_io (sleep_ms kAckDelayMs) (\<lambda>_.
            upd_local (fault_applied_update (\<lambda>_. True))))
          else ret ()) (\<lambda>_.
       bind_io (cout (ReceiverToSender (message_type_name (type_of p)) (sequence p))) (\<lambda>_.
       bind_io (proxy_send_packet s p) (\<lambda>_. ret False)))) v))" for p v
  proof -
    define pass where "pass = bind_io (cout (ReceiverToSender (message_type_name (type_of p)) (sequence p))) (\<lambda>_.
       bind_io (proxy_send_packet s p) (\<lambda>_. ret False))"
    have pass: "within budget pass"
      unfolding pass_def by (intro budget.within_rules budget_outputs budget_send) simp
    consider (drop) "type_of p = Ack \<and> \<not> fault_applied (locals v) \<and> mode = DropAck"
      | (delay) "type_of p = Ack \<and> \<not> fault_applied (locals v) \<and> mode = DelayAck"
      | (none) "\<not> (type_of p = Ack \<and> \<not> fault_applied (locals v) \<and> mode = DropAck)"
          "\<not> (type_of p = Ack \<and> \<not> fault_applied (locals v) \<and> mode = DelayAck)"
      by blast
    then show ?thesis
    proof cases
      case drop
      have "within budget (ret True :: bool proxy_io)"
        by (rule budget.within_ret)
      from budget_spend [OF _ this, of v "[]" "DroppedAck (sequence p)"] drop show ?thesis
        by (simp add: bind_get_local bind_cout bind_upd_local)
    next
      case delay
      let ?v1 = "v\<lparr>trace := trace v @ [Line (DelayedAck kAckDelayMs (sequence p)), Slept kAckDelayMs],
        locals := fault_applied_update (\<lambda>_. True) (locals v)\<rparr>"
      from delay have "budget v (snd (pass ?v1))"
        using budget_spend [OF _ pass, of v "[Slept kAckDelayMs]" "DelayedAck kAckDelayMs (sequence p)"] by simp
      moreover have "bind_io (cout (DelayedAck kAckDelayMs (sequence p))) (\<lambda>_. bind_io (sleep_ms kAckDelayMs) (\<lambda>_.
            bind_io (upd_local (fault_applied_update (\<lambda>_. True))) (\<lambda>_. pass))) v = pass ?v1"
        by (simp add: bind_cout bind_sleep bind_upd_local)
      ultimately show ?thesis
        using delay unfolding bind_get_local pass_def [symmetric] by (simp add: bind_assoc)
    next
      case none
      then show ?thesis
        unfolding bind_get_local pass_def [symmetric] using pass by (simp only: if_False bind_ret within_def)
    qed
  qed
  then show "budget w (snd (from_receiver s r mode w))"
    unfolding from_receiver_def by (rule budget_sequel [OF budget_receive])
qed

lemma budget_relay_pass: "within budget (relay_pass s r mode)"
  unfolding relay_pass_def by (intro budget.within_rules budget_from_sender budget_from_receiver budget_outputs)

lemmas budget_relay_connection = relay_connection_within [OF budget.world_order_axioms budget_relay_pass]

lemma budget_report: "report_connection e x = Some k \<Longrightarrow> within budget k"
  by (erule report_connection_Some) (auto intro!: budget.within_rules budget_outputs)

lemma budget_proxy_client: "within budget (proxy_client mode s)"
  unfolding proxy_client_def proxy_connect_to_receiver_def
  by (intro budget.within_rules budget.within_catch budget_relay_connection budget_outputs budget_report) simp_all

lemmas budget_accept_loop =
  proxy_accept_loop_within [OF budget.world_order_axioms budget_outputs(6) budget_proxy_client]

section \<open>The corrupted frame\<close>

lemma send_corrupted_payload: "send_corrupted_packet fd p w = (Ok u, w') \<Longrightarrow> payload p \<noteq> []"
  by (auto simp: send_corrupted_packet_def lift_codec_def encode_packet_Inr length_frame bind_ret throw_def bind_throw
      split: sum.splits if_splits)

lemma length_corrupted_frame: "length (corrupted_frame p) = 16 + length (payload p)"
  by (simp add: corrupted_frame_def)

lemma corrupted_frame_nonempty: "corrupted_frame p \<noteq> []"
  using length_corrupted_frame [of p] by auto

lemma corrupted_frame_decodes:
  assumes small: "small p" and nonempty: "payload p \<noteq> []"
  shows "get_payload_length (take 16 (corrupted_frame p)) = Inr (of_nat (length (payload p)))
    \<and> decode_packet (take 16 (corrupted_frame p)) (drop 16 (corrupted_frame p)) = Inl CrcMismatch"
proof -
  obtain b bs where pl: "payload p = b # bs"
    using nonempty by (cases "payload p") auto
  have "b \<noteq> b XOR 0xFF"
    using xor_word_cancel_left [of b 0 "0xFF"] by auto
  with small have "decode_packet (header_of p) ([] @ [b XOR 0xFF] @ bs) = Inl CrcMismatch"
    by (intro payload_burst_decode [where xs = "[b]"]) (simp_all add: pl small_def)
  with small pl get_payload_length_header [of p] show ?thesis
    by (simp add: corrupted_frame_def small_def)
qed

section \<open>Properties\<close>

text \<open>
  C34: the proxy never invents, reorders or repeats bytes. Whatever the kernel answers, the
  packets it has read are whole frames at the front of the two streams, and the bytes it
  has written to either side are a prefix of what the specification prescribes for a
  sequence of those packets under the fault mode.
\<close>

theorem relay_faithful:
  assumes "sender_fd \<noteq> receiver_fd"
  shows "\<exists>ins as. trace (snd (relay_connection sender_fd receiver_fd mode w)) = trace w @ as
    \<and> prefix (concat (map frame (sender_packets ins))) (stream_bytes (rx (socks w sender_fd)))
    \<and> prefix (concat (map frame (receiver_packets ins))) (stream_bytes (rx (socks w receiver_fd)))
    \<and> prefix (wire_out receiver_fd as) (to_receiver (relay_run mode (fault_applied (locals w)) ins))
    \<and> prefix (wire_out sender_fd as) (to_sender (relay_run mode (fault_applied (locals w)) ins))"
proof -
  obtain x w' where run: "relay_connection sender_fd receiver_fd mode w = (x, w')"
    by fastforce
  from relay_connection_relays [OF assms run] show ?thesis
    by (fastforce simp: relaying_def run)
qed

definition proxy_data :: packet where
  "proxy_data = \<lparr>type_of = Data, sequence = 1, payload = [104, 105]\<rparr>"

definition proxy_ack :: packet where
  "proxy_ack = \<lparr>type_of = Ack, sequence = 1, payload = []\<rparr>"

lemma proxy_examples [simp]: "small proxy_data" "small proxy_ack" "type_of proxy_data = Data" "type_of proxy_ack = Ack"
  "payload proxy_data = [104, 105]" "payload proxy_ack = []" "sequence proxy_ack = 1"
  by (simp_all add: proxy_data_def proxy_ack_def small_def kMaxPayloadSize_def)

text \<open>A sender that repeats its DATA, a receiver that acknowledges twice.\<close>

definition proxy_world_of :: "proxy_world" where
  "proxy_world_of = (set_sock 4 (idle_sock\<lparr>rx := [Segment (frame proxy_data @ frame proxy_data)],
       tx := replicate 16 (TxAccept 1)\<rparr>)
     (set_sock 5 (idle_sock\<lparr>rx := [Segment (frame proxy_ack), Segment (frame proxy_ack)],
       tx := replicate 36 (TxAccept 1)\<rparr>) (idle_world \<lparr>fault_applied = False\<rparr>)))
     \<lparr>polls := map poll_for [FromSender proxy_data, FromReceiver proxy_ack, FromSender proxy_data, FromReceiver proxy_ack]\<rparr>"

lemma proxy_world_of_simps [simp]:
  "stream_bytes (rx (socks proxy_world_of 4)) = frame proxy_data @ frame proxy_data"
  "stream_bytes (rx (socks proxy_world_of 5)) = frame proxy_ack @ frame proxy_ack"
  "trace proxy_world_of = []" "\<not> fault_applied (locals proxy_world_of)"
  by (simp_all add: proxy_world_of_def set_sock_def idle_world_def)

theorem relay_faithful_witness:
  "(4::fd) \<noteq> 5 \<and> (\<exists>ins as. trace (snd (relay_connection 4 5 DropAck proxy_world_of)) = as
    \<and> prefix (concat (map frame (sender_packets ins))) (frame proxy_data @ frame proxy_data)
    \<and> prefix (concat (map frame (receiver_packets ins))) (frame proxy_ack @ frame proxy_ack)
    \<and> prefix (wire_out 5 as) (to_receiver (relay_run DropAck False ins))
    \<and> prefix (wire_out 4 as) (to_sender (relay_run DropAck False ins)))"
  using relay_faithful [of 4 5 DropAck proxy_world_of] by simp

text \<open>
  With no fault selected, or once the fault has been applied, the proxy is transparent:
  what it has written to either side is a prefix of what it was sent by the other.
\<close>

theorem relay_is_transparent:
  assumes "sender_fd \<noteq> receiver_fd" "mode = FaultNone \<or> fault_applied (locals w)"
  shows "\<exists>as. trace (snd (relay_connection sender_fd receiver_fd mode w)) = trace w @ as
    \<and> prefix (wire_out receiver_fd as) (stream_bytes (rx (socks w sender_fd)))
    \<and> prefix (wire_out sender_fd as) (stream_bytes (rx (socks w receiver_fd)))"
proof -
  obtain x w' where run: "relay_connection sender_fd receiver_fd mode w = (x, w')"
    by fastforce
  from relay_connection_relays [OF assms(1) run] obtain ins where "relaying sender_fd receiver_fd mode ins w w'"
    by blast
  with relay_transparent [OF assms(2), of ins] show ?thesis
    by (auto simp: relaying_def run intro: prefix_order.trans)
qed

theorem relay_is_transparent_witness:
  "\<exists>as. trace (snd (relay_connection 4 5 FaultNone proxy_world_of)) = as
    \<and> prefix (wire_out 5 as) (frame proxy_data @ frame proxy_data)
    \<and> prefix (wire_out 4 as) (frame proxy_ack @ frame proxy_ack)"
  using relay_is_transparent [of 4 5 FaultNone proxy_world_of] by simp

lemma relay_delivers_then_waits:
  assumes "relay_ready s r mode ins bs br w" "s \<noteq> r" "polls w = map poll_for ins"
  shows "\<exists>w' as. relay_connection s r mode w = (Blocked, w') \<and> trace w' = trace w @ as
    \<and> incoming s bs w' \<and> incoming r br w'
    \<and> fault_applied (locals w') = relay_applied mode (fault_applied (locals w)) ins
    \<and> wire_out r as = to_receiver (relay_run mode (fault_applied (locals w)) ins)
    \<and> wire_out s as = to_sender (relay_run mode (fault_applied (locals w)) ins)"
proof -
  from relay_delivers [OF assms(1,2), of "[]"] assms(3) obtain w1 where
    w1: "relay_connection s r mode w = relay_connection s r mode w1" "relay_ready s r mode [] bs br w1"
      "relayed s r mode ins w w1" "polls w1 = []"
    by auto
  have "relay_connection s r mode w1 = (Blocked, w1\<lparr>trace := trace w1 @ [Polled (- 1)]\<rparr>)"
    using w1(4) by (subst relay_connection.simps) (simp add: relay_pass_def bind_io_Blocked sys_poll_def)
  moreover from w1(3) obtain as where "trace w1 = trace w @ as"
    "wire_out r as = to_receiver (relay_run mode (fault_applied (locals w)) ins)"
    "wire_out s as = to_sender (relay_run mode (fault_applied (locals w)) ins)"
    "fault_applied (locals w1) = relay_applied mode (fault_applied (locals w)) ins"
    by (auto simp: relayed_def)
  ultimately show ?thesis
    using w1(1,2) by (intro exI [of _ "w1\<lparr>trace := trace w1 @ [Polled (- 1)]\<rparr>"] exI [of _ "as @ [Polled (- 1)]"])
      (simp add: relay_ready_def incoming_def)
qed

lemma accepts_ones [simp]: "accepts (replicate n (TxAccept k)) = n"
  by (induction n) simp_all

text \<open>
  C35: the proxy delivers as long as no fault ends the connection. Let the streams of the two
  sides hold the frames of packets \<open>ins\<close> within the size limit, in any segmentation, let \<open>poll\<close> announce them one by one, and
  let both sides take what is written in pieces of any size. \<open>keep_connection\<close> excludes the two
  inputs on which the relay raises an exception: a HEARTBEAT while a disconnection is pending,
  and DATA without payload while a corruption is pending. Then the relay reads all of \<open>ins\<close>,
  has written exactly what the specification prescribes to each side, and waits for more.
\<close>

theorem relay_delivers_all:
  assumes "relay_streams s r mode ins bs br w" "keep_connection mode (fault_applied (locals w)) ins"
    and "s \<noteq> r" "polls w = map poll_for ins"
  shows "\<exists>w' as. relay_connection s r mode w = (Blocked, w') \<and> trace w' = trace w @ as
    \<and> incoming s bs w' \<and> incoming r br w'
    \<and> fault_applied (locals w') = relay_applied mode (fault_applied (locals w)) ins
    \<and> wire_out r as = to_receiver (relay_run mode (fault_applied (locals w)) ins)
    \<and> wire_out s as = to_sender (relay_run mode (fault_applied (locals w)) ins)"
  using assms by (intro relay_delivers_then_waits) (simp_all add: relay_ready_iff)

theorem relay_delivers_all_witness:
  "\<exists>w' as. relay_connection 4 5 DropAck proxy_world_of = (Blocked, w') \<and> trace w' = as
    \<and> fault_applied (locals w') \<and> wire_out 5 as = frame proxy_data @ frame proxy_data
    \<and> wire_out 4 as = frame proxy_ack"
proof -
  let ?ins = "[FromSender proxy_data, FromReceiver proxy_ack, FromSender proxy_data, FromReceiver proxy_ack]"
  have "relay_streams 4 5 DropAck ?ins [] [] proxy_world_of"
    unfolding relay_streams_def
  proof (intro conjI)
    show "incoming 4 (concat (map frame (sender_packets ?ins)) @ []) proxy_world_of"
      unfolding incoming_def
      by (intro exI [of _ "[Segment (frame proxy_data @ frame proxy_data)]"] exI [of _ "[]"])
        (simp add: proxy_world_of_def set_sock_def)
    show "incoming 5 (concat (map frame (receiver_packets ?ins)) @ []) proxy_world_of"
      unfolding incoming_def
      by (intro exI [of _ "[Segment (frame proxy_ack), Segment (frame proxy_ack)]"] exI [of _ "[]"])
        (simp add: proxy_world_of_def set_sock_def)
  qed (simp_all add: accepting_def proxy_world_of_def set_sock_def list_all_iff length_frame)
  moreover have "keep_connection DropAck (fault_applied (locals proxy_world_of)) ?ins" "polls proxy_world_of = map poll_for ?ins"
    by (simp_all add: proxy_world_of_def)
  ultimately show ?thesis
    using relay_delivers_all [of 4 5 DropAck ?ins "[]" "[]" proxy_world_of] by auto
qed

text \<open>
  C38: corruption is always detectable. When \<open>send_corrupted_packet\<close> returns, it has written
  the frame of the packet with the first payload byte inverted: its header still announces
  the right length, and decoding fails with a checksum mismatch. Otherwise it has written
  less than such a frame.
\<close>

theorem corruption_is_detected:
  "case send_corrupted_packet fd p w of (x, w') \<Rightarrow> \<exists>as. trace w' = trace w @ as \<and> locals w' = locals w
     \<and> (if x = Ok () then
          length (wire_out fd as) = length (frame p)
          \<and> get_payload_length (take 16 (wire_out fd as)) = Inr (of_nat (length (payload p)))
          \<and> decode_packet (take 16 (wire_out fd as)) (drop 16 (wire_out fd as)) = Inl CrcMismatch
        else strict_prefix (wire_out fd as) (corrupted_frame p))"
proof -
  obtain x w' where run: "send_corrupted_packet fd p w = (x, w')"
    by fastforce
  show ?thesis
  proof (cases "small p")
    case False
    then have "w' = w" "x \<noteq> Ok ()"
      using run by (auto simp: send_corrupted_packet_def encode_packet_eq small_def bind_throw)
    with run show ?thesis
      by (auto simp: strict_prefix_def corrupted_frame_nonempty [symmetric])
  next
    case True
    from send_corrupted_packet_sends [OF this run] show ?thesis
    proof
      assume "payload p = [] \<and> (\<forall>u. x \<noteq> Ok u) \<and> w' = w"
      with run show ?thesis
        by (auto simp: strict_prefix_def corrupted_frame_nonempty [symmetric])
    next
      assume "sends fd (corrupted_frame p) w x w'"
      then obtain as where as: "trace w' = trace w @ as" "locals w' = locals w" "prefix (wire_out fd as) (corrupted_frame p)"
        "(\<exists>u. x = Ok u) \<longleftrightarrow> wire_out fd as = corrupted_frame p"
        by (auto simp: sends_def)
      moreover have "get_payload_length (take 16 (corrupted_frame p)) = Inr (of_nat (length (payload p)))
          \<and> decode_packet (take 16 (corrupted_frame p)) (drop 16 (corrupted_frame p)) = Inl CrcMismatch"
        if "x = Ok ()"
        using corrupted_frame_decodes [OF True send_corrupted_payload] that run by simp
      ultimately show ?thesis
        unfolding run prod.case
        by (intro exI [of _ as]) (auto simp: strict_prefix_def length_frame length_corrupted_frame)
    qed
  qed
qed

text \<open>
  C36: a failing connection stays inside it. Whatever happens, the handling of one accepted
  connection never lets an exception out: it is still waiting, or it has returned having
  closed the accepted descriptor and the one it opened for the receiver, each exactly once,
  and nothing else, and the process waits for the next sender.
\<close>

theorem connection_contained:
  "case proxy_client mode s w of
     (Ok u, w') \<Rightarrow> \<exists>as op. trace w' = trace w @ as @ [Line ProxyWaiting] \<and> fds w = op # fds w'
        \<and> mset (closed_fds as) = add_mset s (mset (opened_fds [op]))
   | (Throw e, w') \<Rightarrow> False
   | (Blocked, w') \<Rightarrow> True"
proof -
  obtain x w' where run: "proxy_client mode s w = (x, w')"
    by fastforce
  show ?thesis
  proof (cases x)
    case (Ok u)
    with proxy_client_closes [of mode s w u w'] run show ?thesis
      by simp
  next
    case (Throw e)
    with raisesD [OF proxy_client_never_throws, of mode s w e w'] run show ?thesis
      by simp
  qed (use run in simp)
qed

text \<open>
  C37: one fault per process. Over a whole run, reconnections included, at most one ACK is
  dropped or delayed or one heartbeat answered by a disconnection.
\<close>

theorem one_fault_per_process:
  "\<exists>as. trace (snd (proxy_main args w)) = trace w @ as \<and> length (filter fault_line as) \<le> 1"
proof -
  define serve where "serve = (\<lambda>mode. bind_io (cout (ProxyListening kListenPort)) (\<lambda>_.
            bind_io (cout (ProxyMode (fault_mode_name mode))) (\<lambda>_.
            bind_io (proxy_accept_loop mode) (\<lambda>_. ret (0::int)))))"
  define body where "body = (case parse_fault_mode args of
          Inl m \<Rightarrow> throw (RuntimeError (Msg m))
        | Inr mode \<Rightarrow> bind_io create_listen_socket (\<lambda>listen_fd.
            bind_io (upd_local (fault_applied_update (\<lambda>_. False))) (\<lambda>_. serve mode)))"
  have serve: "within budget (serve mode)" for mode
    unfolding serve_def by (intro budget.within_rules budget_accept_loop budget_outputs) simp_all
  have create: "within (appends harmless) create_listen_socket"
    unfolding create_listen_socket_def by (intro appends.within_rules appends_calls appends_close) simp_all
  have few: "\<exists>as. trace (snd (body w)) = trace w @ as \<and> length (filter fault_line as) \<le> 1"
  proof (cases "parse_fault_mode args")
    case (Inr mode)
    obtain x w1 where run: "create_listen_socket w = (x, w1)"
      by fastforce
    from withinD [OF create run] obtain as where as: "trace w1 = trace w @ as" "filter fault_line as = []"
      by (auto simp: appends_def filter_none)
    let ?w2 = "w1\<lparr>locals := fault_applied_update (\<lambda>_. False) (locals w1)\<rparr>"
    have "budget ?w2 (snd (serve mode ?w2))"
      using serve by (simp add: within_def)
    then obtain bs where bs: "trace (snd (serve mode ?w2)) = trace w1 @ bs" "length (filter fault_line bs) \<le> 1"
      unfolding budget_def by (auto simp: of_bool_def intro: order.trans split: if_splits)
    show ?thesis
    proof (cases x)
      case (Ok fd)
      with Inr run have "body w = serve mode ?w2"
        by (simp add: body_def bind_io_Ok bind_upd_local)
      with as bs show ?thesis
        by (intro exI [of _ "as @ bs"]) simp
    qed (use as run Inr in \<open>simp_all add: body_def bind_io_Throw bind_io_Blocked\<close>)
  qed (simp add: body_def throw_def)
  obtain y v where whole: "body w = (y, v)"
    by fastforce
  with few obtain as where as: "trace v = trace w @ as" "length (filter fault_line as) \<le> 1"
    by auto
  have "proxy_main args w = catch_io body (\<lambda>e. map_option (\<lambda>m. bind_io (cout (ProxyError m)) (\<lambda>_. ret 1)) (std_what e)) w"
    unfolding proxy_main_def body_def serve_def ..
  with whole have "trace (snd (proxy_main args w)) = trace v
      \<or> (\<exists>m. trace (snd (proxy_main args w)) = trace v @ [Line (ProxyError m)])"
    by (cases y) (auto simp: catch_io_def io_simps split: option.splits)
  with as show ?thesis
    by auto
qed

text \<open>
  The command line. A mode is selected exactly by no argument or by its printed name
  first; everything after the first argument is ignored, every other name is an error.
\<close>

theorem fault_mode_options:
  "parse_fault_mode args = Inr mode \<longleftrightarrow>
     (args = [] \<and> mode = FaultNone) \<or> (\<exists>rest. args = fault_mode_name mode # rest)"
  by (cases args; cases mode) auto

text \<open>
  C39: the proxy as a process. It is still waiting or has returned 1 after reporting an
  error as its last output; it never reports success. An unknown mode is refused before
  any socket is opened.
\<close>

theorem proxy_main_outcome:
  "case proxy_main args w of (x, w') \<Rightarrow>
     (x = Blocked \<or> x = Ok 1 \<and> (\<exists>m as. trace w' = trace w @ as @ [Line (ProxyError m)]))
     \<and> (case parse_fault_mode args of
          Inl m \<Rightarrow> x = Ok 1 \<and> w' = w\<lparr>trace := trace w @ [Line (ProxyError (Msg m))]\<rparr>
        | Inr mode \<Rightarrow> True)"
proof (cases "parse_fault_mode args")
  case (Inl m)
  then show ?thesis
    by (simp add: proxy_main_def catch_io_def io_simps)
next
  case (Inr mode)
  define body where "body = bind_io create_listen_socket (\<lambda>listen_fd.
            bind_io (upd_local (fault_applied_update (\<lambda>_. False))) (\<lambda>_.
            bind_io (cout (ProxyListening kListenPort)) (\<lambda>_.
            bind_io (cout (ProxyMode (fault_mode_name mode))) (\<lambda>_.
            bind_io (proxy_accept_loop mode) (\<lambda>_. ret (0::int))))))"
  have accept: "raises standard (proxy_accept_loop mode)"
    by (rule raisesI) (drule proxy_accept_loop_result, auto)
  have "raises standard body"
    unfolding body_def create_listen_socket_def by (intro raises_rules accept) simp_all
  moreover have "within world_le body"
    unfolding body_def create_listen_socket_def by (intro world.within_rules world_accept_loop world_calls)
  moreover have "body w \<noteq> (Ok n, w')" for n w'
    by (auto simp: body_def bind_io_eq_Ok dest!: proxy_accept_loop_result)
  ultimately show ?thesis
    unfolding proxy_main_def catch_io_def using Inr raisesD [of standard body w] withinD [of world_le body w]
    by (fastforce simp: body_def [symmetric] standard_def io_simps world_le_def prefix_def
        split: prod.splits result.splits)
qed

end
