(* ===== verification/TcpEndToEnd.thy ===== *)
theory TcpEndToEnd
  imports ReceiverEvents SenderProgram ProxyProgram
begin

text \<open>
  Sender, fault injector and receiver together. The three programs run in worlds of their
  own; what connects them is TCP: the bytes that have arrived at a socket are a prefix of
  the bytes the program at the other end has written to it.
\<close>

section \<open>What passes the proxy\<close>

lemma same_header_length:
  assumes "header_of p = header_of q" "small p" "small q"
  shows "length (payload p) = length (payload q)"
proof -
  have "Inr (of_nat (length (payload p))) = (Inr (of_nat (length (payload q))) :: codec_error + u32)"
    using get_payload_length_header [of p] get_payload_length_header [of q] assms by (simp only: small_def)
  then have "unat (of_nat (length (payload p)) :: u32) = unat (of_nat (length (payload q)) :: u32)"
    by (simp only: sum.inject)
  with assms(2,3) show ?thesis
    using unat_payload_length [of "payload p"] unat_payload_length [of "payload q"] by (simp only: small_def)
qed

text \<open>A corrupted frame is not the frame of any packet.\<close>

lemma corrupted_no_frame:
  assumes "small p" "payload p \<noteq> []" "small q"
  shows "\<not> prefix (frame q) (corrupted_frame p @ rest)"
proof
  assume "prefix (frame q) (corrupted_frame p @ rest)"
  then obtain xs where xs: "header_of q @ payload q @ xs = header_of p @ (payload p)[0 := payload p ! 0 XOR 0xFF] @ rest"
    by (auto simp: prefix_def frame_def corrupted_frame_def)
  then have h: "header_of q = header_of p" "payload q @ xs = (payload p)[0 := payload p ! 0 XOR 0xFF] @ rest"
    by (simp_all add: append_eq_append_conv)
  from same_header_length [OF h(1)] assms h(2) have "payload q = (payload p)[0 := payload p ! 0 XOR 0xFF]"
    by (simp add: append_eq_append_conv)
  with h(1) have "corrupted_frame p = header_of q @ payload q"
    by (simp add: corrupted_frame_def)
  then have "decode_packet (take 16 (corrupted_frame p)) (drop 16 (corrupted_frame p)) = Inr q"
    using assms(3) decode_packet_header [of q] by (simp add: small_def)
  with corrupted_frame_decodes [OF assms(1,2)] show False
    by simp
qed

lemma corrupted_empty: "payload p = [] \<Longrightarrow> corrupted_frame p = frame p"
  by (simp add: corrupted_frame_def frame_def)

text \<open>
  To the sender go frames of packets that came from the receiver. Of the frames of requests
  that go to the receiver, those before a corrupted one came from the sender.
\<close>

lemma to_sender_frames:
  "\<exists>qs. to_sender (relay_run mode a ins) = concat (map frame qs) \<and> set qs \<subseteq> set (receiver_packets ins)"
proof (induction ins arbitrary: a)
  case (Cons i ins)
  from Cons.IH [of "snd (relay_step mode a i)"] obtain qs where
    qs: "to_sender (relay_run mode (snd (relay_step mode a i)) ins) = concat (map frame qs)"
    "set qs \<subseteq> set (receiver_packets ins)"
    by blast
  show ?case
  proof (cases i)
    case (FromSender p)
    with qs show ?thesis
      by (intro exI [of _ qs]) auto
  next
    case (FromReceiver p)
    then have "to_sender (fst (relay_step mode a i)) = [] \<or> to_sender (fst (relay_step mode a i)) = frame p"
      by auto
    then show ?thesis
    proof
      assume "to_sender (fst (relay_step mode a i)) = []"
      with qs FromReceiver show ?thesis
        by (intro exI [of _ qs]) (auto simp del: relay_step.simps)
    next
      assume "to_sender (fst (relay_step mode a i)) = frame p"
      with qs FromReceiver show ?thesis
        by (intro exI [of _ "p # qs"]) (auto simp del: relay_step.simps)
    qed
  qed
qed (auto intro: exI [of _ "[]"])

lemma to_receiver_frames:
  assumes "prefix (concat (map frame ps)) (to_receiver (relay_run mode a ins))"
    and "list_all small ps" "list_all small (sender_packets ins)"
  shows "set ps \<subseteq> set (sender_packets ins)"
  using assms
proof (induction ins arbitrary: a ps)
  case Nil
  then show ?case
    by (cases ps) auto
next
  case (Cons i ins)
  let ?rest = "to_receiver (relay_run mode (snd (relay_step mode a i)) ins)"
  show ?case
  proof (cases i)
    case (FromReceiver p)
    then have "to_receiver (fst (relay_step mode a i)) = []"
      by simp
    with Cons.prems FromReceiver Cons.IH [of ps "snd (relay_step mode a i)"] show ?thesis
      by (simp del: relay_step.simps)
  next
    case (FromSender p)
    then have small: "small p" "list_all small (sender_packets ins)"
      using Cons.prems(3) by simp_all
    consider (nothing) "to_receiver (fst (relay_step mode a i)) = []"
      | (copy) "to_receiver (fst (relay_step mode a i)) = frame p"
      | (corrupt) "to_receiver (fst (relay_step mode a i)) = corrupted_frame p" "payload p \<noteq> []"
      using FromSender corrupted_empty [of p]
      by (cases "type_of p = Data \<and> mode = CorruptData \<and> \<not> a"; cases "payload p = []"; cases "type_of p = Heartbeat \<and> mode = Disconnect \<and> \<not> a") auto
    then show ?thesis
    proof cases
      case nothing
      with Cons.prems small FromSender Cons.IH [of ps "snd (relay_step mode a i)"] show ?thesis
        by (auto simp del: relay_step.simps)
    next
      case corrupt
      have "ps = []"
      proof (cases ps)
        case (Cons q qs)
        with Cons.prems corrupt have "prefix (frame q) (corrupted_frame p @ ?rest)" "small q"
          by (auto simp: prefix_def simp del: relay_step.simps)
        with corrupted_no_frame small(1) corrupt(2) show ?thesis
          by blast
      qed
      then show ?thesis
        by simp
    next
      case copy
      show ?thesis
      proof (cases ps)
        case (Cons q qs)
        with Cons.prems copy have q: "prefix (frame q @ concat (map frame qs)) (frame p @ ?rest)" "small q" "list_all small qs"
          by (simp_all del: relay_step.simps)
        then have "prefix (frame q) (frame p @ ?rest)" "prefix (frame p) (frame p @ ?rest)"
          by (auto simp: prefix_def)
        with q(2) small(1) have "q = p"
          by (intro frame_prefix_inject [of q "frame p @ ?rest" p])
        with q Cons.IH [of qs "snd (relay_step mode a i)"] small(2) Cons FromSender show ?thesis
          by (auto simp del: relay_step.simps)
      qed simp
    qed
  qed
qed

section \<open>What the sender reads and writes\<close>

lemma silent_wire: "list_all (\<lambda>a. \<not> is_sent a) as \<Longrightarrow> wire_out fd as = []"
  by (induction as rule: wire_out.induct [of _ fd]) simp_all

lemma wait_reads:
  assumes "wait_for_response fd t s ms w = (Ok b, w')"
  obtains ps as where "trace w' = trace w @ as" "wire_out fd' as = []" "list_all small ps"
    "stream_bytes (rx (socks w fd)) = concat (map frame ps) @ stream_bytes (rx (socks w' fd))"
    "b \<longrightarrow> response_packet t s \<in> set ps"
proof -
  from wait_for_response_outcome [OF assms]
  have out: "wait_outcome fd t s (clock (started w) + ms * 1000000) (started w) (Ok b) w'"
    by simp
  have reads: "\<exists>as. trace v = trace w @ as \<and> wire_out fd' as = []
      \<and> stream_bytes (rx (socks w fd)) = got @ stream_bytes (rx (socks v fd))"
    if "waiting (clock (started w) + ms * 1000000) fd got (started w) v" for got v
    using that by (auto simp: waiting_def started_def dest!: wait_action_silent silent_wire)
  show thesis
  proof (cases b)
    case True
    with out obtain got v ps where v: "waiting (clock (started w) + ms * 1000000) fd got (started w) v"
      "got = concat (map frame ps) @ frame (response_packet t s)"
      "list_all (stale (completed (locals (started w)))) ps" "w' = accept_response t s v"
      by (auto simp: wait_outcome_def)
    have "small (response_packet t s)"
      by (simp add: response_packet_def)
    with reads [OF v(1)] v(2,4) stale_small [OF v(3)] True show thesis
      by (auto simp: accept_response_def intro: that [of _ "ps @ [response_packet t s]"])
  next
    case False
    with out obtain got ps where "waiting (clock (started w) + ms * 1000000) fd got (started w) w'"
      "got = concat (map frame ps)" "list_all small ps"
      by (auto simp: wait_outcome_def)
    with reads [of got w'] False show thesis
      by (auto intro: that [of _ ps])
  qed
qed

lemma send_reads:
  assumes "sender_send_packet fd p w = (Ok u, w')" "small p"
  obtains as where "trace w' = trace w @ as" "wire_out fd as = frame p" "rx (socks w' fd) = rx (socks w fd)"
proof -
  have "sends fd (frame p) w (Ok u) w'"
    using assms send_loop_sends [of 0 "frame p"]
    by (simp add: sender_send_packet_def sender_send_all_def encode_small bind_ret)
  with that show thesis
    by (auto simp: sends_def)
qed

text \<open>The DATA loop, when it returns.\<close>

lemma send_data_exchange:
  "send_data_from fd n w = (Ok b, w') \<Longrightarrow>
     \<exists>k ps as. trace w' = trace w @ as \<and> wire_out fd as = concat (map frame (replicate k data_packet))
       \<and> list_all small ps \<and> stream_bytes (rx (socks w fd)) = concat (map frame ps) @ stream_bytes (rx (socks w' fd))
       \<and> (b \<longrightarrow> response_packet Ack 1 \<in> set ps)"
proof (induction fd n arbitrary: w w' rule: send_data_from.induct)
  case (1 fd n)
  note run = "1.prems" [unfolded send_data_from.simps [of fd n]]
  show ?case
  proof (cases "n \<le> kMaxRetries + 1")
    case False
    with run show ?thesis
      by (intro exI [of _ 0] exI [of _ "[]"] exI [of _ "[]"]) (auto simp: ret_def)
  next
    case True
    let ?k = "\<lambda>ok. if ok then bind_io (cout (ReceivedAck (sequence data_packet))) (\<lambda>_. ret True)
      else bind_io (cout (AckTimeout (sequence data_packet))) (\<lambda>_. send_data_from fd (n + 1))"
    from run True obtain u ok w1 w3 where
      send: "sender_send_packet fd data_packet w = (Ok u, w1)"
      and wait: "wait_for_response fd Ack (sequence data_packet) kAckTimeoutMs
        (w1\<lparr>trace := trace w1 @ [Line (SentData (sequence data_packet) n message)]\<rparr>) = (Ok ok, w3)"
      and rest: "?k ok w3 = (Ok b, w')"
      by (auto simp: bind_io_eq_Ok bind_cout)
    obtain as1 where as1: "trace w1 = trace w @ as1" "wire_out fd as1 = frame data_packet" "rx (socks w1 fd) = rx (socks w fd)"
      by (rule send_reads [OF send small_requests(1)])
    obtain ps as3 where as3: "trace w3 = trace w @ as1 @ [Line (SentData (sequence data_packet) n message)] @ as3"
      "wire_out fd as3 = []" "list_all small ps"
      "stream_bytes (rx (socks w fd)) = concat (map frame ps) @ stream_bytes (rx (socks w3 fd))"
      "ok \<longrightarrow> response_packet Ack (sequence data_packet) \<in> set ps"
      by (rule wait_reads [OF wait, of fd]) (use as1 in simp)
    show ?thesis
    proof (cases ok)
      case ok: True
      with rest have "w' = w3\<lparr>trace := trace w3 @ [Line (ReceivedAck (sequence data_packet))]\<rparr>"
        by (simp add: bind_cout ret_def)
      with as1 as3 ok show ?thesis
        by (intro exI [of _ 1] exI [of _ ps] exI [of _ "as1 @ [Line (SentData (sequence data_packet) n message)] @ as3
            @ [Line (ReceivedAck (sequence data_packet))]"]) (simp add: data_packet_def)
    next
      case False
      let ?w4 = "w3\<lparr>trace := trace w3 @ [Line (AckTimeout (sequence data_packet))]\<rparr>"
      from rest False have "send_data_from fd (n + 1) ?w4 = (Ok b, w')"
        by (simp add: bind_cout)
      from "1.IH" [OF True False this] obtain k qs as4 where "trace w' = trace ?w4 @ as4"
        "wire_out fd as4 = concat (map frame (replicate k data_packet))" "list_all small qs"
        "stream_bytes (rx (socks ?w4 fd)) = concat (map frame qs) @ stream_bytes (rx (socks w' fd))"
        "b \<longrightarrow> response_packet Ack 1 \<in> set qs"
        by blast
      with as1 as3 show ?thesis
        by (intro exI [of _ "Suc k"] exI [of _ "ps @ qs"] exI [of _ "as1 @ [Line (SentData (sequence data_packet) n message)]
            @ as3 @ Line (AckTimeout (sequence data_packet)) # as4"]) auto
    qed
  qed
qed

section \<open>An acknowledged message is a delivered one\<close>

text \<open>The bytes that have arrived at \<open>fd\<close> are among the first that were written to \<open>fd'\<close> of the other program.\<close>

definition arrives :: "('l, 'p) world \<Rightarrow> fd \<Rightarrow> 'm action list \<Rightarrow> fd \<Rightarrow> bool" where
  "arrives w fd as fd' \<longleftrightarrow> prefix (stream_bytes (rx (socks w fd))) (wire_out fd' as)"

lemma repeated_data:
  "set ps \<subseteq> {data_packet} \<Longrightarrow>
     deliveries (serve_spec seen ps) = (if ps = [] \<or> 1 \<in> seen then [] else [(1, message)])"
  by (induction ps arbitrary: seen) (auto simp: data_packet_def)

lemma replies_small: "list_all small (replies (serve_spec seen ps))"
  by (auto simp: serve_spec_replies list_all_iff ack_packet_def heartbeat_ack_packet_def)

text \<open>
  C1: an acknowledged message has been delivered, once and undamaged, through the fault
  injector. The sender's DATA loop, the relay in any of its five modes, and the receiver run
  connected by TCP, and kernel and network may do with each of them whatever they like. If
  the sender's loop ends acknowledged, the receiver, which had not processed sequence number
  1 before, has handed the sender's message to the application exactly once and nothing else.
\<close>

theorem tcp_acknowledged_is_delivered:
  assumes "send_data_from fs 1 ws = (Ok True, ws')" "trace ws' = trace ws @ sent"
    and "a \<noteq> b" "trace (snd (relay_connection a b mode wp)) = trace wp @ passed"
    and "trace (snd (serve_connection c wr)) = trace wr @ shown" "1 \<notin> processed_sequences (locals wr)"
    and "arrives wp a sent fs" "arrives wr c passed b" "arrives wp b shown c" "arrives ws fs passed a"
  shows "delivered shown = [(1, message)]"
proof -
  from send_data_exchange [OF assms(1)] assms(2) obtain k acks where
    sent: "wire_out fs sent = concat (map frame (replicate k data_packet))" and
    acks: "list_all small acks" "prefix (concat (map frame acks)) (stream_bytes (rx (socks ws fs)))"
      "response_packet Ack 1 \<in> set acks"
    by auto
  obtain x wp' where relay: "relay_connection a b mode wp = (x, wp')"
    by fastforce
  from relay_connection_relays [OF assms(3) relay] obtain ins where ins: "relaying a b mode ins wp wp'"
    by blast
  with assms(4) relay have small: "list_all small (sender_packets ins)" "list_all small (receiver_packets ins)"
    and read: "prefix (concat (map frame (sender_packets ins))) (stream_bytes (rx (socks wp a)))"
      "prefix (concat (map frame (receiver_packets ins))) (stream_bytes (rx (socks wp b)))"
    and written: "prefix (wire_out b passed) (to_receiver (relay_run mode (fault_applied (locals wp)) ins))"
      "prefix (wire_out a passed) (to_sender (relay_run mode (fault_applied (locals wp)) ins))"
    by (auto simp: relaying_def)
  obtain y wr' where serve: "serve_connection c wr = (y, wr')"
    by fastforce
  from serve_connection_serving [OF serve] obtain ps where "serving c ps wr wr'"
    by blast
  with assms(5) serve have ps: "list_all served ps" "prefix (concat (map frame ps)) (stream_bytes (rx (socks wr c)))"
    "delivered shown = deliveries (serve_spec (processed_sequences (locals wr)) ps)"
    "prefix (wire_out c shown) (concat (map frame (replies (serve_spec (processed_sequences (locals wr)) ps))))"
    by (auto simp: serving_def)
  note order = prefix_order.trans
  have "prefix (sender_packets ins) (replicate k data_packet)"
    using order [OF read(1) assms(7) [unfolded arrives_def]] small(1) sent
    by (intro frames_prefix) (simp_all add: list_all_iff)
  then have "set (sender_packets ins) \<subseteq> {data_packet}"
    using set_mono_prefix [of "sender_packets ins" "replicate k data_packet"] by (auto split: if_splits)
  moreover have "set ps \<subseteq> set (sender_packets ins)"
    using order [OF order [OF ps(2) assms(8) [unfolded arrives_def]] written(1)] ps(1) small(1)
    by (intro to_receiver_frames) (auto simp: served_def list_all_iff)
  ultimately have data: "set ps \<subseteq> {data_packet}"
    by blast
  obtain qs where qs: "to_sender (relay_run mode (fault_applied (locals wp)) ins) = concat (map frame qs)"
    "set qs \<subseteq> set (receiver_packets ins)"
    using to_sender_frames by blast
  have "prefix acks qs"
    using order [OF order [OF acks(2) assms(10) [unfolded arrives_def]] written(2)] acks(1) qs small(2)
    by (intro frames_prefix) (auto simp: list_all_iff)
  then have "response_packet Ack 1 \<in> set (receiver_packets ins)"
    using acks(3) qs(2) set_mono_prefix by blast
  moreover have "prefix (receiver_packets ins) (replies (serve_spec (processed_sequences (locals wr)) ps))"
    using order [OF order [OF read(2) assms(9) [unfolded arrives_def]] ps(4)] small(2)
    by (intro frames_prefix replies_small) simp_all
  ultimately have "ps \<noteq> []"
    by auto
  with repeated_data [OF data] ps(3) assms(6) show ?thesis
    by simp
qed

text \<open>The three programs exchange one message; the proxy delays its ACK.\<close>

abbreviation "ack_one \<equiv> response_packet Ack 1"

definition dialling :: sender_world where
  "dialling = (set_sock 5 (idle_sock\<lparr>rx := [Segment (frame ack_one)], tx := [TxAccept 100]\<rparr>)
     (idle_world \<lparr>completed = {}, frame_bytes = 0\<rparr>))\<lparr>ticks := [0, 0, 0, 0], polls := [poll_ready]\<rparr>"

definition between :: proxy_world where
  "between = (set_sock 7 (idle_sock\<lparr>rx := [Segment (frame data_packet)], tx := replicate 100 (TxAccept 1)\<rparr>)
     (set_sock 8 (idle_sock\<lparr>rx := [Segment (frame ack_one)], tx := replicate 100 (TxAccept 1)\<rparr>)
       (idle_world \<lparr>fault_applied = False\<rparr>)))\<lparr>polls := map poll_for [FromSender data_packet, FromReceiver ack_one]\<rparr>"

definition answering_world :: receiver_world where
  "answering_world = set_sock 4 (idle_sock\<lparr>rx := [Segment (frame data_packet), Fin], tx := replicate 16 (TxAccept 1)\<rparr>)
     (idle_world \<lparr>processed_sequences = {}\<rparr>)"

lemma dialling_run:
  "\<exists>w' as. send_data_from 5 1 dialling = (Ok True, w') \<and> trace w' = trace dialling @ as \<and> wire_out 5 as = frame data_packet"
proof -
  have "length (frame data_packet) \<le> 100"
    by (simp add: length_frame data_packet_def message_def)
  then show ?thesis
    by (simp add: dialling_def send_data_from.simps [of 5 "Suc 0"] run_simps kMaxRetries_def kAckTimeoutMs_def
        quick_send quick_wait data_packet_def [THEN arg_cong [of _ _ sequence]] accept_response_def set_rx_def set_tx_def set_sock_def)
qed

lemma between_run:
  "\<exists>as. trace (snd (relay_connection 7 8 DelayAck between)) = trace between @ as
    \<and> wire_out 8 as = frame data_packet \<and> wire_out 7 as = frame ack_one"
proof -
  let ?ins = "[FromSender data_packet, FromReceiver ack_one]"
  have types: "type_of data_packet = Data" "type_of ack_one = Ack" "length (frame data_packet) \<le> 100" "length (frame ack_one) \<le> 100"
      "small ack_one"
    by (simp_all add: length_frame data_packet_def message_def response_packet_def)
  have "relay_ready 7 8 DelayAck ?ins [] [] between"
    unfolding relay_ready_def
  proof (intro conjI)
    show "incoming 7 (concat (map frame (sender_packets ?ins)) @ []) between"
      unfolding incoming_def
      by (intro exI [of _ "[Segment (frame data_packet)]"] exI [of _ "[]"]) (simp add: between_def set_sock_def)
    show "incoming 8 (concat (map frame (receiver_packets ?ins)) @ []) between"
      unfolding incoming_def
      by (intro exI [of _ "[Segment (frame ack_one)]"] exI [of _ "[]"]) (simp add: between_def set_sock_def)
  qed (use types in \<open>simp_all add: accepting_def between_def set_sock_def accepts_replicate list_all_iff\<close>)
  from relay_delivers_then_waits [OF this] types show ?thesis
    by (auto simp: between_def)
qed

lemma answering_run:
  "\<exists>as. trace (snd (serve_connection 4 answering_world)) = trace answering_world @ as \<and> wire_out 4 as = frame ack_one"
proof -
  have "session_script (socks answering_world 4) [data_packet]"
    unfolding session_script_def
  proof (intro conjI exI)
    show "rx (socks answering_world 4) = [Segment (frame data_packet)] @ Fin # []"
      by (simp add: answering_world_def set_sock_def)
    show "strict_prefix [] (frame data_packet)"
      using frame_nonempty [of data_packet] by (metis strict_prefix_simps(2) list.exhaust)
  qed (simp_all add: answering_world_def set_sock_def served_def is_request_def accepts_replicate list_all_iff data_packet_def [THEN arg_cong [of _ _ type_of]])
  from serve_connection_session [OF this] obtain w' where "serve_connection 4 answering_world = (Ok (), w')"
    "progress 4 [data_packet] answering_world w'"
    by blast
  then show ?thesis
    by (auto simp: progress_def shows_obs_def data_packet_def ack_packet_def response_packet_def)
qed

theorem tcp_acknowledged_is_delivered_witness:
  "delivered (trace (snd (serve_connection 4 answering_world))) = [(1, message)]"
proof -
  obtain w' sent where s: "send_data_from 5 1 dialling = (Ok True, w')" "trace w' = trace dialling @ sent"
    "wire_out 5 sent = frame data_packet"
    using dialling_run by blast
  obtain passed where p: "trace (snd (relay_connection 7 8 DelayAck between)) = trace between @ passed"
    "wire_out 8 passed = frame data_packet" "wire_out 7 passed = frame ack_one"
    using between_run by blast
  obtain shown where r: "trace (snd (serve_connection 4 answering_world)) = trace answering_world @ shown"
    "wire_out 4 shown = frame ack_one"
    using answering_run by blast
  have arrived: "arrives between 7 sent 5" "arrives answering_world 4 passed 8" "arrives between 8 shown 4" "arrives dialling 5 passed 7"
    using s p r by (simp_all add: arrives_def between_def answering_world_def dialling_def set_sock_def)
  have "1 \<notin> processed_sequences (locals answering_world)" "trace answering_world = []"
    by (simp_all add: answering_world_def set_sock_def)
  with tcp_acknowledged_is_delivered [OF s(1,2) _ p(1) r(1) _ arrived] r(1) show ?thesis
    by simp
qed

end
