(* ===== verification/Datagrams.thy ===== *)
theory Datagrams
  imports Framing Transmissions
begin

text \<open>
  What the two UDP programs share: one packet per datagram. \<open>receive_packet\<close> reads a
  datagram into a buffer of the largest packet's size and checks the received size against
  the header; \<open>send_packet\<close> writes one datagram. \<open>src/udp/sender.cpp\<close> and
  \<open>src/udp/receiver.cpp\<close> have the same text up to the address the receiver keeps.
\<close>

section \<open>The code\<close>

definition kReceiveBufferSize :: nat where
  "kReceiveBufferSize = kHeaderSize + kMaxPayloadSize"

text \<open>
  What follows \<open>recvfrom\<close>: \<open>received\<close> are the bytes it wrote to the front of a buffer of
  zeros, the checks read the buffer.
\<close>

definition datagram_packet :: "bytes \<Rightarrow> ('l, 'p, packet) io" where
  "datagram_packet received =
     (let buffer = received @ replicate (kReceiveBufferSize - length received) 0 in
      if length received < kHeaderSize then
        throw (RuntimeError (Msg ''UDP datagram smaller than protocol header''))
      else
        bind_io (lift_codec (get_payload_length (take kHeaderSize buffer))) (\<lambda>payload_length.
        if length received \<noteq> kHeaderSize + unat payload_length then
          throw (RuntimeError (Msg ''UDP datagram size mismatch''))
        else
          lift_codec (decode_packet (take kHeaderSize buffer)
            (take (unat payload_length) (drop kHeaderSize buffer)))))"

definition udp_receive_packet :: "fd \<Rightarrow> ('l, 'p, addr \<times> packet) io" where
  "udp_receive_packet fd =
     bind_io (sys_recvfrom fd kReceiveBufferSize) (\<lambda>result. case result of
       Inl e \<Rightarrow> throw (RuntimeError (Sys ''recvfrom failed: '' e))
     | Inr (sender_address, received) \<Rightarrow>
         bind_io (datagram_packet received) (\<lambda>p. ret (sender_address, p)))"

definition udp_send_packet :: "fd \<Rightarrow> packet \<Rightarrow> addr \<Rightarrow> ('l, 'p, unit) io" where
  "udp_send_packet fd p destination =
     bind_io (lift_codec (encode_packet p)) (\<lambda>encoded.
     bind_io (sys_sendto fd encoded destination) (\<lambda>result. case result of
       Inl e \<Rightarrow> throw (RuntimeError (Sys ''sendto failed: '' e))
     | Inr sent \<Rightarrow>
         if sent \<noteq> length encoded then
           throw (RuntimeError (Msg ''partial UDP datagram send''))
         else ret ()))"

section \<open>Receiving\<close>

lemma kReceiveBufferSize_eq [simp]: "kReceiveBufferSize = 1040"
  by (simp add: kReceiveBufferSize_def kMaxPayloadSize_def)

lemma get_payload_length_bound: "get_payload_length h = Inr n \<Longrightarrow> length h = 16 \<and> unat n \<le> kMaxPayloadSize"
  using get_payload_length_Inr by blast

text \<open>A datagram yields a packet exactly if it is the packet's frame.\<close>

lemma frame_parts [simp]: "take 16 (frame p) = header_of p" "drop 16 (frame p) = payload p"
  by (simp_all add: frame_def)

lemma datagram_frame: "small p \<Longrightarrow> datagram_packet (frame p) w = (Ok p, w)"
proof -
  assume small: "small p"
  let ?buf = "frame p @ replicate (1040 - length (frame p)) 0"
  have buf: "take 16 ?buf = header_of p" "take (length (payload p)) (drop 16 ?buf) = payload p"
    by (simp_all add: length_frame)
  have "get_payload_length (header_of p) = Inr (of_nat (length (payload p)))"
    "decode_packet (header_of p) (payload p) = Inr p" "unat (of_nat (length (payload p)) :: u32) = length (payload p)"
    using small by (simp_all add: wire_simps small_def unat_payload_length)
  with buf show ?thesis
    by (simp only: datagram_packet_def Let_def kHeaderSize_16 kReceiveBufferSize_eq lift_codec_simps bind_ret)
      (simp add: length_frame apply_io bind_ret)
qed

lemma datagram_Ok:
  assumes "datagram_packet bs w = (Ok p, w')"
  shows "w' = w \<and> small p \<and> bs = frame p"
proof -
  let ?buf = "bs @ replicate (1040 - length bs) 0"
  from assms have "16 \<le> length bs"
    by (auto simp: datagram_packet_def Let_def throw_def split: if_splits)
  moreover from this assms obtain n where n: "get_payload_length (take 16 ?buf) = Inr n" "length bs = 16 + unat n"
    and dec: "lift_codec (decode_packet (take 16 ?buf) (take (unat n) (drop 16 ?buf))) w = (Ok p, w')"
    by (auto simp: datagram_packet_def Let_def bind_ret bind_throw throw_def lift_codec_def split: if_splits sum.splits)
  ultimately have buf: "take 16 ?buf = take 16 bs" "take (unat n) (drop 16 ?buf) = drop 16 bs"
    by simp_all
  with dec have "decode_packet (take 16 bs) (drop 16 bs) = Inr p" "w' = w"
    by (auto simp: lift_codec_def ret_def throw_def split: sum.splits)
  with decode_packet_Inr [OF this(1)] show ?thesis
    by (auto simp: small_def frame_def) (metis append_take_drop_id)
qed

lemma datagram_no_block: "datagram_packet bs w = (x, w') \<Longrightarrow> w' = w \<and> x \<noteq> Blocked"
  by (auto simp: datagram_packet_def Let_def lift_codec_def bind_io_def ret_def throw_def split: if_splits sum.splits)

lemma raises_datagram:
  assumes "\<And>m. E (RuntimeError m)"
  shows "raises E (datagram_packet bs)"
  unfolding datagram_packet_def Let_def by (intro raises_rules raises_lift_codec assms)

lemma raises_udp_receive:
  assumes "\<And>m. E (RuntimeError m)"
  shows "raises E (udp_receive_packet fd)"
proof -
  have "raises E (case r of (a, bs) \<Rightarrow> bind_io (datagram_packet bs) (\<lambda>p. ret (a, p)))" for r :: "addr \<times> bytes"
    by (cases r) (simp add: raises_bind raises_ret raises_datagram assms)
  then show ?thesis
    unfolding udp_receive_packet_def by (intro raises_rules assms)
qed

text \<open>The world after a datagram has been taken.\<close>

lemma set_dgrx_simps [simp]:
  "dgrx (socks (set_dgrx fd es w) fd) = es" "trace (set_dgrx fd es w) = trace w"
  "locals (set_dgrx fd es w) = locals w" "fds (set_dgrx fd es w) = fds w" "ticks (set_dgrx fd es w) = ticks w"
  "polls (set_dgrx fd es w) = polls w" "clock (set_dgrx fd es w) = clock w" "calls (set_dgrx fd es w) = calls w"
  "dgtx (socks (set_dgrx fd es w) fd') = dgtx (socks w fd')"
  "fd' \<noteq> fd \<Longrightarrow> socks (set_dgrx fd es w) fd' = socks w fd'"
  by (simp_all add: set_dgrx_def)

lemma set_dgtx_simps [simp]:
  "dgtx (socks (set_dgtx fd es w) fd) = es" "trace (set_dgtx fd es w) = trace w"
  "locals (set_dgtx fd es w) = locals w" "fds (set_dgtx fd es w) = fds w" "ticks (set_dgtx fd es w) = ticks w"
  "polls (set_dgtx fd es w) = polls w" "clock (set_dgtx fd es w) = clock w" "calls (set_dgtx fd es w) = calls w"
  "dgrx (socks (set_dgtx fd es w) fd') = dgrx (socks w fd')"
  "fd' \<noteq> fd \<Longrightarrow> socks (set_dgtx fd es w) fd' = socks w fd'"
  by (simp_all add: set_dgtx_def)

lemma udp_receive_cases:
  assumes "udp_receive_packet fd w = (x, w')"
  obtains (empty) "dgrx (socks w fd) = []" "x = Blocked" "w' = w"
  | (packet) a bs es p where "dgrx (socks w fd) = Datagram a bs # es" "w' = set_dgrx fd es w"
      "x = Ok (a, p)" "small p" "take 1040 bs = frame p"
  | (bad) ev es m where "dgrx (socks w fd) = ev # es" "w' = set_dgrx fd es w" "x = Throw (RuntimeError m)"
proof (cases "dgrx (socks w fd)")
  case Nil
  with assms have "x = Blocked" "w' = w"
    by (simp_all add: udp_receive_packet_def bind_io_def sys_recvfrom_def)
  with Nil show ?thesis
    by (rule empty)
next
  case (Cons ev es)
  show ?thesis
  proof (cases ev)
    case (DgFail e)
    with assms Cons have "x = Throw (RuntimeError (Sys ''recvfrom failed: '' e))" "w' = set_dgrx fd es w"
      by (simp_all add: udp_receive_packet_def bind_io_def sys_recvfrom_def throw_def)
    with Cons show ?thesis
      by (intro bad)
  next
    case (Datagram a bs)
    obtain y w1 where dg: "datagram_packet (take 1040 bs) (set_dgrx fd es w) = (y, w1)"
      by fastforce
    then have run: "(x, w') = (case y of Ok p \<Rightarrow> Ok (a, p) | Throw e \<Rightarrow> Throw e | Blocked \<Rightarrow> Blocked, w1)"
      using assms Cons Datagram
      by (cases y) (simp_all add: udp_receive_packet_def bind_io_def sys_recvfrom_def ret_def)
    have w1: "w1 = set_dgrx fd es w" "y \<noteq> Blocked"
      using datagram_no_block [OF dg] by simp_all
    show ?thesis
    proof (cases y)
      case (Ok p)
      with dg have "small p" "take 1040 bs = frame p"
        using datagram_Ok [of "take 1040 bs" "set_dgrx fd es w" p w1] by simp_all
      with Cons Datagram Ok run w1 show ?thesis
        by (intro packet [of a bs es p]) simp_all
    next
      case (Throw e)
      have "raises (\<lambda>e. \<exists>m. e = RuntimeError m) (datagram_packet (take 1040 bs) :: ('a, 'b, packet) io)"
        by (rule raises_datagram) simp
      from raisesD [OF this, of "set_dgrx fd es w" e w1] dg Throw obtain m where "e = RuntimeError m"
        by auto
      with Throw run w1 Cons show ?thesis
        by (intro bad [of ev es m]) simp_all
    qed (use w1 in simp)
  qed
qed

lemma udp_receive_frame:
  assumes "dgrx (socks w fd) = Datagram a bs # es" "take 1040 bs = frame p" "small p"
  shows "udp_receive_packet fd w = (Ok (a, p), set_dgrx fd es w)"
  using assms by (simp add: udp_receive_packet_def bind_io_def sys_recvfrom_def datagram_frame ret_def)

lemma take_frame: "small p \<Longrightarrow> take 1040 (frame p) = frame p"
  by (simp add: length_frame small_def kMaxPayloadSize_def)

section \<open>Sending\<close>

lemma udp_send_cases:
  assumes "udp_send_packet fd p a w = (x, w')" "small p"
  obtains (waiting) "dgtx (socks w fd) = []" "x = Blocked" "w' = w"
  | (sent) k ts where "dgtx (socks w fd) = TxAccept k # ts" "length (frame p) \<le> k" "x = Ok ()"
      "w' = set_dgtx fd ts (w\<lparr>trace := trace w @ [SentTo fd a (frame p)]\<rparr>)"
  | (part) k ts m where "dgtx (socks w fd) = TxAccept k # ts" "k < length (frame p)" "x = Throw (RuntimeError m)"
      "w' = set_dgtx fd ts (w\<lparr>trace := trace w @ [SentTo fd a (take k (frame p))]\<rparr>)"
  | (failed) e ts m where "dgtx (socks w fd) = TxFail e # ts" "x = Throw (RuntimeError m)" "w' = set_dgtx fd ts w"
proof (cases "dgtx (socks w fd)")
  case Nil
  with assms have "x = Blocked" "w' = w"
    by (simp_all add: udp_send_packet_def encode_small bind_ret bind_io_Blocked [of _ w w] sys_sendto_def)
  with Nil show ?thesis
    by (rule waiting)
next
  case (Cons ev ts)
  have run: "bind_io (sys_sendto fd (frame p) a) (\<lambda>result. case result of
       Inl e \<Rightarrow> throw (RuntimeError (Sys ''sendto failed: '' e))
     | Inr sent \<Rightarrow> if sent \<noteq> length (frame p) then throw (RuntimeError (Msg ''partial UDP datagram send'')) else ret ()) w = (x, w')"
    using assms by (simp add: udp_send_packet_def encode_small bind_ret)
  show ?thesis
  proof (cases ev)
    case (TxFail e)
    with run Cons have "x = Throw (RuntimeError (Sys ''sendto failed: '' e))" "w' = set_dgtx fd ts w"
      by (simp_all add: bind_io_def sys_sendto_def throw_def)
    with Cons TxFail show ?thesis
      by (intro failed [of e ts]) simp_all
  next
    case (TxAccept k)
    show ?thesis
    proof (cases "length (frame p) \<le> k")
      case True
      with run Cons TxAccept have "x = Ok ()" "w' = set_dgtx fd ts (w\<lparr>trace := trace w @ [SentTo fd a (frame p)]\<rparr>)"
        by (simp_all add: bind_io_def sys_sendto_def ret_def)
      with Cons TxAccept True show ?thesis
        by (intro sent [of k ts]) simp_all
    next
      case False
      with run Cons TxAccept have "x = Throw (RuntimeError (Msg ''partial UDP datagram send''))"
        "w' = set_dgtx fd ts (w\<lparr>trace := trace w @ [SentTo fd a (take k (frame p))]\<rparr>)"
        by (simp_all add: bind_io_def sys_sendto_def throw_def min_def)
      with Cons TxAccept False show ?thesis
        by (intro part [of k ts]) simp_all
    qed
  qed
qed

lemma raises_udp_send:
  assumes "\<And>m. E (RuntimeError m)"
  shows "raises E (udp_send_packet fd p a)"
  unfolding udp_send_packet_def by (intro raises_rules raises_lift_codec assms)

section \<open>Effects\<close>

lemma session_datagram: "within session_le (datagram_packet bs)"
  unfolding datagram_packet_def Let_def by (intro session.within_rules session_lift_codec)

lemma session_udp_receive: "within session_le (udp_receive_packet fd)"
proof -
  have "within session_le (case r of (a, bs) \<Rightarrow> bind_io (datagram_packet bs) (\<lambda>p. ret (a, p)))" for r :: "addr \<times> bytes"
    by (cases r) (simp add: session.within_bind session.within_ret session_datagram)
  then show ?thesis
    unfolding udp_receive_packet_def by (intro session.within_rules session_calls)
qed

lemma session_udp_send: "within session_le (udp_send_packet fd p a)"
  unfolding udp_send_packet_def by (intro session.within_rules session_lift_codec session_calls)

lemma appends_udp_receive: "within (appends Q) (udp_receive_packet fd)"
proof -
  have "within (appends Q) (case r of (a, bs) \<Rightarrow> bind_io (datagram_packet bs) (\<lambda>p. ret (a, p)))" for r :: "addr \<times> bytes"
    by (cases r) (simp add: datagram_packet_def Let_def appends.within_rules appends_lift_codec)
  then show ?thesis
    unfolding udp_receive_packet_def by (intro appends.within_rules appends_calls)
qed

lemma appends_udp_send: "(\<And>bs. Q (SentTo fd a bs)) \<Longrightarrow> within (appends Q) (udp_send_packet fd p a)"
  unfolding udp_send_packet_def by (intro appends.within_rules appends_lift_codec appends_sendto)

lemma udp_receive_less:
  "udp_receive_packet fd w = (Ok r, w') \<Longrightarrow> length (dgrx (socks w' fd)) < length (dgrx (socks w fd))"
  by (erule udp_receive_cases) auto

section \<open>Properties\<close>

text \<open>
  C33: one datagram, one packet. \<open>receive_packet\<close> takes one datagram from the socket. It
  yields a packet exactly if what fits the buffer is the whole frame of a packet within the
  size limit, and then that packet; every other datagram and every receive error is a
  \<open>runtime_error\<close>; on an empty queue it waits.
\<close>

theorem udp_receive_exact:
  "case udp_receive_packet fd w of (x, w') \<Rightarrow>
     (case dgrx (socks w fd) of
        [] \<Rightarrow> x = Blocked \<and> w' = w
      | DgFail e # es \<Rightarrow> w' = set_dgrx fd es w \<and> x = Throw (RuntimeError (Sys ''recvfrom failed: '' e))
      | Datagram a bs # es \<Rightarrow> w' = set_dgrx fd es w
          \<and> (if \<exists>p. small p \<and> take 1040 bs = frame p then \<exists>p. x = Ok (a, p) \<and> small p \<and> take 1040 bs = frame p
             else \<exists>m. x = Throw (RuntimeError m)))"
proof -
  obtain x w' where run: "udp_receive_packet fd w = (x, w')"
    by fastforce
  show ?thesis
  proof (cases "dgrx (socks w fd)")
    case Nil
    with run show ?thesis
      by (simp add: udp_receive_packet_def bind_io_def sys_recvfrom_def)
  next
    case (Cons d es)
    show ?thesis
    proof (cases d)
      case (DgFail e)
      with run Cons show ?thesis
        by (simp add: udp_receive_packet_def bind_io_def sys_recvfrom_def throw_def)
    next
      case (Datagram a bs)
      from run show ?thesis
      proof (cases rule: udp_receive_cases)
        case (packet a' bs' es' p)
        with run Cons Datagram show ?thesis
          by auto
      next
        case (bad ev es' m)
        have "\<not> (\<exists>p. small p \<and> take 1040 bs = frame p)"
          using udp_receive_frame [of w fd a bs es] run bad(3) Cons Datagram by auto
        with bad run Cons Datagram show ?thesis
          by auto
      qed (use Cons in simp)
    qed
  qed
qed

text \<open>
  The size check cannot see beyond the buffer. A datagram of any length whose first 1040
  bytes are a frame with a payload of the maximal size is accepted as that packet, although
  it is longer than the frame.
\<close>

theorem overlong_datagram_accepted:
  assumes "length (payload p) = kMaxPayloadSize" "dgrx (socks w fd) = Datagram a (frame p @ extra) # es"
  shows "udp_receive_packet fd w = (Ok (a, p), set_dgrx fd es w)"
proof (rule udp_receive_frame [OF assms(2)])
  show "take 1040 (frame p @ extra) = frame p"
    using assms(1) by (simp add: length_frame kMaxPayloadSize_def)
  show "small p"
    using assms(1) by (simp add: small_def)
qed

theorem overlong_datagram_accepted_witness:
  "udp_receive_packet 4 (set_sock 4 (idle_sock\<lparr>dgrx := [Datagram (0, 0)
       (frame \<lparr>type_of = Data, sequence = 1, payload = replicate 1024 7\<rparr> @ [1, 2, 3])]\<rparr>) (idle_world ())) =
     (Ok ((0, 0), \<lparr>type_of = Data, sequence = 1, payload = replicate 1024 7\<rparr>),
      set_dgrx 4 [] (set_sock 4 (idle_sock\<lparr>dgrx := [Datagram (0, 0)
       (frame \<lparr>type_of = Data, sequence = 1, payload = replicate 1024 7\<rparr> @ [1, 2, 3])]\<rparr>) (idle_world ())))"
  by (rule overlong_datagram_accepted) (simp_all add: kMaxPayloadSize_def set_sock_def)

end
