(* ===== verification/UdpSender.thy ===== *)
theory UdpSender
  imports Datagrams Delivery
begin

text \<open>
  The sender of \<open>src/udp/sender.cpp\<close>: each DATA datagram is sent up to four times until its
  ACK arrives before an absolute deadline; ACKs of messages already completed are skipped.
\<close>

section \<open>The code\<close>

definition kReceiverAddress :: addr where "kReceiverAddress = (0x7F000001, 6000)"
definition udp_kAckTimeoutMs :: nat where "udp_kAckTimeoutMs = 1000"
definition udp_kMaxRetries :: nat where "udp_kMaxRetries = 3"

datatype udp_sender_line =
  UdpIgnoredStaleAck u32
| UdpSentData u32 nat bytes
| UdpReceivedAck u32
| UdpAckTimeout u32
| UdpSenderOutOfOrderMode
| UdpSenderError what

record udp_sender_state =
  completed_sequences :: "u32 set"

type_synonym udp_sender_world = "(udp_sender_line, udp_sender_state) world"
type_synonym 'a udp_sender_io = "(udp_sender_line, udp_sender_state, 'a) io"

text \<open>The call is \<open>inet_pton\<close>.\<close>

definition create_receiver_address :: "addr udp_sender_io" where
  "create_receiver_address =
     bind_io sys_call (\<lambda>r. case r of
       Some e \<Rightarrow> throw (RuntimeError (Msg ''invalid receiver IP address''))
     | None \<Rightarrow> ret kReceiverAddress)"

definition udp_sender_receive_packet :: "fd \<Rightarrow> packet udp_sender_io" where
  "udp_sender_receive_packet fd =
     bind_io (udp_receive_packet fd) (\<lambda>(sender_address, p). ret p)"

text \<open>
  The loop of \<open>wait_for_ack\<close>: \<open>Some b\<close> is \<open>return b\<close>, \<open>None\<close> is \<open>continue\<close>. \<open>judge_ack\<close> is the
  part after \<open>receive_packet\<close>.
\<close>

definition judge_ack :: "u32 \<Rightarrow> nat \<Rightarrow> packet \<Rightarrow> bool option udp_sender_io" where
  "judge_ack expected_sequence deadline ack =
     bind_io sys_now (\<lambda>now.
     if deadline \<le> now then ret (Some False)
     else if type_of ack \<noteq> Ack \<or> payload ack \<noteq> [] then
       throw (RuntimeError (Msg ''expected empty ACK packet''))
     else if sequence ack = expected_sequence then
       bind_io (upd_local (completed_sequences_update (insert (sequence ack)))) (\<lambda>_.
       ret (Some True))
     else
       bind_io (get_local (\<lambda>st. sequence ack \<in> completed_sequences st)) (\<lambda>stale.
       if stale then
         bind_io (cout (UdpIgnoredStaleAck (sequence ack))) (\<lambda>_. ret None)
       else throw (RuntimeError (Msg ''ACK sequence mismatch''))))"

definition ack_ready :: "fd \<Rightarrow> u32 \<Rightarrow> nat \<Rightarrow> int \<Rightarrow> bool option udp_sender_io" where
  "ack_ready fd expected_sequence deadline timeout_ms =
     bind_io (sys_poll [fd] timeout_ms) (\<lambda>result. case result of
       Inl e \<Rightarrow>
         if e = EINTR then ret None
         else throw (RuntimeError (Sys ''poll failed: '' e))
     | Inr rs \<Rightarrow>
         if poll_count rs = 0 then ret (Some False)
         else
           let revents = revents_at rs 0 in
           if POLLERR \<in> revents \<or> POLLNVAL \<in> revents then
             throw (RuntimeError (Msg ''UDP socket error while waiting for ACK''))
           else if POLLIN \<notin> revents then ret None
           else
             bind_io (udp_sender_receive_packet fd) (\<lambda>ack.
             judge_ack expected_sequence deadline ack))"

definition ack_pass :: "fd \<Rightarrow> u32 \<Rightarrow> nat \<Rightarrow> bool option udp_sender_io" where
  "ack_pass fd expected_sequence deadline =
     bind_io sys_now (\<lambda>now.
     if deadline \<le> now then ret (Some False)
     else ack_ready fd expected_sequence deadline (int (ceil_ms (deadline - now))))"

lemma session_sender_receive: "within session_le (udp_sender_receive_packet fd)"
proof -
  have "within session_le (case r of (a, p) \<Rightarrow> ret p)" for r :: "addr \<times> packet"
    by (cases r) (simp add: session.within_ret)
  then show ?thesis
    unfolding udp_sender_receive_packet_def by (intro session.within_bind session_udp_receive)
qed

lemma session_ack_ready: "within session_le (ack_ready fd s deadline t)"
  unfolding ack_ready_def judge_ack_def Let_def
  by (intro session.within_rules session_calls session_sender_receive)

lemma session_ack_pass: "within session_le (ack_pass fd s deadline)"
  unfolding ack_pass_def by (intro session.within_rules session_calls session_ack_ready)

lemma ack_pass_less:
  assumes "ack_pass fd s deadline w = (Ok r, w')"
  shows "length (ticks w') < length (ticks w)"
proof -
  from assms obtain now w1 where now: "sys_now w = (Ok now, w1)"
    and rest: "(if deadline \<le> now then ret (Some False)
      else ack_ready fd s deadline (int (ceil_ms (deadline - now)))) w1 = (Ok r, w')"
    by (auto simp: ack_pass_def bind_io_eq_Ok)
  have "within session_le (if deadline \<le> now then ret (Some False)
      else ack_ready fd s deadline (int (ceil_ms (deadline - now))))"
    by (intro session.within_rules session_ack_ready)
  from withinD [OF this rest] sys_now_less [OF now] show ?thesis
    by (simp add: session_le_def world_le_def)
qed

function ack_loop :: "fd \<Rightarrow> u32 \<Rightarrow> nat \<Rightarrow> udp_sender_world \<Rightarrow> bool result \<times> udp_sender_world" where
  "ack_loop fd expected_sequence deadline w =
     (case ack_pass fd expected_sequence deadline w of
        (Ok None, w') \<Rightarrow> ack_loop fd expected_sequence deadline w'
      | (Ok (Some b), w') \<Rightarrow> (Ok b, w')
      | (Throw e, w') \<Rightarrow> (Throw e, w')
      | (Blocked, w') \<Rightarrow> (Blocked, w'))"
  by pat_completeness auto
termination
  by (relation "measure (\<lambda>(_, _, _, w). length (ticks w))") (auto dest: ack_pass_less [OF sym])

declare ack_loop.simps [simp del]

definition wait_for_ack :: "fd \<Rightarrow> u32 \<Rightarrow> bool udp_sender_io" where
  "wait_for_ack fd expected_sequence =
     bind_io sys_now (\<lambda>now. ack_loop fd expected_sequence (now + udp_kAckTimeoutMs * 1000000))"

text \<open>The loop of \<open>send_data_with_retry\<close> from a given attempt on.\<close>

definition udp_data_packet :: "u32 \<Rightarrow> bytes \<Rightarrow> packet" where
  "udp_data_packet s message = \<lparr>type_of = Data, sequence = s, payload = message\<rparr>"

function udp_send_from :: "fd \<Rightarrow> addr \<Rightarrow> u32 \<Rightarrow> bytes \<Rightarrow> nat \<Rightarrow> unit udp_sender_io" where
  "udp_send_from fd receiver_address s message attempt =
     (if attempt \<le> udp_kMaxRetries + 1 then
        bind_io (udp_send_packet fd (udp_data_packet s message) receiver_address) (\<lambda>_.
        bind_io (cout (UdpSentData s attempt message)) (\<lambda>_.
        bind_io (wait_for_ack fd s) (\<lambda>acked.
        if acked then cout (UdpReceivedAck s)
        else
          bind_io (cout (UdpAckTimeout s)) (\<lambda>_.
          udp_send_from fd receiver_address s message (attempt + 1)))))
      else throw (RuntimeError (Msg ''ACK retry limit exceeded'')))"
  by pat_completeness auto
termination
  by (relation "measure (\<lambda>(_, _, _, _, attempt). udp_kMaxRetries + 2 - attempt)") auto

declare udp_send_from.simps [simp del]

definition send_data_with_retry :: "fd \<Rightarrow> addr \<Rightarrow> u32 \<Rightarrow> bytes \<Rightarrow> unit udp_sender_io" where
  "send_data_with_retry fd receiver_address s message = udp_send_from fd receiver_address s message 1"

text \<open>\<open>"hello udp"\<close> and \<open>"message-1"\<close>, \<open>"message-2"\<close>, \<open>"message-3"\<close>.\<close>

definition hello_udp :: bytes where
  "hello_udp = [104, 101, 108, 108, 111, 32, 117, 100, 112]"

definition message_text :: "u8 \<Rightarrow> bytes" where
  "message_text digit = [109, 101, 115, 115, 97, 103, 101, 45, digit]"

text \<open>The arguments without the program name; the error is the exception's text.\<close>

fun udp_sender_mode :: "string list \<Rightarrow> string + bool" where
  "udp_sender_mode [] = Inr False"
| "udp_sender_mode (mode # _) =
     (if mode \<noteq> ''out-of-order'' then Inl (''unknown mode: '' @ mode) else Inr True)"

definition udp_send_all_messages :: "fd \<Rightarrow> addr \<Rightarrow> bool \<Rightarrow> unit udp_sender_io" where
  "udp_send_all_messages fd receiver_address out_of_order =
     (if out_of_order then
        bind_io (cout UdpSenderOutOfOrderMode) (\<lambda>_.
        bind_io (send_data_with_retry fd receiver_address 1 (message_text 49)) (\<lambda>_.
        bind_io (send_data_with_retry fd receiver_address 3 (message_text 51)) (\<lambda>_.
        send_data_with_retry fd receiver_address 2 (message_text 50))))
      else send_data_with_retry fd receiver_address 1 hello_udp)"

definition udp_sender_body :: "string list \<Rightarrow> int udp_sender_io" where
  "udp_sender_body args =
     (case udp_sender_mode args of
        Inl m \<Rightarrow> throw (RuntimeError (Msg m))
      | Inr out_of_order \<Rightarrow>
          bind_io sys_open (\<lambda>r. case r of
            Inl e \<Rightarrow> throw (RuntimeError (Sys ''socket failed: '' e))
          | Inr fd \<Rightarrow>
              bind_io create_receiver_address (\<lambda>receiver_address.
              bind_io (upd_local (completed_sequences_update (\<lambda>_. {}))) (\<lambda>_.
              bind_io (udp_send_all_messages fd receiver_address out_of_order) (\<lambda>_.
              bind_io (sys_close fd) (\<lambda>_. ret 0))))))"

definition udp_sender_main :: "string list \<Rightarrow> int udp_sender_io" where
  "udp_sender_main args =
     catch_io (udp_sender_body args)
       (\<lambda>e. map_option (\<lambda>m. bind_io (cout (UdpSenderError m)) (\<lambda>_. ret 1)) (std_what e))"

end
