(* ===== verification/UdpSenderProgram.thy ===== *)
theory UdpSenderProgram
  imports UdpSender
begin

text \<open>
  The UDP sender's properties: what a wait for an ACK accepts, skips and refuses; how often
  a message is sent; what the exit status means.
\<close>

section \<open>One pass of the wait\<close>

definition ack_action :: "nat \<Rightarrow> udp_sender_line action \<Rightarrow> bool" where
  "ack_action m a \<longleftrightarrow> (case a of
     Polled n \<Rightarrow> 0 < n \<and> n \<le> int m | Line (UdpIgnoredStaleAck s) \<Rightarrow> True | _ \<Rightarrow> False)"

lemma ack_action_simps [simp]:
  "ack_action m (Polled n) \<longleftrightarrow> 0 < n \<and> n \<le> int m" "ack_action m (Line (UdpIgnoredStaleAck s))"
  by (simp_all add: ack_action_def)

text \<open>A datagram that is the ACK of another, completed message.\<close>

definition stale_ack :: "u32 \<Rightarrow> u32 set \<Rightarrow> dg_event \<Rightarrow> bool" where
  "stale_ack s seen d \<longleftrightarrow> (\<exists>a bs s'. d = Datagram a bs \<and> take 1040 bs = frame (ack_packet s') \<and> s' \<in> seen \<and> s' \<noteq> s)"

lemma ack_packetI: "type_of p = Ack \<Longrightarrow> payload p = [] \<Longrightarrow> p = ack_packet (sequence p)"
  by (cases p) (simp add: ack_packet_def)

lemma ack_packet_simps [simp]: "sequence (ack_packet s) = s" "type_of (ack_packet s) = Ack" "payload (ack_packet s) = []"
  "small (ack_packet s)"
  by (simp_all add: ack_packet_def)

lemma judge_ack_outcome:
  assumes "judge_ack s dl p w = (x, w')"
  shows "clock w \<le> clock w' \<and> socks w' = socks w \<and> (case x of
      Ok (Some True) \<Rightarrow> p = ack_packet s \<and> clock w' < dl \<and> trace w' = trace w
        \<and> locals w' = completed_sequences_update (insert s) (locals w)
    | Ok None \<Rightarrow> (\<exists>s'. p = ack_packet s' \<and> s' \<noteq> s \<and> s' \<in> completed_sequences (locals w)
        \<and> locals w' = locals w \<and> trace w' = trace w @ [Line (UdpIgnoredStaleAck s')])
    | _ \<Rightarrow> locals w' = locals w \<and> trace w' = trace w)"
proof (cases "ticks w")
  case Nil
  with assms show ?thesis
    by (auto simp: judge_ack_def bind_io_def sys_now_def)
next
  case (Cons d ds)
  let ?w1 = "w\<lparr>clock := clock w + d, ticks := ds\<rparr>"
  have "judge_ack s dl p w = (if dl \<le> clock w + d then ret (Some False)
     else if type_of p \<noteq> Ack \<or> payload p \<noteq> [] then throw (RuntimeError (Msg ''expected empty ACK packet''))
     else if sequence p = s then
       bind_io (upd_local (completed_sequences_update (insert (sequence p)))) (\<lambda>_. ret (Some True))
     else
       bind_io (get_local (\<lambda>st. sequence p \<in> completed_sequences st)) (\<lambda>stale.
       if stale then bind_io (cout (UdpIgnoredStaleAck (sequence p))) (\<lambda>_. ret None)
       else throw (RuntimeError (Msg ''ACK sequence mismatch'')))) ?w1"
    using Cons by (simp add: judge_ack_def bind_io_def sys_now_def)
  with assms ack_packetI [of p] show ?thesis
    by (auto simp: bind_get_local bind_upd_local bind_cout apply_io split: if_splits)
qed

text \<open>
  Waiting without a verdict: only stale ACKs have been taken from the socket, nothing has
  been sent, and every \<open>poll\<close> was bounded by the time left.
\<close>

definition awaiting :: "nat \<Rightarrow> fd \<Rightarrow> u32 \<Rightarrow> udp_sender_world \<Rightarrow> udp_sender_world \<Rightarrow> bool" where
  "awaiting dl fd s w w' \<longleftrightarrow> locals w' = locals w \<and> clock w \<le> clock w'
     \<and> (\<exists>ds. dgrx (socks w fd) = ds @ dgrx (socks w' fd) \<and> list_all (stale_ack s (completed_sequences (locals w))) ds)
     \<and> (\<exists>as. trace w' = trace w @ as \<and> list_all (ack_action (ceil_ms (dl - clock w))) as)"

definition quiet_since :: "nat \<Rightarrow> udp_sender_world \<Rightarrow> udp_sender_world \<Rightarrow> bool" where
  "quiet_since dl w w' \<longleftrightarrow> locals w' = locals w
     \<and> (\<exists>as. trace w' = trace w @ as \<and> list_all (ack_action (ceil_ms (dl - clock w))) as)"

definition acked :: "nat \<Rightarrow> fd \<Rightarrow> u32 \<Rightarrow> udp_sender_world \<Rightarrow> udp_sender_world \<Rightarrow> bool" where
  "acked dl fd s w w' \<longleftrightarrow> clock w' < dl
     \<and> locals w' = completed_sequences_update (insert s) (locals w)
     \<and> (\<exists>ds a bs. dgrx (socks w fd) = ds @ Datagram a bs # dgrx (socks w' fd)
          \<and> take 1040 bs = frame (ack_packet s) \<and> list_all (stale_ack s (completed_sequences (locals w))) ds)
     \<and> (\<exists>as. trace w' = trace w @ as \<and> list_all (ack_action (ceil_ms (dl - clock w))) as)"

lemma ack_actions_mono:
  assumes "list_all (ack_action m) as" "m \<le> n"
  shows "list_all (ack_action n) as"
proof -
  have "ack_action n a" if "ack_action m a" for a
    using that assms(2) by (auto simp: ack_action_def split: action.splits udp_sender_line.splits)
  with assms(1) show ?thesis
    by (auto simp: list_all_iff)
qed

lemma awaiting_refl: "awaiting dl fd s w w"
  by (simp add: awaiting_def)

lemma awaiting_bound: "awaiting dl fd s u v \<Longrightarrow> ceil_ms (dl - clock v) \<le> ceil_ms (dl - clock u)"
  by (simp add: awaiting_def ceil_ms_mono diff_le_mono2)

lemma awaiting_then:
  assumes u: "awaiting dl fd s u v"
  shows "awaiting dl fd s v w \<Longrightarrow> awaiting dl fd s u w"
    and "acked dl fd s v w \<Longrightarrow> acked dl fd s u w"
    and "quiet_since dl v w \<Longrightarrow> quiet_since dl u w"
proof -
  note mono = ack_actions_mono [OF _ awaiting_bound [OF u]]
  from u obtain ds as where u':
    "locals v = locals u" "clock u \<le> clock v" "dgrx (socks u fd) = ds @ dgrx (socks v fd)"
    "list_all (stale_ack s (completed_sequences (locals u))) ds" "trace v = trace u @ as"
    "list_all (ack_action (ceil_ms (dl - clock u))) as"
    by (auto simp: awaiting_def)
  have actions: "\<exists>cs. trace w = trace u @ cs \<and> list_all (ack_action (ceil_ms (dl - clock u))) cs"
    if "\<exists>bs. trace w = trace v @ bs \<and> list_all (ack_action (ceil_ms (dl - clock v))) bs"
    using that u'(5,6) mono by auto
  {
    assume "awaiting dl fd s v w"
    with u' actions show "awaiting dl fd s u w"
      unfolding awaiting_def by auto
  next
    assume a: "acked dl fd s v w"
    then obtain ds' a bs where "dgrx (socks v fd) = ds' @ Datagram a bs # dgrx (socks w fd)"
      "take 1040 bs = frame (ack_packet s)" "list_all (stale_ack s (completed_sequences (locals v))) ds'"
      by (auto simp: acked_def)
    with u' have "dgrx (socks u fd) = (ds @ ds') @ Datagram a bs # dgrx (socks w fd)
        \<and> take 1040 bs = frame (ack_packet s) \<and> list_all (stale_ack s (completed_sequences (locals u))) (ds @ ds')"
      by simp
    with a u'(1) actions show "acked dl fd s u w"
      unfolding acked_def by metis
  next
    assume "quiet_since dl v w"
    with u' actions show "quiet_since dl u w"
      unfolding quiet_since_def by auto
  }
qed

definition ack_verdict :: "nat \<Rightarrow> fd \<Rightarrow> u32 \<Rightarrow> udp_sender_world \<Rightarrow> bool option result \<Rightarrow> udp_sender_world \<Rightarrow> bool" where
  "ack_verdict dl fd s w x w' \<longleftrightarrow> (case x of
     Ok None \<Rightarrow> awaiting dl fd s w w'
   | Ok (Some True) \<Rightarrow> acked dl fd s w w'
   | _ \<Rightarrow> quiet_since dl w w')"

lemma sys_poll_effect:
  assumes "sys_poll ps t w = (y, w')"
  shows "trace w' = trace w @ [Polled t] \<and> locals w' = locals w \<and> socks w' = socks w \<and> clock w' = clock w
    \<and> ticks w' = ticks w \<and> y \<noteq> Throw e"
  using assms by (auto simp: sys_poll_def Let_def split: list.splits poll_event.splits)

lemma quiet_sinceI:
  assumes "locals w' = locals w" "trace w' = trace w @ [Polled t]" "0 < t" "t \<le> int (ceil_ms (dl - clock w))"
  shows "quiet_since dl w w'"
  using assms by (auto simp: quiet_since_def)

lemma udp_sender_receive_eq:
  "udp_sender_receive_packet fd w = (case udp_receive_packet fd w of
     (Ok (a, p), w') \<Rightarrow> (Ok p, w') | (Throw e, w') \<Rightarrow> (Throw e, w') | (Blocked, w') \<Rightarrow> (Blocked, w'))"
  by (simp add: udp_sender_receive_packet_def bind_io_def ret_def split: prod.splits result.splits)

text \<open>Receiving and judging, after a \<open>poll\<close> that was bounded.\<close>

lemma receive_judge_verdict:
  assumes run: "bind_io (udp_sender_receive_packet fd) (judge_ack s dl) w1 = (x, w')"
    and w1: "locals w1 = locals w" "socks w1 = socks w" "clock w1 = clock w" "trace w1 = trace w @ [Polled t]"
    and t: "0 < t" "t \<le> int (ceil_ms (dl - clock w))"
  shows "ack_verdict dl fd s w x w'"
proof -
  obtain y w2 where recv: "udp_receive_packet fd w1 = (y, w2)"
    by fastforce
  then show ?thesis
  proof (cases rule: udp_receive_cases)
    case empty
    with recv run have "x = Blocked" "w' = w1"
      by (simp_all add: bind_io_def udp_sender_receive_eq)
    with w1 t quiet_sinceI [of w' w t dl] show ?thesis
      by (simp add: ack_verdict_def)
  next
    case (bad ev es m)
    with recv run have "x = Throw (RuntimeError m)" "w' = set_dgrx fd es w1"
      by (simp_all add: bind_io_def udp_sender_receive_eq)
    with w1 t quiet_sinceI [of w' w t dl] show ?thesis
      by (simp add: ack_verdict_def)
  next
    case (packet a bs es p)
    with recv run have judge: "judge_ack s dl p w2 = (x, w')"
      by (simp add: bind_io_def udp_sender_receive_eq)
    have w2: "locals w2 = locals w" "clock w2 = clock w" "trace w2 = trace w @ [Polled t]"
      "dgrx (socks w fd) = Datagram a bs # dgrx (socks w2 fd)"
      using packet w1 by simp_all
    note out = judge_ack_outcome [OF judge]
    consider (yes) "x = Ok (Some True)" | (skip) "x = Ok None" | (other) "x \<noteq> Ok (Some True)" "x \<noteq> Ok None"
      by blast
    then show ?thesis
    proof cases
      case yes
      with out w2 t packet have "clock w' < dl" "locals w' = completed_sequences_update (insert s) (locals w)"
        "trace w' = trace w @ [Polled t]" "dgrx (socks w fd) = [] @ Datagram a bs # dgrx (socks w' fd)"
        "take 1040 bs = frame (ack_packet s)"
        by simp_all
      with yes t show ?thesis
        unfolding ack_verdict_def acked_def by fastforce
    next
      case skip
      with out w2 packet obtain s' where "p = ack_packet s'" "s' \<noteq> s" "s' \<in> completed_sequences (locals w)"
        "locals w' = locals w" "trace w' = trace w @ [Polled t, Line (UdpIgnoredStaleAck s')]" "clock w \<le> clock w'"
        "dgrx (socks w fd) = [Datagram a bs] @ dgrx (socks w' fd)" "take 1040 bs = frame (ack_packet s')"
        by auto
      moreover from this have "stale_ack s (completed_sequences (locals w)) (Datagram a bs)"
        by (auto simp: stale_ack_def)
      ultimately show ?thesis
        using t skip unfolding ack_verdict_def awaiting_def by fastforce
    next
      case other
      with out w2 have "locals w' = locals w" "trace w' = trace w @ [Polled t]"
        by (auto split: result.splits option.splits bool.splits)
      with other t quiet_sinceI [of w' w t dl] show ?thesis
        by (auto simp: ack_verdict_def split: result.splits option.splits bool.splits)
    qed
  qed
qed

lemma ack_ready_verdict:
  assumes run: "ack_ready fd s dl t w = (x, w')" and t: "0 < t" "t \<le> int (ceil_ms (dl - clock w))"
  shows "ack_verdict dl fd s w x w'"
proof -
  obtain y w1 where poll: "sys_poll [fd] t w = (y, w1)"
    by fastforce
  note w1 = sys_poll_effect [OF poll]
  have quiet: "quiet_since dl w w1" "awaiting dl fd s w w1"
    using w1 t by (auto simp: quiet_since_def awaiting_def)
  show ?thesis
  proof (cases "\<exists>rs. y = Ok (Inr rs) \<and> poll_count rs \<noteq> 0 \<and> POLLERR \<notin> revents_at rs 0
      \<and> POLLNVAL \<notin> revents_at rs 0 \<and> POLLIN \<in> revents_at rs 0")
    case True
    with run poll have "bind_io (udp_sender_receive_packet fd) (judge_ack s dl) w1 = (x, w')"
      by (auto simp: ack_ready_def bind_io_Ok Let_def)
    from receive_judge_verdict [OF this _ _ _ _ t] w1 show ?thesis
      by simp
  next
    case False
    have "w' = w1 \<and> x \<noteq> Ok (Some True)"
    proof (cases y)
      case (Ok r)
      with run poll False show ?thesis
        by (cases r) (auto simp: ack_ready_def bind_io_Ok Let_def apply_io split: if_splits)
    qed (use run poll w1 in \<open>auto simp: ack_ready_def bind_io_def\<close>)
    with quiet show ?thesis
      by (auto simp: ack_verdict_def split: result.splits option.splits bool.splits)
  qed
qed

lemma ack_pass_verdict:
  assumes run: "ack_pass fd s dl w = (x, w')"
  shows "ack_verdict dl fd s w x w'"
proof (cases "ticks w")
  case Nil
  with run show ?thesis
    by (simp add: ack_pass_def bind_io_def sys_now_def ack_verdict_def quiet_since_def)
next
  case (Cons d ds)
  let ?w1 = "w\<lparr>clock := clock w + d, ticks := ds\<rparr>"
  have now: "sys_now w = (Ok (clock w + d), ?w1)"
    using Cons by (simp add: sys_now_def)
  have w1: "awaiting dl fd s w ?w1"
    by (simp add: awaiting_def)
  show ?thesis
  proof (cases "dl \<le> clock w + d")
    case True
    with run now show ?thesis
      by (auto simp: ack_pass_def bind_io_Ok apply_io ack_verdict_def quiet_since_def)
  next
    case False
    with run now have ready: "ack_ready fd s dl (int (ceil_ms (dl - (clock w + d)))) ?w1 = (x, w')"
      by (simp add: ack_pass_def bind_io_Ok)
    from ack_ready_verdict [OF ready] False ceil_ms_pos have "ack_verdict dl fd s ?w1 x w'"
      by simp
    with awaiting_then [OF w1, of w'] show ?thesis
      by (auto simp: ack_verdict_def split: result.splits option.splits bool.splits)
  qed
qed

definition ack_result :: "nat \<Rightarrow> fd \<Rightarrow> u32 \<Rightarrow> udp_sender_world \<Rightarrow> bool result \<Rightarrow> udp_sender_world \<Rightarrow> bool" where
  "ack_result dl fd s w x w' \<longleftrightarrow> (if x = Ok True then acked dl fd s w w' else quiet_since dl w w')"

lemma ack_loop_result: "ack_loop fd s dl w = (x, w') \<Longrightarrow> ack_result dl fd s w x w'"
proof (induction fd s dl w rule: ack_loop.induct)
  case (1 fd s dl w)
  obtain y w1 where pass: "ack_pass fd s dl w = (y, w1)"
    by fastforce
  note verdict = ack_pass_verdict [OF pass]
  note run = "1.prems" [unfolded ack_loop.simps [of fd s dl w] pass prod.case]
  show ?case
  proof (cases "y = Ok None")
    case True
    with run have "ack_loop fd s dl w1 = (x, w')"
      by simp
    with "1.IH" [OF pass [symmetric]] True have "ack_result dl fd s w1 x w'"
      by simp
    moreover have "awaiting dl fd s w w1"
      using verdict True by (simp add: ack_verdict_def)
    ultimately show ?thesis
      using awaiting_then [of dl fd s w w1 w'] by (auto simp: ack_result_def split: if_splits)
  next
    case False
    with run verdict show ?thesis
      by (auto simp: ack_verdict_def ack_result_def split: result.splits option.splits bool.splits)
  qed
qed

text \<open>The world in which the loop of a wait starts.\<close>

lemma wait_for_ack_result:
  assumes "wait_for_ack fd s w = (x, w')"
  obtains (blocked) "x = Blocked" "w' = w"
  | (ran) d ds where "ticks w = d # ds"
      "ack_result (clock w + d + 1000 * 1000000) fd s (w\<lparr>clock := clock w + d, ticks := ds\<rparr>) x w'"
proof (cases "ticks w")
  case Nil
  with assms have "x = Blocked" "w' = w"
    by (simp_all add: wait_for_ack_def bind_io_def sys_now_def)
  then show ?thesis
    by (rule blocked)
next
  case (Cons d ds)
  let ?w1 = "w\<lparr>clock := clock w + d, ticks := ds\<rparr>"
  have "ack_loop fd s (clock w + d + 1000 * 1000000) ?w1 = (x, w')"
    using assms Cons by (simp add: wait_for_ack_def bind_io_def sys_now_def udp_kAckTimeoutMs_def)
  from ran [OF Cons ack_loop_result [OF this]] show ?thesis .
qed

lemma wait_for_ack_silent: "within (\<lambda>w w'. \<exists>as. trace w' = trace w @ as \<and> list_all (ack_action 1000) as) (wait_for_ack fd s)"
proof (rule withinI)
  fix w
  obtain x w' where run: "wait_for_ack fd s w = (x, w')"
    by fastforce
  then show "\<exists>as. trace (snd (wait_for_ack fd s w)) = trace w @ as \<and> list_all (ack_action 1000) as"
  proof (cases rule: wait_for_ack_result)
    case (ran d ds)
    then show ?thesis
      using ceil_ms_whole [of 1000] run by (auto simp: ack_result_def acked_def quiet_since_def split: if_splits)
  qed (simp add: run)
qed

lemma completed_wait_for_ack:
  assumes "wait_for_ack fd s w = (x, w')"
  shows "completed_sequences (locals w') = (if x = Ok True then insert s (completed_sequences (locals w)) else completed_sequences (locals w))"
  using assms by (cases rule: wait_for_ack_result) (auto simp: ack_result_def acked_def quiet_since_def split: if_splits)

section \<open>What is sent\<close>

text \<open>A transmission of a packet is at most one datagram, with a prefix of its frame.\<close>

definition datagram_to :: "addr \<Rightarrow> packet \<Rightarrow> 'l action list \<Rightarrow> bool" where
  "datagram_to a p as \<longleftrightarrow> as = [] \<or> (\<exists>fd bs. as = [SentTo fd a bs] \<and> prefix bs (frame p))"

lemma emits_udp_send:
  assumes "small p"
  shows "emits (datagram_to a) {[p]} (udp_send_packet fd p a :: ('l, 'p, unit) io)"
  unfolding emits_def
proof
  fix w :: "('l, 'p) world"
  obtain x w' where run: "udp_send_packet fd p a w = (x, w')"
    by fastforce
  from run assms have "\<exists>as. trace w' = trace w @ as \<and> datagram_to a p as \<and> filter is_sent as = as"
  proof (cases rule: udp_send_cases)
    case (sent k ts)
    then show ?thesis
      by (intro exI [of _ "[SentTo fd a (frame p)]"]) (auto simp: datagram_to_def)
  next
    case (part k ts m)
    then show ?thesis
      by (intro exI [of _ "[SentTo fd a (take k (frame p))]"]) (auto simp: datagram_to_def take_is_prefix)
  qed (auto simp: datagram_to_def)
  then obtain as where "trace w' = trace w @ as" "datagram_to a p as" "filter is_sent as = as"
    by blast
  then have "transmits (datagram_to a) [p] w w'"
    unfolding transmits_def by (intro exI [of _ as] exI [of _ "[as]"]) simp
  with run show "\<exists>ps \<in> {[p]}. transmits (datagram_to a) ps w (snd (udp_send_packet fd p a w))"
    by simp
qed

lemma emits_udp_none:
  "emits T {[]} (ret x)" "emits T {[]} (throw e)" "emits T {[]} (cout l)" "emits T {[]} (sys_close fd)"
  "emits T {[]} sys_open" "emits T {[]} sys_call"
  by (intro emits_silent appends.within_ret appends.within_throw appends_cout appends_close appends_calls; simp)+

lemma emits_wait_for_ack: "emits T {[]} (wait_for_ack fd s)"
  unfolding emits_def
proof
  fix w
  obtain x w' where run: "wait_for_ack fd s w = (x, w')"
    by fastforce
  from withinD [OF wait_for_ack_silent run] obtain as where as: "trace w' = trace w @ as" "list_all (ack_action 1000) as"
    by blast
  have "\<not> is_sent a" if "ack_action 1000 a" for a
    using that by (auto simp: ack_action_def is_sent_def split: action.splits)
  with as(2) have "list_all (\<lambda>a. \<not> is_sent a) as"
    by (auto simp: list_all_iff)
  from transmits_none [OF as(1) this] run show "\<exists>ps \<in> {[]}. transmits T ps w (snd (wait_for_ack fd s w))"
    by simp
qed

lemma small_udp_data: "length m \<le> kMaxPayloadSize \<Longrightarrow> small (udp_data_packet s m)"
  by (simp add: small_def udp_data_packet_def)

lemma emits_udp_send_from:
  assumes "length m \<le> kMaxPayloadSize"
  shows "emits (datagram_to a) (upto_times (5 - attempt) (udp_data_packet s m)) (udp_send_from fd a s m attempt)"
  using assms
proof (induction fd a s m attempt rule: udp_send_from.induct)
  case (1 fd a s m attempt)
  let ?p = "udp_data_packet s m"
  show ?case
  proof (cases "attempt \<le> udp_kMaxRetries + 1")
    case True
    then have n: "5 - attempt = Suc (5 - (attempt + 1))"
      by (simp add: udp_kMaxRetries_def)
    have again: "emits (datagram_to a) (upto_times (5 - (attempt + 1)) ?p) (udp_send_from fd a s m (attempt + 1))"
      using "1.IH" [OF True, of False] "1.prems" by simp
    have "small ?p"
      using "1.prems" by (rule small_udp_data)
    then show ?thesis
      unfolding n
      by (subst udp_send_from.simps, subst if_P [OF True])
        (intro emits_once_then emits_udp_send emits_silent_first emits_wait_for_ack emits_udp_none emits_if again emits_zero; simp)
  next
    case False
    then show ?thesis
      by (subst udp_send_from.simps) (simp add: emits_zero emits_udp_none)
  qed
qed

section \<open>Success\<close>

text \<open>Datagrams are taken from the front of the queues.\<close>

definition dequeues :: "('l, 'p) world \<Rightarrow> ('l, 'p) world \<Rightarrow> bool" where
  "dequeues w w' \<longleftrightarrow> (\<forall>fd. suffix (dgrx (socks w' fd)) (dgrx (socks w fd)))"

interpretation dequeues: world_order dequeues
  by unfold_locales (auto simp: dequeues_def intro: suffix_order.trans)

lemma dequeues_calls:
  "within dequeues sys_now" "within dequeues (sys_poll ps t)" "within dequeues (sys_recvfrom fd n)"
  "within dequeues (sys_sendto fd bs a)" "within dequeues sys_call" "within dequeues (cout l)"
  "within dequeues (sys_close fd)" "within dequeues (upd_local f)"
  by (rule withinI, auto simp: dequeues_def sys_now_def sys_poll_def sys_recvfrom_def sys_sendto_def sys_call_def
      cout_def sys_close_def emit_def upd_local_def set_dgrx_def set_dgtx_def Let_def suffix_Cons
      split: list.splits poll_event.splits dg_event.splits tx_event.splits)+

lemma dequeues_udp_send: "within dequeues (udp_send_packet fd p a)"
proof -
  have "within dequeues (lift_codec r)" for r :: "codec_error + bytes"
    by (cases r) (simp_all add: dequeues.within_ret dequeues.within_throw)
  then show ?thesis
    unfolding udp_send_packet_def by (intro dequeues.within_rules dequeues_calls)
qed

lemma dequeues_udp_receive: "within dequeues (udp_receive_packet fd)"
proof (rule withinI)
  fix w :: "('l, 'p) world"
  obtain x w' where "udp_receive_packet fd w = (x, w')"
    by fastforce
  then show "dequeues w (snd (udp_receive_packet fd w))"
    by (cases rule: udp_receive_cases)
      (auto simp: dequeues_def set_dgrx_def suffix_Cons \<open>udp_receive_packet fd w = (x, w')\<close>)
qed

lemma dequeues_ack_pass: "within dequeues (ack_pass fd s dl)"
proof -
  have "within dequeues (case r of (a, p) \<Rightarrow> ret p)" for r :: "addr \<times> packet"
    by (cases r) (simp add: dequeues.within_ret)
  then show ?thesis
    unfolding ack_pass_def ack_ready_def judge_ack_def udp_sender_receive_packet_def Let_def
    by (intro dequeues.within_rules dequeues_calls dequeues_udp_receive)
qed

lemma ack_loop_within:
  assumes R: "world_order R" and pass: "within R (ack_pass fd s dl)"
  shows "within R (ack_loop fd s dl)"
proof (rule withinI)
  fix w
  show "R w (snd (ack_loop fd s dl w))"
    using pass
  proof (induction fd s dl w rule: ack_loop.induct)
    case (1 fd s dl w)
    obtain x w1 where step: "ack_pass fd s dl w = (x, w1)"
      by fastforce
    note le = withinD [OF "1.prems" step]
    have again: "R w1 (snd (ack_loop fd s dl w1))" if "x = Ok None"
      using that "1.prems" by (intro "1.IH" [OF step [symmetric] that]) simp_all
    show ?case
      using step le world_order.trans [OF R le again]
      by (subst ack_loop.simps) (simp split: result.splits option.splits)
  qed
qed

lemma dequeues_wait_for_ack: "within dequeues (wait_for_ack fd s)"
  unfolding wait_for_ack_def
  by (intro dequeues.within_rules dequeues_calls ack_loop_within [OF dequeues.world_order_axioms dequeues_ack_pass])

text \<open>An ACK for \<open>s\<close> waits in the queue of the socket.\<close>

definition ack_queued :: "dg_event list \<Rightarrow> u32 \<Rightarrow> bool" where
  "ack_queued ds s \<longleftrightarrow> (\<exists>a bs. Datagram a bs \<in> set ds \<and> take 1040 bs = frame (ack_packet s))"

lemma ack_queued_suffix: "suffix ds' ds \<Longrightarrow> ack_queued ds' s \<Longrightarrow> ack_queued ds s"
  using set_mono_suffix [of ds' ds] unfolding ack_queued_def by blast

lemma ack_queued_dequeues: "dequeues w w' \<Longrightarrow> ack_queued (dgrx (socks w' fd)) s \<Longrightarrow> ack_queued (dgrx (socks w fd)) s"
  by (auto simp: dequeues_def intro: ack_queued_suffix)

lemma wait_for_ack_queued:
  assumes "wait_for_ack fd s w = (Ok True, w')"
  shows "ack_queued (dgrx (socks w fd)) s"
  using assms
proof (cases rule: wait_for_ack_result)
  case (ran d ds)
  then obtain pre a bs post where "dgrx (socks w fd) = pre @ Datagram a bs # post" "take 1040 bs = frame (ack_packet s)"
    by (auto simp: ack_result_def acked_def)
  then have "Datagram a bs \<in> set (dgrx (socks w fd)) \<and> take 1040 bs = frame (ack_packet s)"
    by simp
  then show ?thesis
    unfolding ack_queued_def by blast
qed simp

lemma udp_send_from_success:
  "udp_send_from fd a s m attempt w = (Ok u, w') \<Longrightarrow>
     completed_sequences (locals w') = insert s (completed_sequences (locals w))
     \<and> ack_queued (dgrx (socks w fd)) s \<and> dequeues w w'"
proof (induction fd a s m attempt arbitrary: w rule: udp_send_from.induct)
  case (1 fd a s m attempt)
  show ?case
  proof (cases "attempt \<le> udp_kMaxRetries + 1")
    case True
    note run = "1.prems" [unfolded udp_send_from.simps [of fd a s m attempt] if_P [OF True]]
    from run obtain w1 acked w2 where sent: "udp_send_packet fd (udp_data_packet s m) a w = (Ok (), w1)"
      and wait: "wait_for_ack fd s (w1\<lparr>trace := trace w1 @ [Line (UdpSentData s attempt m)]\<rparr>) = (Ok acked, w2)"
      and rest: "(if acked then cout (UdpReceivedAck s)
        else bind_io (cout (UdpAckTimeout s)) (\<lambda>_. udp_send_from fd a s m (attempt + 1))) w2 = (Ok u, w')"
      by (auto simp: bind_io_eq_Ok cout_def emit_def)
    let ?w1 = "w1\<lparr>trace := trace w1 @ [Line (UdpSentData s attempt m)]\<rparr>"
    have d1: "dequeues w ?w1"
      using withinD [OF dequeues_udp_send sent] by (simp add: dequeues_def)
    have d2: "dequeues ?w1 w2"
      by (rule withinD [OF dequeues_wait_for_ack wait])
    have same: "locals w1 = locals w"
      using withinD [OF appends_udp_send [of "\<lambda>_. True"] sent] by (simp add: appends_def)
    show ?thesis
    proof (cases acked)
      case True
      with rest have "locals w' = locals w2" "dequeues w2 w'"
        by (auto simp: cout_def emit_def dequeues_def)
      moreover have "completed_sequences (locals w2) = insert s (completed_sequences (locals w))"
        using True completed_wait_for_ack [OF wait] same by simp
      moreover have "ack_queued (dgrx (socks w fd)) s"
        using True wait by (intro ack_queued_dequeues [OF d1] wait_for_ack_queued) simp
      moreover have "dequeues w w'"
        by (rule dequeues.trans [OF d1 dequeues.trans [OF d2 \<open>dequeues w2 w'\<close>]])
      ultimately show ?thesis
        by simp
    next
      case False
      let ?w2 = "w2\<lparr>trace := trace w2 @ [Line (UdpAckTimeout s)]\<rparr>"
      from False rest have "udp_send_from fd a s m (attempt + 1) ?w2 = (Ok u, w')"
        by (simp add: bind_cout)
      from "1.IH" [OF \<open>attempt \<le> udp_kMaxRetries + 1\<close> False this] have IH:
        "completed_sequences (locals w') = insert s (completed_sequences (locals w2))"
        "ack_queued (dgrx (socks w2 fd)) s" "dequeues w2 w'"
        by (auto simp: dequeues_def)
      moreover have "completed_sequences (locals w2) = completed_sequences (locals w)"
        using False completed_wait_for_ack [OF wait] same by simp
      moreover have "dequeues w w2"
        by (rule dequeues.trans [OF d1 d2])
      ultimately show ?thesis
        using ack_queued_dequeues dequeues.trans by metis
    qed
  next
    case False
    with "1.prems" show ?thesis
      by (simp add: udp_send_from.simps [of fd a s m attempt] throw_def)
  qed
qed

text \<open>The messages of the two modes, in the order they are sent.\<close>

definition udp_messages :: "bool \<Rightarrow> packet list" where
  "udp_messages out_of_order =
     (if out_of_order then
        [udp_data_packet 1 (message_text 49), udp_data_packet 3 (message_text 51), udp_data_packet 2 (message_text 50)]
      else [udp_data_packet 1 hello_udp])"

lemma send_data_success:
  "send_data_with_retry fd a s m w = (Ok u, w') \<Longrightarrow>
     completed_sequences (locals w') = insert s (completed_sequences (locals w))
     \<and> ack_queued (dgrx (socks w fd)) s \<and> dequeues w w'"
  unfolding send_data_with_retry_def by (rule udp_send_from_success)

lemma sequence_data [simp]: "sequence (udp_data_packet s m) = s" "payload (udp_data_packet s m) = m"
  "type_of (udp_data_packet s m) = Data"
  by (simp_all add: udp_data_packet_def)

lemma all_messages_success:
  assumes "udp_send_all_messages fd a ooo w = (Ok u, w')"
  shows "completed_sequences (locals w') = sequence ` set (udp_messages ooo) \<union> completed_sequences (locals w)
    \<and> (\<forall>p \<in> set (udp_messages ooo). ack_queued (dgrx (socks w fd)) (sequence p))"
proof (cases ooo)
  case True
  let ?w0 = "w\<lparr>trace := trace w @ [Line UdpSenderOutOfOrderMode]\<rparr>"
  from assms True obtain w1 w2 where
    s1: "send_data_with_retry fd a 1 (message_text 49) ?w0 = (Ok (), w1)" and
    s3: "send_data_with_retry fd a 3 (message_text 51) w1 = (Ok (), w2)" and
    s2: "send_data_with_retry fd a 2 (message_text 50) w2 = (Ok u, w')"
    by (auto simp: udp_send_all_messages_def bind_io_eq_Ok cout_def emit_def)
  note d = send_data_success [OF s1] send_data_success [OF s3] send_data_success [OF s2]
  have "dequeues w w1" "dequeues w w2"
    using d dequeues.trans [of ?w0 w1 w2] by (auto simp: dequeues_def)
  then have "ack_queued (dgrx (socks w fd)) 1" "ack_queued (dgrx (socks w fd)) 3" "ack_queued (dgrx (socks w fd)) 2"
    using d ack_queued_dequeues [of w w1 fd 3] ack_queued_dequeues [of w w2 fd 2] by simp_all
  with d True show ?thesis
    by (auto simp: udp_messages_def)
next
  case False
  with assms send_data_success [of fd a 1 hello_udp w u w'] show ?thesis
    by (simp add: udp_send_all_messages_def udp_messages_def)
qed

text \<open>The process returns 0 only after the messages of its mode have been acknowledged.\<close>

lemma udp_body_success:
  assumes "udp_sender_body args w = (Ok c, w')"
  obtains ooo fd sk rest where "c = 0" "udp_sender_mode args = Inr ooo" "fds w = Inr (fd, sk) # rest"
    "completed_sequences (locals w') = sequence ` set (udp_messages ooo)"
    "\<forall>p \<in> set (udp_messages ooo). ack_queued (dgrx sk) (sequence p)"
proof -
  from assms obtain ooo where mode: "udp_sender_mode args = Inr ooo"
    by (auto simp: udp_sender_body_def throw_def split: sum.splits)
  define rest where "rest = (\<lambda>fd. bind_io create_receiver_address (\<lambda>receiver_address.
              bind_io (upd_local (completed_sequences_update (\<lambda>_. {}))) (\<lambda>_.
              bind_io (udp_send_all_messages fd receiver_address ooo) (\<lambda>_.
              bind_io (sys_close fd) (\<lambda>_. ret (0::int))))))"
  have "bind_io sys_open (\<lambda>r. case r of Inl e \<Rightarrow> throw (RuntimeError (Sys ''socket failed: '' e)) | Inr fd \<Rightarrow> rest fd) w = (Ok c, w')"
    using assms unfolding udp_sender_body_def mode sum.case rest_def .
  then obtain r w1 where opened: "sys_open w = (Ok r, w1)"
    and after: "(case r of Inl e \<Rightarrow> throw (RuntimeError (Sys ''socket failed: '' e)) | Inr fd \<Rightarrow> rest fd) w1 = (Ok c, w')"
    by (auto simp: bind_io_eq_Ok)
  then obtain fd where opn: "sys_open w = (Ok (Inr fd), w1)" and body: "rest fd w1 = (Ok c, w')"
    by (cases r) (simp_all add: throw_def)
  from body obtain a w2 w3 where addr: "create_receiver_address w1 = (Ok a, w2)"
    and all: "udp_send_all_messages fd a ooo (w2\<lparr>locals := completed_sequences_update (\<lambda>_. {}) (locals w2)\<rparr>) = (Ok (), w3)"
    and fin: "c = 0" "locals w' = locals w3"
    by (auto simp: rest_def bind_io_eq_Ok upd_local_def sys_close_def emit_def ret_def)
  from opn obtain sk more_fds where sk: "fds w = Inr (fd, sk) # more_fds" "socks w1 fd = sk"
    by (auto simp: sys_open_def split: list.splits sum.splits)
  have "socks w2 = socks w1"
    using addr by (auto simp: create_receiver_address_def bind_io_def sys_call_def throw_def ret_def
        split: list.splits option.splits)
  with all_messages_success [OF all] sk fin mode show thesis
    by (intro that [of ooo fd sk more_fds]) auto
qed

section \<open>Exceptions\<close>

lemma standard_ack_pass: "raises standard (ack_pass fd s dl)"
proof -
  have "raises standard (case r of (a, p) \<Rightarrow> ret p)" for r :: "addr \<times> packet"
    by (cases r) (simp add: raises_ret)
  then show ?thesis
    unfolding ack_pass_def ack_ready_def judge_ack_def udp_sender_receive_packet_def Let_def
    by (intro raises_rules raises_udp_receive) simp_all
qed

lemma standard_wait_for_ack: "raises standard (wait_for_ack fd s)"
proof -
  have "ack_loop fd s dl w = (Throw e, w') \<Longrightarrow> standard e" for dl w e w'
  proof (induction fd s dl w rule: ack_loop.induct)
    case (1 fd s dl w)
    from "1.prems" [unfolded ack_loop.simps [of fd s dl w]] show ?case
      using "1.IH" raisesD [OF standard_ack_pass, of fd s dl w]
      by (auto split: prod.splits result.splits option.splits)
  qed
  then have "raises standard (ack_loop fd s dl)" for dl
    by (rule raisesI)
  then show ?thesis
    unfolding wait_for_ack_def by (intro raises_rules)
qed

lemma standard_udp_send_from: "raises standard (udp_send_from fd a s m attempt)"
proof (induction fd a s m attempt rule: udp_send_from.induct)
  case (1 fd a s m attempt)
  show ?case
  proof (cases "attempt \<le> udp_kMaxRetries + 1")
    case True
    have again: "raises standard (udp_send_from fd a s m (attempt + 1))"
      using "1.IH" [OF True, of False] by simp
    show ?thesis
      by (subst udp_send_from.simps, subst if_P [OF True])
        (intro raises_rules raises_udp_send standard_wait_for_ack again; simp)
  qed (subst udp_send_from.simps, simp add: raises_throw)
qed

lemma standard_udp_body: "raises standard (udp_sender_body args)"
proof (cases "udp_sender_mode args")
  case (Inr ooo)
  have "raises standard (udp_send_all_messages fd a ooo)" for fd a
    unfolding udp_send_all_messages_def send_data_with_retry_def
    by (intro raises_rules standard_udp_send_from)
  with Inr show ?thesis
    unfolding udp_sender_body_def create_receiver_address_def
    by (simp only: sum.case) (intro raises_rules; simp)
qed (simp add: udp_sender_body_def raises_throw)

text \<open>The handler of \<open>main\<close> turns every exception into one line and the result 1.\<close>

lemma udp_sender_main_cases:
  obtains (done_) w' where "udp_sender_body args w = (Ok 0, w')" "udp_sender_main args w = (Ok 0, w')"
  | (waiting) w' where "udp_sender_body args w = (Blocked, w')" "udp_sender_main args w = (Blocked, w')"
  | (failed) e m w' where "udp_sender_body args w = (Throw e, w')"
      "udp_sender_main args w = (Ok 1, w'\<lparr>trace := trace w' @ [Line (UdpSenderError m)]\<rparr>)"
proof -
  obtain x w' where run: "udp_sender_body args w = (x, w')"
    by fastforce
  show thesis
  proof (cases x)
    case (Ok c)
    with run have "c = 0"
      by (auto elim: udp_body_success)
    with Ok run show ?thesis
      by (intro done_ [of w']) (simp_all add: udp_sender_main_def catch_io_def)
  next
    case (Throw e)
    from raisesD [OF standard_udp_body, of args w e w'] run Throw obtain m where "std_what e = Some m"
      by (auto simp: standard_def)
    with Throw run show ?thesis
      by (intro failed [of e w' m]) (simp_all add: udp_sender_main_def catch_io_def io_simps)
  next
    case Blocked
    with run show ?thesis
      by (intro waiting [of w']) (simp_all add: udp_sender_main_def catch_io_def)
  qed
qed

section \<open>The transmissions of a run\<close>

definition message_runs :: "packet list \<Rightarrow> packet list set" where
  "message_runs ps = {concat (map2 replicate ns ps) |ns. length ns = length ps \<and> list_all (\<lambda>n. n \<le> 4) ns}"

lemma message_runs_one: "upto_times 4 p \<subseteq> message_runs [p]"
proof
  fix x
  assume "x \<in> upto_times 4 p"
  then obtain n where "x = replicate n p" "n \<le> 4"
    by (auto simp: upto_times_def)
  then show "x \<in> message_runs [p]"
    unfolding message_runs_def by (intro CollectI exI [of _ "[n]"]) simp
qed

lemma message_runs_Cons: "conc (upto_times 4 p) (message_runs ps) \<subseteq> message_runs (p # ps)"
proof
  fix x
  assume "x \<in> conc (upto_times 4 p) (message_runs ps)"
  then obtain n ns where "x = replicate n p @ concat (map2 replicate ns ps)" "n \<le> 4" "length ns = length ps"
    "list_all (\<lambda>n. n \<le> 4) ns"
    by (auto simp: conc_def upto_times_def message_runs_def)
  then show "x \<in> message_runs (p # ps)"
    unfolding message_runs_def by (intro CollectI exI [of _ "n # ns"]) simp
qed

lemma Nil_message_runs [simp]: "[] \<in> message_runs ps"
  unfolding message_runs_def by (intro CollectI exI [of _ "replicate (length ps) 0"]) (induction ps; simp)

lemma emits_message:
  assumes "length m \<le> kMaxPayloadSize"
  shows "emits (datagram_to a) (upto_times 4 (udp_data_packet s m)) (send_data_with_retry fd a s m)"
  using emits_udp_send_from [OF assms, of a 1 s fd] by (simp add: send_data_with_retry_def)

lemma emits_all_messages: "emits (datagram_to a) (message_runs (udp_messages ooo)) (udp_send_all_messages fd a ooo)"
proof -
  have short: "length (message_text d) \<le> kMaxPayloadSize" "length hello_udp \<le> kMaxPayloadSize" for d
    by (simp_all add: message_text_def hello_udp_def kMaxPayloadSize_def)
  note one = emits_mono [OF emits_message [OF short(1)] message_runs_one]
  note more = emits_mono [OF emits_bind [OF emits_message [OF short(1)] _ Nil_message_runs] message_runs_Cons]
  show ?thesis
  proof (cases ooo)
    case True
    then show ?thesis
      unfolding udp_send_all_messages_def udp_messages_def
      by (simp only: if_True) (intro emits_silent_first emits_udp_none more one Nil_message_runs)
  next
    case False
    then show ?thesis
      unfolding udp_send_all_messages_def udp_messages_def
      using emits_mono [OF emits_message [OF short(2)] message_runs_one] by simp
  qed
qed

section \<open>Retransmission\<close>

lemma udp_send_ok:
  assumes "dgtx (socks w fd) = TxAccept k # ts" "length (frame p) \<le> k" "small p"
  shows "udp_send_packet fd p a w = (Ok (), set_dgtx fd ts (w\<lparr>trace := trace w @ [SentTo fd a (frame p)]\<rparr>))"
  using assms by (simp add: udp_send_packet_def encode_small bind_ret bind_io_def sys_sendto_def ret_def)

text \<open>A wait in which \<open>poll\<close> times out, and one in which the ACK arrives in time.\<close>

lemma wait_for_ack_lost:
  assumes "ticks w = d0 # d1 # ts" "d1 < 1000000000" "polls w = PollReturn [{}] # es"
  shows "wait_for_ack fd s w = (Ok False, w\<lparr>clock := clock w + d0 + d1, ticks := ts, polls := es,
    trace := trace w @ [Polled (int (ceil_ms (1000000000 - d1)))]\<rparr>)"
proof -
  let ?w1 = "w\<lparr>clock := clock w + d0, ticks := d1 # ts\<rparr>"
  let ?dl = "clock w + d0 + 1000000000"
  have upt: "[0..<length [fd]] = [0]"
    by simp
  have "ack_pass fd s ?dl ?w1 = (Ok (Some False), w\<lparr>clock := clock w + d0 + d1, ticks := ts, polls := es,
    trace := trace w @ [Polled (int (ceil_ms (1000000000 - d1)))]\<rparr>)"
    using assms(2,3) by (simp add: ack_pass_def ack_ready_def bind_io_def sys_now_def sys_poll_def revents_at_def
        poll_count_def ret_def)
  then have "ack_loop fd s ?dl ?w1 = (Ok False, w\<lparr>clock := clock w + d0 + d1, ticks := ts, polls := es,
    trace := trace w @ [Polled (int (ceil_ms (1000000000 - d1)))]\<rparr>)"
    by (subst ack_loop.simps) simp
  with assms(1) show ?thesis
    by (simp add: wait_for_ack_def bind_io_def sys_now_def udp_kAckTimeoutMs_def)
qed

lemma wait_for_ack_received:
  assumes "ticks w = d0 # d1 # d2 # ts" "d1 + d2 < 1000000000" "polls w = PollReturn [{POLLIN}] # es"
    and "dgrx (socks w fd) = Datagram a bs # ds" "take 1040 bs = frame (ack_packet s)"
  shows "\<exists>w'. wait_for_ack fd s w = (Ok True, w') \<and> trace w' = trace w @ [Polled (int (ceil_ms (1000000000 - d1)))]
    \<and> completed_sequences (locals w') = insert s (completed_sequences (locals w))"
proof -
  let ?w1 = "w\<lparr>clock := clock w + d0, ticks := d1 # d2 # ts\<rparr>"
  let ?dl = "clock w + d0 + 1000000000"
  let ?w2 = "w\<lparr>clock := clock w + d0 + d1, ticks := d2 # ts,
    trace := trace w @ [Polled (int (ceil_ms (1000000000 - d1)))], polls := es\<rparr>"
  let ?w3 = "(set_dgrx fd ds ?w2)\<lparr>clock := clock w + d0 + d1 + d2, ticks := ts,
    locals := completed_sequences_update (insert s) (locals w)\<rparr>"
  have "udp_receive_packet fd ?w2 = (Ok (a, ack_packet s), set_dgrx fd ds ?w2)"
    by (rule udp_receive_frame [OF _ assms(5)]) (simp_all add: assms(4))
  then have recv: "udp_sender_receive_packet fd ?w2 = (Ok (ack_packet s), set_dgrx fd ds ?w2)"
    by (simp add: udp_sender_receive_eq)
  have judge: "judge_ack s ?dl (ack_packet s) (set_dgrx fd ds ?w2) = (Ok (Some True), ?w3)"
    using assms(2) by (simp add: judge_ack_def bind_io_def sys_now_def upd_local_def ret_def)
  have "ack_pass fd s ?dl ?w1 = bind_io (udp_sender_receive_packet fd) (judge_ack s ?dl) ?w2"
    using assms(2,3) by (simp add: ack_pass_def ack_ready_def bind_io_def [of sys_now] bind_io_def [of "sys_poll _ _"]
        sys_now_def sys_poll_def revents_at_def poll_count_def)
  also have "\<dots> = (Ok (Some True), ?w3)"
    using recv judge by (simp add: bind_io_Ok)
  finally have "ack_loop fd s ?dl ?w1 = (Ok True, ?w3)"
    by (subst ack_loop.simps) simp
  with assms(1) show ?thesis
    by (simp add: wait_for_ack_def bind_io_def sys_now_def udp_kAckTimeoutMs_def)
qed

text \<open>One attempt whose ACK does not come.\<close>

lemma lost_attempt:
  assumes "attempt \<le> 4" "small (udp_data_packet s m)"
    and "ticks w = d0 # d1 # ts" "d1 < 1000000000" "polls w = PollReturn [{}] # es"
    and "dgtx (socks w fd) = TxAccept 1040 # txs"
  shows "\<exists>w'. udp_send_from fd a s m attempt w = udp_send_from fd a s m (Suc attempt) w'
    \<and> (\<exists>as. trace w' = trace w @ as \<and> filter is_sent as = [SentTo fd a (frame (udp_data_packet s m))])
    \<and> ticks w' = ts \<and> polls w' = es \<and> dgtx (socks w' fd) = txs \<and> dgrx (socks w' fd) = dgrx (socks w fd)
    \<and> locals w' = locals w"
proof -
  let ?p = "udp_data_packet s m"
  let ?w1 = "set_dgtx fd txs (w\<lparr>trace := trace w @ [SentTo fd a (frame ?p)]\<rparr>)"
  let ?w2 = "?w1\<lparr>trace := trace ?w1 @ [Line (UdpSentData s attempt m)]\<rparr>"
  have send: "udp_send_packet fd ?p a w = (Ok (), ?w1)"
    using assms(2) by (intro udp_send_ok [OF assms(6)]) (simp_all add: length_frame small_def kMaxPayloadSize_def)
  note wait = wait_for_ack_lost [of ?w2 d0 d1 ts es fd s]
  let ?w3 = "?w2\<lparr>clock := clock w + d0 + d1, ticks := ts, polls := es,
    trace := trace ?w2 @ [Polled (int (ceil_ms (1000000000 - d1)))]\<rparr>"
  let ?w4 = "?w3\<lparr>trace := trace ?w3 @ [Line (UdpAckTimeout s)]\<rparr>"
  have waited: "wait_for_ack fd s ?w2 = (Ok False, ?w3)"
    using wait assms(3-5) by simp
  have "bind_io (wait_for_ack fd s) (\<lambda>acked. if acked then cout (UdpReceivedAck s)
       else bind_io (cout (UdpAckTimeout s)) (\<lambda>_. udp_send_from fd a s m (attempt + 1))) ?w2 =
     udp_send_from fd a s m (Suc attempt) ?w4"
    by (subst bind_io_Ok [where m = "wait_for_ack fd s" and w = ?w2, OF waited]) (simp add: bind_cout)
  then have "udp_send_from fd a s m attempt w = udp_send_from fd a s m (Suc attempt) ?w4"
    using send assms(1) by (subst udp_send_from.simps) (simp add: bind_io_Ok bind_cout udp_kMaxRetries_def)
  then show ?thesis
    by (intro exI [of _ ?w4]) (simp add: assms)
qed

lemma lost_attempts:
  assumes "attempt + length lost \<le> 5" "small (udp_data_packet s m)"
    and "ticks w = concat (map (\<lambda>(d0, d1). [d0, d1]) lost) @ ts" "list_all (\<lambda>(d0, d1). d1 < 1000000000) lost"
    and "polls w = replicate (length lost) (PollReturn [{}]) @ es"
    and "dgtx (socks w fd) = replicate (length lost) (TxAccept 1040) @ txs"
  shows "\<exists>w'. udp_send_from fd a s m attempt w = udp_send_from fd a s m (attempt + length lost) w'
    \<and> (\<exists>as. trace w' = trace w @ as \<and> filter is_sent as = replicate (length lost) (SentTo fd a (frame (udp_data_packet s m))))
    \<and> ticks w' = ts \<and> polls w' = es \<and> dgtx (socks w' fd) = txs \<and> dgrx (socks w' fd) = dgrx (socks w fd)
    \<and> locals w' = locals w"
  using assms
proof (induction lost arbitrary: attempt w)
  case Nil
  then show ?case
    by (intro exI [of _ w]) simp
next
  case (Cons l lost)
  obtain d0 d1 where l: "l = (d0, d1)"
    by (cases l)
  have "\<exists>w'. udp_send_from fd a s m attempt w = udp_send_from fd a s m (Suc attempt) w'
    \<and> (\<exists>as. trace w' = trace w @ as \<and> filter is_sent as = [SentTo fd a (frame (udp_data_packet s m))])
    \<and> ticks w' = concat (map (\<lambda>(d0, d1). [d0, d1]) lost) @ ts \<and> polls w' = replicate (length lost) (PollReturn [{}]) @ es
    \<and> dgtx (socks w' fd) = replicate (length lost) (TxAccept 1040) @ txs \<and> dgrx (socks w' fd) = dgrx (socks w fd)
    \<and> locals w' = locals w"
    by (rule lost_attempt [where ?d0.0 = d0 and ?d1.0 = d1]) (use Cons.prems l in auto)
  then obtain w1 as where w1: "udp_send_from fd a s m attempt w = udp_send_from fd a s m (Suc attempt) w1"
    "trace w1 = trace w @ as" "filter is_sent as = [SentTo fd a (frame (udp_data_packet s m))]"
    "ticks w1 = concat (map (\<lambda>(d0, d1). [d0, d1]) lost) @ ts" "polls w1 = replicate (length lost) (PollReturn [{}]) @ es"
    "dgtx (socks w1 fd) = replicate (length lost) (TxAccept 1040) @ txs" "dgrx (socks w1 fd) = dgrx (socks w fd)"
    "locals w1 = locals w"
    by blast
  from Cons.IH [of "Suc attempt" w1] w1 Cons.prems l obtain w2 bs where
    w2: "udp_send_from fd a s m (Suc attempt) w1 = udp_send_from fd a s m (Suc attempt + length lost) w2"
    "trace w2 = trace w1 @ bs" "filter is_sent bs = replicate (length lost) (SentTo fd a (frame (udp_data_packet s m)))"
    "ticks w2 = ts" "polls w2 = es" "dgtx (socks w2 fd) = txs" "dgrx (socks w2 fd) = dgrx (socks w1 fd)"
    "locals w2 = locals w1"
    by auto
  from w1 w2 show ?case
    by (intro exI [of _ w2] conjI exI [of _ "as @ bs"]) simp_all
qed

lemma emits_nothing: "emits T {[]} m \<Longrightarrow> [] \<in> L \<Longrightarrow> emits T L m"
  by (erule emits_mono) simp

lemma emits_case_sum:
  "(\<And>x. emits T A (f x)) \<Longrightarrow> (\<And>y. emits T A (g y)) \<Longrightarrow> emits T A (case r of Inl x \<Rightarrow> f x | Inr y \<Rightarrow> g y)"
  by (simp split: sum.splits)

lemma emits_then_nothing: "emits T L m \<Longrightarrow> (\<And>x. emits T {[]} (f x)) \<Longrightarrow> emits T L (bind_io m f)"
  using emits_bind [of T L m "{[]}" f] by simp

lemma emits_address:
  assumes "emits T L (f kReceiverAddress)" "[] \<in> L"
  shows "emits T L (bind_io create_receiver_address f)"
proof -
  have "emits T L (bind_io (case r of Some e \<Rightarrow> throw (RuntimeError (Msg ''invalid receiver IP address''))
     | None \<Rightarrow> ret kReceiverAddress) f)" for r :: "errno option"
  proof (cases r)
    case None
    have "bind_io (ret kReceiverAddress) f = f kReceiverAddress"
      by (rule ext) (simp add: bind_ret)
    with None assms show ?thesis
      by simp
  next
    case (Some e)
    have "bind_io (throw (RuntimeError (Msg ''invalid receiver IP address''))) f =
        throw (RuntimeError (Msg ''invalid receiver IP address''))"
      by (rule ext) (simp add: bind_throw apply_io)
    with Some assms(2) show ?thesis
      by (simp add: emits_nothing emits_udp_none)
  qed
  then show ?thesis
    unfolding create_receiver_address_def bind_assoc
    by (rule emits_silent_first [OF emits_udp_none(6) _ assms(2)])
qed

lemma emits_udp_sender_main:
  assumes Inr: "udp_sender_mode args = Inr ooo"
  shows "emits (datagram_to kReceiverAddress) (message_runs (udp_messages ooo)) (udp_sender_main args)"
proof -
  let ?L = "message_runs (udp_messages ooo)"
  define h :: "exn \<Rightarrow> int udp_sender_io option"
    where "h = (\<lambda>e. map_option (\<lambda>m. bind_io (cout (UdpSenderError m)) (\<lambda>_. ret 1)) (std_what e))"
  have handler: "emits (datagram_to kReceiverAddress) {[]} k" if "h e = Some k" for e k
    using that by (auto simp: h_def intro: emits_silent_first emits_udp_none)
  have "emits (datagram_to kReceiverAddress) {[]} (bind_io (sys_close fd) (\<lambda>_. ret (0::int)) :: int udp_sender_io)" for fd
    by (rule emits_silent_first [OF emits_udp_none(4) emits_udp_none(1)]) simp
  then have "emits (datagram_to kReceiverAddress) ?L (bind_io (upd_local (completed_sequences_update (\<lambda>_. {}))) (\<lambda>_.
      bind_io (udp_send_all_messages fd kReceiverAddress ooo) (\<lambda>_. bind_io (sys_close fd) (\<lambda>_. ret (0::int)))))" for fd
    by (intro emits_silent_first [OF emits_upd_local] emits_then_nothing [OF emits_all_messages] Nil_message_runs)
  then have "emits (datagram_to kReceiverAddress) ?L (udp_sender_body args)"
    unfolding udp_sender_body_def Inr sum.case
    by (intro emits_silent_first [OF emits_udp_none(5)] emits_case_sum emits_address emits_nothing [OF emits_udp_none(2)]
        Nil_message_runs)
  then have "emits (datagram_to kReceiverAddress) (conc ?L {[]}) (catch_io (udp_sender_body args) h)"
    by (rule emits_catch) (use handler in auto)
  then show ?thesis
    by (simp add: udp_sender_main_def h_def)
qed

section \<open>Properties\<close>

text \<open>
  C26: an ACK is accepted only for the message that waits for it. When \<open>wait_for_ack\<close> returns
  true, the last datagram taken from the socket is exactly the empty ACK of the expected
  sequence number, read before the absolute deadline; the datagrams before it were ACKs of
  other messages that had been completed; exactly the expected number is recorded, nothing
  was sent, and no \<open>poll\<close> waited longer than a second.
\<close>

theorem udp_ack_true_is_expected:
  assumes "wait_for_ack fd s w = (Ok True, w')"
  shows "\<exists>d ts pre a bs as. ticks w = d # ts \<and> clock w' < clock w + d + 1000000000
    \<and> dgrx (socks w fd) = pre @ Datagram a bs # dgrx (socks w' fd) \<and> take 1040 bs = frame (ack_packet s)
    \<and> list_all (stale_ack s (completed_sequences (locals w))) pre
    \<and> completed_sequences (locals w') = insert s (completed_sequences (locals w))
    \<and> trace w' = trace w @ as \<and> list_all (ack_action 1000) as"
  using assms
proof (cases rule: wait_for_ack_result)
  case (ran d ts)
  then show ?thesis
    using ceil_ms_whole [of 1000] by (fastforce simp: ack_result_def acked_def)
qed simp

definition udp_sender_example :: udp_sender_world where
  "udp_sender_example = (set_sock 4 (idle_sock\<lparr>
       dgrx := [Datagram (0, 0) (frame (ack_packet 3))],
       dgtx := [TxAccept 1040, TxAccept 1040, TxAccept 1040]\<rparr>)
     (idle_world \<lparr>completed_sequences = {1}\<rparr>))\<lparr>ticks := [5, 7, 0, 999999999, 1, 2, 3],
     polls := [PollReturn [{}], PollReturn [{}], PollReturn [{POLLIN}]]\<rparr>"

lemma udp_sender_example_simps [simp]:
  "dgrx (socks udp_sender_example 4) = [Datagram (0, 0) (frame (ack_packet 3))]"
  "dgtx (socks udp_sender_example 4) = [TxAccept 1040, TxAccept 1040, TxAccept 1040]"
  "ticks udp_sender_example = [5, 7, 0, 999999999, 1, 2, 3]" "trace udp_sender_example = []"
  "polls udp_sender_example = [PollReturn [{}], PollReturn [{}], PollReturn [{POLLIN}]]"
  "completed_sequences (locals udp_sender_example) = {1}" "clock udp_sender_example = 0"
  by (simp_all add: udp_sender_example_def set_sock_def)

definition udp_ack_example :: udp_sender_world where
  "udp_ack_example = udp_sender_example\<lparr>ticks := [5, 7, 9], polls := [PollReturn [{POLLIN}]]\<rparr>"

theorem udp_ack_true_is_expected_witness:
  "\<exists>w'. wait_for_ack 4 3 udp_ack_example = (Ok True, w') \<and> completed_sequences (locals w') = {1, 3}
    \<and> dgrx (socks w' 4) = []"
proof -
  from wait_for_ack_received [of udp_ack_example 5 7 9 "[]" "[]" 4 "(0, 0)" "frame (ack_packet 3)" "[]" 3]
  obtain w' where run: "wait_for_ack 4 3 udp_ack_example = (Ok True, w')"
    by (auto simp: udp_ack_example_def take_frame)
  from udp_ack_true_is_expected [OF run] run show ?thesis
    by (auto simp: udp_ack_example_def append_eq_Cons_conv Cons_eq_append_conv)
qed

text \<open>
  C28: what the sender sends. Whatever the network and the kernel do, a run with a known mode
  sends only datagrams to the receiver, each a prefix of the frame of a message of the mode:
  at most four times the first message, then at most four times each of the others, in the
  order of the mode.
\<close>

theorem udp_sender_transmissions:
  "case udp_sender_mode args of
     Inl m \<Rightarrow> udp_sender_main args w = (Ok 1, w\<lparr>trace := trace w @ [Line (UdpSenderError (Msg m))]\<rparr>)
   | Inr ooo \<Rightarrow> \<exists>ns as blocks. trace (snd (udp_sender_main args w)) = trace w @ as \<and> filter is_sent as = concat blocks
       \<and> length ns = length (udp_messages ooo) \<and> list_all (\<lambda>n. n \<le> 4) ns
       \<and> list_all2 (datagram_to kReceiverAddress) (concat (map2 replicate ns (udp_messages ooo))) blocks"
proof (cases "udp_sender_mode args")
  case (Inl m)
  then show ?thesis
    by (simp add: udp_sender_main_def udp_sender_body_def catch_io_def apply_io io_simps)
next
  case (Inr ooo)
  from emits_udp_sender_main [OF Inr] obtain ps where "ps \<in> message_runs (udp_messages ooo)"
    "transmits (datagram_to kReceiverAddress) ps w (snd (udp_sender_main args w))"
    unfolding emits_def by blast
  with Inr show ?thesis
    by (auto simp: transmits_def message_runs_def)
qed

text \<open>
  C31: the exit status. The process is still waiting, or it returns 1 having reported an
  error as its last output, or it returns 0; and then exactly the messages of its mode have
  been acknowledged, each by a datagram that the network delivered to its socket.
\<close>

theorem udp_sender_outcome:
  "case udp_sender_main args w of (x, w') \<Rightarrow>
     x = Blocked
     \<or> x = Ok 1 \<and> (\<exists>m. last (trace w') = Line (UdpSenderError m))
     \<or> x = Ok 0 \<and> (\<exists>ooo fd sk more_fds. udp_sender_mode args = Inr ooo \<and> fds w = Inr (fd, sk) # more_fds
          \<and> completed_sequences (locals w') = sequence ` set (udp_messages ooo)
          \<and> set (udp_messages ooo) \<subseteq> {p. ack_queued (dgrx sk) (sequence p)})"
  by (rule udp_sender_main_cases [of args w]) (auto elim!: udp_body_success)

text \<open>An attempt of which the ACK arrives within the second.\<close>

definition acknowledged_attempt :: "fd \<Rightarrow> addr \<Rightarrow> u32 \<Rightarrow> bytes \<Rightarrow> nat \<Rightarrow> nat \<Rightarrow> udp_sender_line action list" where
  "acknowledged_attempt fd a s m attempt e1 =
     [SentTo fd a (frame (udp_data_packet s m)), Line (UdpSentData s attempt m),
      Polled (int (ceil_ms (1000000000 - e1))), Line (UdpReceivedAck s)]"

lemma attempt_acknowledged:
  assumes "attempt \<le> 4" "length m \<le> kMaxPayloadSize" "dgtx (socks w fd) = TxAccept 1040 # txs"
    and "take 1040 bs = frame (ack_packet s)" "polls w = PollReturn [{POLLIN}] # es"
    and "ticks w = e0 # e1 # e2 # ts" "dgrx (socks w fd) = Datagram b bs # ds" "e1 + e2 < 1000000000"
  shows "\<exists>w'. udp_send_from fd a s m attempt w = (Ok (), w')
    \<and> trace w' = trace w @ acknowledged_attempt fd a s m attempt e1
    \<and> completed_sequences (locals w') = insert s (completed_sequences (locals w))"
proof -
  let ?p = "udp_data_packet s m"
  have small: "small ?p"
    using assms(2) by (rule small_udp_data)
  let ?w2 = "set_dgtx fd txs (w\<lparr>trace := trace w @ [SentTo fd a (frame ?p)]\<rparr>)"
  let ?w3 = "?w2\<lparr>trace := trace ?w2 @ [Line (UdpSentData s attempt m)]\<rparr>"
  have send: "udp_send_packet fd ?p a w = (Ok (), ?w2)"
    using small by (intro udp_send_ok [OF assms(3)]) (simp_all add: length_frame small_def kMaxPayloadSize_def)
  have "\<exists>w4. wait_for_ack fd s ?w3 = (Ok True, w4)
      \<and> trace w4 = trace ?w3 @ [Polled (int (ceil_ms (1000000000 - e1)))]
      \<and> completed_sequences (locals w4) = insert s (completed_sequences (locals ?w3))"
    by (rule wait_for_ack_received [OF _ assms(8) _ _ assms(4), where ds = ds]) (use assms in simp_all)
  then obtain w4 where w4: "wait_for_ack fd s ?w3 = (Ok True, w4)"
    "trace w4 = trace ?w3 @ [Polled (int (ceil_ms (1000000000 - e1)))]"
    "completed_sequences (locals w4) = insert s (completed_sequences (locals w))"
    by auto
  have "bind_io (wait_for_ack fd s) (\<lambda>acked. if acked then cout (UdpReceivedAck s)
        else bind_io (cout (UdpAckTimeout s)) (\<lambda>_. udp_send_from fd a s m (attempt + 1))) ?w3 =
      (Ok (), w4\<lparr>trace := trace w4 @ [Line (UdpReceivedAck s)]\<rparr>)"
    by (subst bind_io_Ok [where m = "wait_for_ack fd s" and w = ?w3, OF w4(1)]) (simp add: apply_io)
  with send have "udp_send_from fd a s m attempt w = (Ok (), w4\<lparr>trace := trace w4 @ [Line (UdpReceivedAck s)]\<rparr>)"
    using assms(1) by (subst udp_send_from.simps) (simp add: bind_io_Ok bind_cout udp_kMaxRetries_def)
  with w4 show ?thesis
    by (simp add: acknowledged_attempt_def)
qed

text \<open>
  C27: retransmission works. When up to three datagrams or their ACKs are lost, so that \<open>poll\<close>
  times out, and the next ACK arrives within its second, \<open>send_data_with_retry\<close> returns, it
  has sent the message once more than it lost, each time the whole frame, and the message is
  recorded as completed.
\<close>

theorem udp_survives_losses:
  assumes "length lost \<le> 3" "list_all (\<lambda>(d0, d1). d1 < 1000000000) lost" "e1 + e2 < 1000000000"
    and "ticks w = concat (map (\<lambda>(d0, d1). [d0, d1]) lost) @ [e0, e1, e2]"
    and "polls w = replicate (length lost) (PollReturn [{}]) @ [PollReturn [{POLLIN}]]"
    and "dgtx (socks w fd) = replicate (length lost + 1) (TxAccept 1040)"
    and "dgrx (socks w fd) = Datagram b bs # ds" "take 1040 bs = frame (ack_packet s)"
    and "length m \<le> kMaxPayloadSize"
  shows "\<exists>w' as. send_data_with_retry fd a s m w = (Ok (), w') \<and> trace w' = trace w @ as
    \<and> filter is_sent as = replicate (length lost + 1) (SentTo fd a (frame (udp_data_packet s m)))
    \<and> completed_sequences (locals w') = insert s (completed_sequences (locals w))"
proof -
  let ?p = "udp_data_packet s m"
  have small: "small ?p"
    using assms(9) by (rule small_udp_data)
  from lost_attempts [of 1 lost s m w "[e0, e1, e2]" "[PollReturn [{POLLIN}]]" fd "[TxAccept 1040]" a] assms small
  obtain w1 as where w1: "send_data_with_retry fd a s m w = udp_send_from fd a s m (1 + length lost) w1"
    "trace w1 = trace w @ as" "filter is_sent as = replicate (length lost) (SentTo fd a (frame ?p))"
    "ticks w1 = [e0, e1, e2]" "polls w1 = [PollReturn [{POLLIN}]]" "dgtx (socks w1 fd) = [TxAccept 1040]"
    "dgrx (socks w1 fd) = Datagram b bs # ds" "locals w1 = locals w"
    by (auto simp: send_data_with_retry_def replicate_append_same [symmetric])
  from attempt_acknowledged [where attempt = "1 + length lost" and m = m and a = a,
      OF _ _ w1(6) assms(8) w1(5) w1(4) w1(7) assms(3)] assms(1,9)
  obtain w' where "udp_send_from fd a s m (1 + length lost) w1 = (Ok (), w')"
    "trace w' = trace w1 @ acknowledged_attempt fd a s m (1 + length lost) e1"
    "completed_sequences (locals w') = insert s (completed_sequences (locals w1))"
    by auto
  with w1 show ?thesis
    by (intro exI [of _ w'] exI [of _ "as @ acknowledged_attempt fd a s m (1 + length lost) e1"])
      (simp add: acknowledged_attempt_def replicate_append_same)
qed

theorem udp_survives_losses_witness:
  "\<exists>w' as. send_data_with_retry 4 kReceiverAddress 3 [7] udp_sender_example = (Ok (), w') \<and> trace w' = as
    \<and> filter is_sent as = replicate 3 (SentTo 4 kReceiverAddress (frame (udp_data_packet 3 [7])))
    \<and> completed_sequences (locals w') = {1, 3}"
proof -
  let ?lost = "[(5, 7), (0, 999999999)] :: (nat \<times> nat) list"
  have "\<exists>w' as. send_data_with_retry 4 kReceiverAddress 3 [7] udp_sender_example = (Ok (), w')
    \<and> trace w' = trace udp_sender_example @ as
    \<and> filter is_sent as = replicate (length ?lost + 1) (SentTo 4 kReceiverAddress (frame (udp_data_packet 3 [7])))
    \<and> completed_sequences (locals w') = insert 3 (completed_sequences (locals udp_sender_example))"
  proof (rule udp_survives_losses)
    show "list_all (\<lambda>(d0, d1). d1 < 1000000000) ?lost"
      by simp
    show "ticks udp_sender_example = concat (map (\<lambda>(d0, d1). [d0, d1]) ?lost) @ [1, 2, 3]"
      by simp
    show "dgrx (socks udp_sender_example 4) = Datagram (0, 0) (frame (ack_packet 3)) # []"
      by simp
    show "take 1040 (frame (ack_packet 3)) = frame (ack_packet 3)"
      by (simp add: take_frame)
  qed (simp_all add: kMaxPayloadSize_def)
  moreover have "length ?lost + 1 = 3" "insert 3 {1} = {1, 3::u32}"
    by auto
  ultimately show ?thesis
    unfolding udp_sender_example_simps append_Nil by metis
qed

text \<open>
  C32: retransmission is bounded. When all four waits time out, the message has been sent
  exactly four times, \<open>send_data_with_retry\<close> raises the retry error, and nothing is recorded.
\<close>

theorem udp_gives_up:
  assumes "length lost = 4" "list_all (\<lambda>(d0, d1). d1 < 1000000000) lost"
    and "ticks w = concat (map (\<lambda>(d0, d1). [d0, d1]) lost) @ ts"
    and "polls w = replicate 4 (PollReturn [{}]) @ es"
    and "dgtx (socks w fd) = replicate 4 (TxAccept 1040) @ txs"
    and "length m \<le> kMaxPayloadSize"
  shows "\<exists>w' as. send_data_with_retry fd a s m w = (Throw (RuntimeError (Msg ''ACK retry limit exceeded'')), w')
    \<and> trace w' = trace w @ as \<and> filter is_sent as = replicate 4 (SentTo fd a (frame (udp_data_packet s m)))
    \<and> locals w' = locals w"
proof -
  from lost_attempts [of 1 lost s m w ts es fd txs a] assms small_udp_data [OF assms(6), of s]
  obtain w1 as where w1: "send_data_with_retry fd a s m w = udp_send_from fd a s m 5 w1"
    "trace w1 = trace w @ as" "filter is_sent as = replicate 4 (SentTo fd a (frame (udp_data_packet s m)))"
    "locals w1 = locals w"
    by (auto simp: send_data_with_retry_def)
  have "udp_send_from fd a s m 5 w1 = (Throw (RuntimeError (Msg ''ACK retry limit exceeded'')), w1)"
    by (subst udp_send_from.simps) (simp add: udp_kMaxRetries_def apply_io)
  with w1 show ?thesis
    by auto
qed

theorem udp_gives_up_witness:
  "\<exists>w' as. send_data_with_retry 4 kReceiverAddress 3 [7]
      (udp_sender_example\<lparr>ticks := [1, 2, 1, 2, 1, 2, 1, 2], polls := replicate 4 (PollReturn [{}]),
        socks := (\<lambda>_. idle_sock\<lparr>dgtx := replicate 4 (TxAccept 1040)\<rparr>)\<rparr>) =
      (Throw (RuntimeError (Msg ''ACK retry limit exceeded'')), w')
    \<and> trace w' = as \<and> filter is_sent as = replicate 4 (SentTo 4 kReceiverAddress (frame (udp_data_packet 3 [7])))"
proof -
  let ?w = "udp_sender_example\<lparr>ticks := [1, 2, 1, 2, 1, 2, 1, 2], polls := replicate 4 (PollReturn [{}]),
    socks := (\<lambda>_. idle_sock\<lparr>dgtx := replicate 4 (TxAccept 1040)\<rparr>)\<rparr>"
  have "\<exists>w' as. send_data_with_retry 4 kReceiverAddress 3 [7] ?w =
      (Throw (RuntimeError (Msg ''ACK retry limit exceeded'')), w')
    \<and> trace w' = trace ?w @ as \<and> filter is_sent as = replicate 4 (SentTo 4 kReceiverAddress (frame (udp_data_packet 3 [7])))
    \<and> locals w' = locals ?w"
  proof (rule udp_gives_up)
    show "length ([(1, 2), (1, 2), (1, 2), (1, 2)] :: (nat \<times> nat) list) = 4"
      by simp
    show "ticks ?w = concat (map (\<lambda>(d0, d1). [d0, d1]) [(1, 2), (1, 2), (1, 2), (1, 2)]) @ []"
      by simp
    show "polls ?w = replicate 4 (PollReturn [{}]) @ []" "dgtx (socks ?w 4) = replicate 4 (TxAccept 1040) @ []"
      by simp_all
  qed (simp_all add: kMaxPayloadSize_def)
  then show ?thesis
    by auto
qed

end
