(* ===== verification/UdpReceiver.thy ===== *)
theory UdpReceiver
  imports Datagrams Delivery "HOL-Library.While_Combinator"
begin

text \<open>
  The receiver of \<open>src/udp/receiver.cpp\<close>: it delivers each DATA sequence number once,
  acknowledges every DATA datagram, reports gaps, and ends after what its mode expects.
\<close>

section \<open>The code\<close>

definition udp_kPort :: nat where "udp_kPort = 6000"

datatype udp_receiver_line =
  UdpListeningOnPort nat
| UdpDropFirstAckMode
| UdpOutOfOrderMode
| UdpDuplicateData u32
| UdpOutOfOrderData u32 u32
| UdpReceivedData u32 bytes
| UdpAckDropped u32
| UdpSentAck u32
| UdpReceiverError what

text \<open>
  The variables of \<open>main\<close> that the loop changes. \<open>unique_received\<close> is an \<open>int\<close>: a 32-bit word
  read with \<open>sint\<close>. Its increment wraps in two's complement; C++ leaves the overflow at \<open>2 ^ 31\<close>
  distinct numbers undefined, and only the out-of-order mode, which ends at 3, reads it.
\<close>

record udp_receiver_state =
  udp_processed :: "u32 set"
  expected_sequence :: u32
  unique_received :: "32 word"
  ack_dropped :: bool

type_synonym udp_receiver_world = "(udp_receiver_line, udp_receiver_state) world"
type_synonym 'a udp_receiver_io = "(udp_receiver_line, udp_receiver_state, 'a) io"

definition create_socket :: "fd udp_receiver_io" where
  "create_socket =
     bind_io sys_open (\<lambda>r. case r of
       Inl e \<Rightarrow> throw (RuntimeError (Sys ''socket failed: '' e))
     | Inr fd \<Rightarrow>
         bind_io sys_call (\<lambda>r. case r of
           Some e \<Rightarrow> bind_io (sys_close fd) (\<lambda>_. throw (RuntimeError (Sys ''bind failed: '' e)))
         | None \<Rightarrow> ret fd))"

definition udp_receiver_receive_packet :: "fd \<Rightarrow> (addr \<times> packet) udp_receiver_io" where
  "udp_receiver_receive_packet fd = udp_receive_packet fd"

definition udp_receiver_send_packet :: "fd \<Rightarrow> packet \<Rightarrow> addr \<Rightarrow> unit udp_receiver_io" where
  "udp_receiver_send_packet fd p destination = udp_send_packet fd p destination"

text \<open>
  The inner loop on \<open>expected_sequence\<close>, which wraps at 32 bits. \<open>None\<close>: it does not end,
  because every sequence number has been processed; the program is then stuck like a
  program that waits for ever.
\<close>

definition next_expected :: "u32 set \<Rightarrow> u32 \<Rightarrow> u32 option" where
  "next_expected processed = while_option (\<lambda>e. e \<in> processed) (\<lambda>e. e + 1)"

definition advance_expected :: "unit udp_receiver_io" where
  "advance_expected w =
     (case next_expected (udp_processed (locals w)) (expected_sequence (locals w)) of
        None \<Rightarrow> (Blocked, w)
      | Some e \<Rightarrow> upd_local (expected_sequence_update (\<lambda>_. e)) w)"

text \<open>The branch for a sequence number that is new.\<close>

definition process_new :: "packet \<Rightarrow> unit udp_receiver_io" where
  "process_new p =
     bind_io (get_local expected_sequence) (\<lambda>expected.
     bind_io (if expected < sequence p then cout (UdpOutOfOrderData (sequence p) expected) else ret ()) (\<lambda>_.
     bind_io (cout (UdpReceivedData (sequence p) (payload p))) (\<lambda>_.
     bind_io (upd_local (udp_processed_update (insert (sequence p)))) (\<lambda>_.
     bind_io (upd_local (unique_received_update (\<lambda>n. n + 1))) (\<lambda>_.
     advance_expected)))))"

text \<open>One pass of the main loop after \<open>receive_packet\<close>; the result is \<open>break\<close>.\<close>

definition udp_handle :: "fd \<Rightarrow> bool \<Rightarrow> bool \<Rightarrow> addr \<Rightarrow> packet \<Rightarrow> bool udp_receiver_io" where
  "udp_handle fd drop_first_ack out_of_order sender_address p =
     (if type_of p \<noteq> Data then throw (RuntimeError (Msg ''expected DATA packet''))
      else
        bind_io (get_local (\<lambda>st. sequence p \<in> udp_processed st)) (\<lambda>duplicate.
        bind_io (if duplicate then cout (UdpDuplicateData (sequence p)) else process_new p) (\<lambda>_.
        bind_io (get_local ack_dropped) (\<lambda>dropped.
        if drop_first_ack \<and> \<not> dropped then
          bind_io (cout (UdpAckDropped (sequence p))) (\<lambda>_.
          bind_io (upd_local (ack_dropped_update (\<lambda>_. True))) (\<lambda>_.
          ret False))
        else
          bind_io (udp_receiver_send_packet fd (ack_packet (sequence p)) sender_address) (\<lambda>_.
          bind_io (cout (UdpSentAck (sequence p))) (\<lambda>_.
          bind_io (get_local unique_received) (\<lambda>unique.
          ret ((out_of_order \<and> 3 \<le> sint unique) \<or> (drop_first_ack \<and> duplicate)
            \<or> (\<not> drop_first_ack \<and> \<not> out_of_order)))))))))"

definition udp_receive_pass :: "fd \<Rightarrow> bool \<Rightarrow> bool \<Rightarrow> bool udp_receiver_io" where
  "udp_receive_pass fd drop_first_ack out_of_order =
     bind_io (udp_receiver_receive_packet fd) (\<lambda>(sender_address, p).
     udp_handle fd drop_first_ack out_of_order sender_address p)"

lemma session_advance: "within session_le advance_expected"
  unfolding advance_expected_def within_def
  using session_upd_local [of "expected_sequence_update (\<lambda>_. _)"]
  by (auto simp: within_def session.refl split: option.splits)

lemma session_udp_handle: "within session_le (udp_handle fd dr ooo a p)"
  unfolding udp_handle_def process_new_def udp_receiver_send_packet_def
  by (intro session.within_rules session_calls session_udp_send session_advance)

lemma udp_receive_pass_less:
  assumes "udp_receive_pass fd dr ooo w = (Ok r, w')"
  shows "length (dgrx (socks w' fd)) < length (dgrx (socks w fd))"
proof -
  from assms obtain a p w1 where recv: "udp_receive_packet fd w = (Ok (a, p), w1)"
    and rest: "udp_handle fd dr ooo a p w1 = (Ok r, w')"
    by (auto simp: udp_receive_pass_def udp_receiver_receive_packet_def bind_io_eq_Ok)
  from udp_receive_less [OF recv] withinD [OF session_udp_handle rest] show ?thesis
    by (auto simp: session_le_def sock_le_def intro: le_less_trans)
qed

function udp_receive_loop ::
  "fd \<Rightarrow> bool \<Rightarrow> bool \<Rightarrow> udp_receiver_world \<Rightarrow> unit result \<times> udp_receiver_world" where
  "udp_receive_loop fd drop_first_ack out_of_order w =
     (case udp_receive_pass fd drop_first_ack out_of_order w of
        (Ok False, w') \<Rightarrow> udp_receive_loop fd drop_first_ack out_of_order w'
      | (Ok True, w') \<Rightarrow> (Ok (), w')
      | (Throw e, w') \<Rightarrow> (Throw e, w')
      | (Blocked, w') \<Rightarrow> (Blocked, w'))"
  by pat_completeness auto
termination
  by (relation "measure (\<lambda>(fd, _, _, w). length (dgrx (socks w fd)))") (auto dest: udp_receive_pass_less [OF sym])

declare udp_receive_loop.simps [simp del]

text \<open>The arguments without the program name: \<open>drop_first_ack\<close> and \<open>out_of_order\<close>, or the error's text.\<close>

fun udp_receiver_mode :: "string list \<Rightarrow> string + bool \<times> bool" where
  "udp_receiver_mode [] = Inr (False, False)"
| "udp_receiver_mode (mode # _) =
     (if mode = ''drop-first-ack'' then Inr (True, False)
      else if mode = ''out-of-order'' then Inr (False, True)
      else Inl (''unknown mode: '' @ mode))"

definition initial_state :: udp_receiver_state where
  "initial_state = \<lparr>udp_processed = {}, expected_sequence = 1, unique_received = 0, ack_dropped = False\<rparr>"

definition udp_receiver_body :: "string list \<Rightarrow> int udp_receiver_io" where
  "udp_receiver_body args =
     (case udp_receiver_mode args of
        Inl m \<Rightarrow> throw (RuntimeError (Msg m))
      | Inr (drop_first_ack, out_of_order) \<Rightarrow>
          bind_io create_socket (\<lambda>fd.
          bind_io (cout (UdpListeningOnPort udp_kPort)) (\<lambda>_.
          bind_io (if drop_first_ack then cout UdpDropFirstAckMode else ret ()) (\<lambda>_.
          bind_io (if out_of_order then cout UdpOutOfOrderMode else ret ()) (\<lambda>_.
          bind_io (upd_local (\<lambda>_. initial_state)) (\<lambda>_.
          bind_io (udp_receive_loop fd drop_first_ack out_of_order) (\<lambda>_.
          bind_io (sys_close fd) (\<lambda>_. ret 0))))))))"

definition udp_receiver_main :: "string list \<Rightarrow> int udp_receiver_io" where
  "udp_receiver_main args =
     catch_io (udp_receiver_body args)
       (\<lambda>e. map_option (\<lambda>m. bind_io (cout (UdpReceiverError m)) (\<lambda>_. ret 1)) (std_what e))"

end
