(* ===== verification/UdpReceiverProgram.thy ===== *)
theory UdpReceiverProgram
  imports UdpReceiver
begin

text \<open>
  The UDP receiver's properties: the loop on the expected sequence number, the invariant of
  its variables, what any run delivers and acknowledges, and the refinement of an abstract
  machine for the three modes.
\<close>

section \<open>The expected sequence number\<close>

text \<open>All numbers from 1 up to \<open>e\<close>, exclusively and modulo the width, are in \<open>P\<close>.\<close>

definition contiguous :: "u32 set \<Rightarrow> u32 \<Rightarrow> bool" where
  "contiguous P e \<longleftrightarrow> (\<exists>k. e = 1 + of_nat k \<and> (\<forall>j < k. 1 + of_nat j \<in> P))"

lemma contiguous_init: "contiguous P 1"
  unfolding contiguous_def by (intro exI [of _ 0]) simp

lemma contiguous_mono: "contiguous P e \<Longrightarrow> P \<subseteq> Q \<Longrightarrow> contiguous Q e"
  unfolding contiguous_def by blast

lemma contiguous_step: "contiguous P e \<Longrightarrow> e \<in> P \<Longrightarrow> contiguous P (e + 1)"
proof -
  assume "contiguous P e" "e \<in> P"
  then obtain k where k: "e = 1 + of_nat k" "\<forall>j < k. 1 + of_nat j \<in> P"
    by (auto simp: contiguous_def)
  with \<open>e \<in> P\<close> have "\<forall>j < Suc k. 1 + of_nat j \<in> P"
    by (auto simp: less_Suc_eq)
  moreover have "e + 1 = 1 + of_nat (Suc k)"
    using k(1) by (simp add: algebra_simps)
  ultimately show ?thesis
    unfolding contiguous_def by blast
qed

lemma next_expected_Some:
  assumes "next_expected P e = Some e'" "contiguous P e"
  shows "contiguous P e' \<and> e' \<notin> P"
proof
  show "contiguous P e'"
    using assms(1) unfolding next_expected_def
    by (rule while_option_rule [where P = "contiguous P", rotated]) (use assms(2) contiguous_step in auto)
  show "e' \<notin> P"
    using while_option_stop [OF assms(1) [unfolded next_expected_def]] by simp
qed

text \<open>The loop ends unless all sequence numbers have been processed.\<close>

lemma next_expected_ends: "next_expected P e = None \<longleftrightarrow> P = UNIV"
proof
  assume none: "next_expected P e = None"
  show "P = UNIV"
  proof (rule ccontr)
    assume "P \<noteq> UNIV"
    then obtain x where x: "x \<notin> P"
      by blast
    have step: "unat (x - (s + 1)) < unat (x - s)" if "s \<in> P" for s
    proof -
      have "x - s \<noteq> 0"
        using that x by auto
      then have "unat (x - s - 1) < unat (x - s)"
        by (simp add: unat_minus_one unat_gt_0)
      then show ?thesis
        by (simp add: algebra_simps)
    qed
    have "\<exists>t. while_option (\<lambda>e. e \<in> P) (\<lambda>e. e + 1) e = Some t"
      by (rule measure_while_option_Some [where P = "\<lambda>_. True" and f = "\<lambda>e. unat (x - e)"]) (use step in auto)
    with none show False
      by (simp add: next_expected_def)
  qed
next
  assume P: "P = UNIV"
  show "next_expected P e = None"
  proof (cases "next_expected P e")
    case (Some t)
    from while_option_stop [OF Some [unfolded next_expected_def]] P show ?thesis
      by simp
  qed
qed

section \<open>The lines of a run\<close>

fun udp_delivered_by :: "udp_receiver_line action \<Rightarrow> (u32 \<times> bytes) list" where
  "udp_delivered_by (Line (UdpReceivedData s pl)) = [(s, pl)]"
| "udp_delivered_by a = []"

definition udp_delivered :: "udp_receiver_line action list \<Rightarrow> (u32 \<times> bytes) list" where
  "udp_delivered as = concat (map udp_delivered_by as)"

lemma udp_delivered_simps [simp]:
  "udp_delivered [] = []" "udp_delivered (a # as) = udp_delivered_by a @ udp_delivered as"
  "udp_delivered (as @ bs) = udp_delivered as @ udp_delivered bs"
  by (simp_all add: udp_delivered_def)

text \<open>
  The order of events: data is new when it is delivered; duplicate notices and everything
  sent are about sequence numbers delivered before, and only ACKs are sent.
\<close>

definition udp_event :: "u32 set \<Rightarrow> udp_receiver_line action \<Rightarrow> bool" where
  "udp_event seen a \<longleftrightarrow> (case a of
     Line (UdpReceivedData s pl) \<Rightarrow> s \<notin> seen
   | Line (UdpDuplicateData s) \<Rightarrow> s \<in> seen
   | Line (UdpSentAck s) \<Rightarrow> s \<in> seen
   | Line (UdpAckDropped s) \<Rightarrow> s \<in> seen
   | SentTo fd a bs \<Rightarrow> \<exists>s \<in> seen. prefix bs (frame (ack_packet s))
   | Sent fd bs \<Rightarrow> False
   | _ \<Rightarrow> True)"

fun udp_monitor :: "u32 set \<Rightarrow> udp_receiver_line action list \<Rightarrow> bool" where
  "udp_monitor seen [] = True"
| "udp_monitor seen (a # as) =
     (udp_event seen a \<and> udp_monitor (seen \<union> fst ` set (udp_delivered_by a)) as)"

lemma udp_event_simps [simp]:
  "udp_event seen (Line (UdpReceivedData s pl)) \<longleftrightarrow> s \<notin> seen" "udp_event seen (Line (UdpDuplicateData s)) \<longleftrightarrow> s \<in> seen"
  "udp_event seen (Line (UdpSentAck s)) \<longleftrightarrow> s \<in> seen" "udp_event seen (Line (UdpAckDropped s)) \<longleftrightarrow> s \<in> seen"
  "udp_event seen (SentTo fd a bs) \<longleftrightarrow> (\<exists>s \<in> seen. prefix bs (frame (ack_packet s)))"
  "udp_event seen (Line (UdpOutOfOrderData s e))" "udp_event seen (Closed fd)"
  "udp_event seen (Line (UdpListeningOnPort n))" "udp_event seen (Line UdpDropFirstAckMode)"
  "udp_event seen (Line UdpOutOfOrderMode)" "udp_event seen (Line (UdpReceiverError m))"
  by (simp_all add: udp_event_def)

interpretation udp_log: delivery_log udp_delivered_by udp_delivered udp_monitor
proof unfold_locales
  show "distinct (map fst (udp_delivered_by a)) \<and> fst ` set (udp_delivered_by a) \<inter> seen = {}"
    if "udp_monitor seen [a]" for seen a
    using that by (cases a rule: udp_delivered_by.cases) auto
qed simp_all

lemmas udp_monitor_append = udp_log.watch_append
lemmas udp_monitor_distinct = udp_log.watch_distinct

lemma udp_monitor_sent:
  "udp_monitor seen as \<Longrightarrow> SentTo fd a bs \<in> set as \<Longrightarrow>
     \<exists>s \<in> seen \<union> fst ` set (udp_delivered as). prefix bs (frame (ack_packet s))"
  by (induction as arbitrary: seen) fastforce+

section \<open>The invariant\<close>

text \<open>A datagram of the queue carries DATA with this sequence number and payload.\<close>

definition data_queued :: "dg_event list \<Rightarrow> u32 \<Rightarrow> bytes \<Rightarrow> bool" where
  "data_queued ds s pl \<longleftrightarrow> (\<exists>a bs. Datagram a bs \<in> set ds
     \<and> take 1040 bs = frame \<lparr>type_of = Data, sequence = s, payload = pl\<rparr> \<and> length pl \<le> kMaxPayloadSize)"

text \<open>
  What holds of the variables and the trace between two passes: the processed set is what
  was delivered, the counter counts it modulo \<open>2 ^ 32\<close>, and the expected number is the first gap.
\<close>

definition variables_ok :: "udp_receiver_line action list \<Rightarrow> udp_receiver_state \<Rightarrow> bool" where
  "variables_ok as st \<longleftrightarrow> udp_monitor {} as \<and> fst ` set (udp_delivered as) = udp_processed st
     \<and> unique_received st = of_nat (length (udp_delivered as))
     \<and> contiguous (udp_processed st) (expected_sequence st)
     \<and> (expected_sequence st \<in> udp_processed st \<longrightarrow> udp_processed st = UNIV)"

definition udp_inv ::
  "udp_receiver_line action list \<Rightarrow> dg_event list \<Rightarrow> fd \<Rightarrow> udp_receiver_world \<Rightarrow> bool" where
  "udp_inv pre ds fd w \<longleftrightarrow> suffix (dgrx (socks w fd)) ds
     \<and> (\<exists>as. trace w = pre @ as \<and> variables_ok as (locals w)
          \<and> (\<forall>(s, pl) \<in> set (udp_delivered as). data_queued ds s pl))"

lemma variables_ok_quiet:
  assumes "variables_ok as st" "list_all (\<lambda>a. udp_delivered_by a = [] \<and> udp_event (udp_processed st) a) bs"
  shows "variables_ok (as @ bs) st"
proof -
  have "udp_delivered bs = [] \<and> udp_monitor seen bs" if "list_all (\<lambda>a. udp_delivered_by a = [] \<and> udp_event seen a) bs" for seen
    using that by (induction bs) auto
  with assms show ?thesis
    by (auto simp: variables_ok_def udp_monitor_append)
qed

lemma advance_cases:
  obtains (stuck) "udp_processed (locals w) = UNIV" "advance_expected w = (Blocked, w)"
  | (next_gap) e where "next_expected (udp_processed (locals w)) (expected_sequence (locals w)) = Some e"
      "advance_expected w = (Ok (), w\<lparr>locals := expected_sequence_update (\<lambda>_. e) (locals w)\<rparr>)"
  using next_expected_ends [of "udp_processed (locals w)" "expected_sequence (locals w)"]
  by (cases "next_expected (udp_processed (locals w)) (expected_sequence (locals w))")
    (auto simp: advance_expected_def upd_local_def)

text \<open>Processing a new packet extends the trace by the gap report, if any, and the delivery.\<close>

definition gap_report :: "u32 \<Rightarrow> packet \<Rightarrow> udp_receiver_line action list" where
  "gap_report e p = (if e < sequence p then [Line (UdpOutOfOrderData (sequence p) e)] else [])"

definition processed_state :: "u32 \<Rightarrow> packet \<Rightarrow> udp_receiver_state \<Rightarrow> udp_receiver_state" where
  "processed_state e p st = st\<lparr>udp_processed := insert (sequence p) (udp_processed st),
     unique_received := unique_received st + 1, expected_sequence := e\<rparr>"

lemma processed_state_simps [simp]:
  "udp_processed (processed_state e p st) = insert (sequence p) (udp_processed st)"
  "unique_received (processed_state e p st) = unique_received st + 1"
  "expected_sequence (processed_state e p st) = e" "ack_dropped (processed_state e p st) = ack_dropped st"
  by (simp_all add: processed_state_def)

lemma process_new_result:
  assumes "process_new p w = (x, w')"
  shows "\<exists>e. w' = w\<lparr>trace := trace w @ gap_report (expected_sequence (locals w)) p @ [Line (UdpReceivedData (sequence p) (payload p))],
      locals := processed_state e p (locals w)\<rparr>
    \<and> (case x of Ok u \<Rightarrow> next_expected (insert (sequence p) (udp_processed (locals w))) (expected_sequence (locals w)) = Some e
       | Throw ex \<Rightarrow> False
       | Blocked \<Rightarrow> e = expected_sequence (locals w) \<and> insert (sequence p) (udp_processed (locals w)) = UNIV)"
proof -
  let ?st = "locals w"
  let ?w1 = "w\<lparr>trace := trace w @ gap_report (expected_sequence ?st) p @ [Line (UdpReceivedData (sequence p) (payload p))],
    locals := processed_state (expected_sequence ?st) p ?st\<rparr>"
  have st: "processed_state (expected_sequence ?st) p ?st =
      unique_received_update (\<lambda>n. n + 1) (udp_processed_update (insert (sequence p)) ?st)"
    by (cases ?st) (simp add: processed_state_def)
  have "process_new p w = advance_expected ?w1"
    unfolding st by (simp add: process_new_def gap_report_def bind_get_local bind_cout bind_upd_local bind_ret)
  with assms show ?thesis
    by (cases rule: advance_cases [of ?w1]) (auto simp: processed_state_def)
qed

lemma variables_ok_processed:
  assumes ok: "variables_ok as st" and new: "sequence p \<notin> udp_processed st"
    and e: "next_expected (insert (sequence p) (udp_processed st)) (expected_sequence st) = Some e
      \<or> e = expected_sequence st \<and> insert (sequence p) (udp_processed st) = UNIV"
  shows "variables_ok (as @ gap_report (expected_sequence st) p @ [Line (UdpReceivedData (sequence p) (payload p))])
    (processed_state e p st)"
proof -
  let ?P = "insert (sequence p) (udp_processed st)"
  have c: "contiguous ?P (expected_sequence st)"
    using ok by (auto simp: variables_ok_def intro: contiguous_mono)
  then have "contiguous ?P e \<and> (e \<in> ?P \<longrightarrow> ?P = UNIV)"
    using e next_expected_Some [OF _ c] by auto
  moreover have "udp_delivered (gap_report (expected_sequence st) p) = []"
    "udp_monitor seen (gap_report (expected_sequence st) p)" for seen
    by (simp_all add: gap_report_def)
  ultimately show ?thesis
    using ok new by (simp add: variables_ok_def udp_monitor_append)
qed

lemma Data_packet: "type_of p = Data \<Longrightarrow> p = \<lparr>type_of = Data, sequence = sequence p, payload = payload p\<rparr>"
  by (cases p) simp

text \<open>One pass keeps the invariant, however it ends.\<close>

lemma udp_handle_inv:
  assumes inv: "udp_inv pre ds fd w" and run: "udp_handle fd dr ooo a p w = (x, w')"
    and src: "type_of p \<noteq> Data \<or> data_queued ds (sequence p) (payload p)"
  shows "udp_inv pre ds fd w'"
proof (cases "type_of p = Data")
  case False
  with run inv show ?thesis
    by (simp add: udp_handle_def throw_def)
next
  case True
  from inv obtain as where as: "trace w = pre @ as" "variables_ok as (locals w)"
    "\<forall>(s, pl) \<in> set (udp_delivered as). data_queued ds s pl" and suf: "suffix (dgrx (socks w fd)) ds"
    by (auto simp: udp_inv_def)
  define dup where "dup \<longleftrightarrow> sequence p \<in> udp_processed (locals w)"
  define rest where "rest = (\<lambda>_::unit. bind_io (get_local ack_dropped) (\<lambda>dropped.
        if dr \<and> \<not> dropped then
          bind_io (cout (UdpAckDropped (sequence p))) (\<lambda>_.
          bind_io (upd_local (ack_dropped_update (\<lambda>_. True))) (\<lambda>_. ret False))
        else
          bind_io (udp_receiver_send_packet fd (ack_packet (sequence p)) a) (\<lambda>_.
          bind_io (cout (UdpSentAck (sequence p))) (\<lambda>_.
          bind_io (get_local unique_received) (\<lambda>unique.
          ret ((ooo \<and> 3 \<le> sint unique) \<or> (dr \<and> dup) \<or> (\<not> dr \<and> \<not> ooo)))))))"
  have whole: "bind_io (if dup then cout (UdpDuplicateData (sequence p)) else process_new p) rest w = (x, w')"
    using run unfolding udp_handle_def dup_def rest_def by (simp only: True bind_get_local simp_thms if_False)
  \<comment> \<open>the answer keeps the invariant once the number is processed\<close>
  have answer: "udp_inv pre ds fd (snd (rest () v))"
    if v: "udp_inv pre ds fd v" "sequence p \<in> udp_processed (locals v)" for v
  proof -
    from v obtain bs where bs: "trace v = pre @ bs" "variables_ok bs (locals v)"
      "\<forall>(s, pl) \<in> set (udp_delivered bs). data_queued ds s pl" and suf: "suffix (dgrx (socks v fd)) ds"
      by (auto simp: udp_inv_def)
    have more: "udp_inv pre ds fd v'"
      if "trace v' = trace v @ cs" "list_all (\<lambda>a. udp_delivered_by a = [] \<and> udp_event (udp_processed (locals v)) a) cs"
        "dgrx (socks v' fd) = dgrx (socks v fd)" "variables_ok (bs @ cs) (locals v) \<Longrightarrow> variables_ok (bs @ cs) (locals v')"
      for v' cs
    proof -
      have "udp_delivered cs = []"
        using that(2) by (induction cs) auto
      with bs suf that variables_ok_quiet [OF bs(2) that(2)] show ?thesis
        unfolding udp_inv_def by (intro conjI exI [of _ "bs @ cs"]) auto
    qed
    show ?thesis
    proof (cases "dr \<and> \<not> ack_dropped (locals v)")
      case True
      then have "snd (rest () v) = v\<lparr>trace := trace v @ [Line (UdpAckDropped (sequence p))],
          locals := ack_dropped_update (\<lambda>_. True) (locals v)\<rparr>"
        by (simp add: rest_def bind_get_local bind_cout bind_upd_local apply_io)
      then show ?thesis
        using v(2) by (intro more [where cs = "[Line (UdpAckDropped (sequence p))]"]) (simp_all add: variables_ok_def)
    next
      case False
      obtain y v1 where send: "udp_send_packet fd (ack_packet (sequence p)) a v = (y, v1)"
        by fastforce
      have small: "small (ack_packet (sequence p))"
        by (simp add: ack_packet_def)
      from send small obtain cs where v1: "trace v1 = trace v @ cs" "locals v1 = locals v"
        "dgrx (socks v1 fd) = dgrx (socks v fd)" and
        cs: "list_all (\<lambda>a. udp_delivered_by a = [] \<and> udp_event (udp_processed (locals v)) a) cs"
      proof (cases rule: udp_send_cases)
        case (sent k ts)
        then show ?thesis
          using v(2) by (intro that [of "[SentTo fd a (frame (ack_packet (sequence p)))]"]) auto
      next
        case (part k ts m)
        then show ?thesis
          using v(2) take_is_prefix
          by (intro that [of "[SentTo fd a (take k (frame (ack_packet (sequence p))))]"]) auto
      next
        case waiting
        then show ?thesis
          by (intro that [of "[]"]) simp_all
      next
        case (failed e ts m)
        then show ?thesis
          by (intro that [of "[]"]) simp_all
      qed
      show ?thesis
      proof (cases "y = Ok ()")
        case True
        then have "trace (snd (rest () v)) = trace v @ cs @ [Line (UdpSentAck (sequence p))]"
          "dgrx (socks (snd (rest () v)) fd) = dgrx (socks v fd)" "locals (snd (rest () v)) = locals v"
          using False send v1
          by (auto simp: rest_def bind_get_local udp_receiver_send_packet_def bind_io_Ok bind_cout apply_io)
        then show ?thesis
          using v(2) cs by (intro more [where cs = "cs @ [Line (UdpSentAck (sequence p))]"]) simp_all
      next
        case bad: False
        then have "snd (rest () v) = v1"
          using False send
          by (cases y) (auto simp: rest_def bind_get_local udp_receiver_send_packet_def bind_io_Throw bind_io_Blocked)
        with v1 cs show ?thesis
          by (intro more [where cs = cs]) simp_all
      qed
    qed
  qed
  show ?thesis
  proof (cases dup)
    case True
    let ?v = "w\<lparr>trace := trace w @ [Line (UdpDuplicateData (sequence p))]\<rparr>"
    have "udp_inv pre ds fd ?v"
      using as suf True variables_ok_quiet [OF as(2), of "[Line (UdpDuplicateData (sequence p))]"]
      unfolding udp_inv_def by (intro conjI exI [of _ "as @ [Line (UdpDuplicateData (sequence p))]"]) (auto simp: dup_def)
    moreover have "rest () ?v = (x, w')"
      using whole True by (simp add: bind_cout)
    ultimately show ?thesis
      using answer [of ?v] True by (simp add: dup_def)
  next
    case False
    obtain y v where new: "process_new p w = (y, v)"
      by fastforce
    from process_new_result [OF new] obtain e where
      v: "v = w\<lparr>trace := trace w @ gap_report (expected_sequence (locals w)) p @ [Line (UdpReceivedData (sequence p) (payload p))],
        locals := processed_state e p (locals w)\<rparr>" and
      y: "case y of Ok u \<Rightarrow> next_expected (insert (sequence p) (udp_processed (locals w))) (expected_sequence (locals w)) = Some e
       | Throw ex \<Rightarrow> False
       | Blocked \<Rightarrow> e = expected_sequence (locals w) \<and> insert (sequence p) (udp_processed (locals w)) = UNIV"
      by blast
    have "variables_ok (as @ gap_report (expected_sequence (locals w)) p @ [Line (UdpReceivedData (sequence p) (payload p))])
      (processed_state e p (locals w))"
      using as(2) False y by (intro variables_ok_processed) (auto simp: dup_def split: result.splits)
    moreover have "udp_delivered (gap_report e' p) = []" for e'
      by (simp add: gap_report_def)
    ultimately have inv_v: "udp_inv pre ds fd v"
      using as suf src \<open>type_of p = Data\<close> unfolding udp_inv_def v
      by (intro conjI exI [of _ "as @ gap_report (expected_sequence (locals w)) p @ [Line (UdpReceivedData (sequence p) (payload p))]"]) auto
    show ?thesis
    proof (cases y)
      case (Ok u)
      with whole False new have "rest () v = (x, w')"
        by (simp add: bind_io_Ok)
      with answer [OF inv_v] v show ?thesis
        by simp
    next
      case Blocked
      with whole False new inv_v show ?thesis
        by (simp add: bind_io_Blocked)
    qed (use y in simp)
  qed
qed

lemma udp_inv_receive:
  assumes inv: "udp_inv pre ds fd w" and recv: "udp_receive_packet fd w = (x, w1)"
  shows "udp_inv pre ds fd w1
    \<and> (case x of Ok (a, p) \<Rightarrow> type_of p \<noteq> Data \<or> data_queued ds (sequence p) (payload p) | _ \<Rightarrow> True)"
  using recv
proof (cases rule: udp_receive_cases)
  case empty
  with inv show ?thesis
    by simp
next
  case (bad ev es m)
  with inv show ?thesis
    by (auto simp: udp_inv_def suffix_ConsD)
next
  case (packet a bs es p)
  from inv packet(1) have suf: "suffix (Datagram a bs # es) ds"
    by (simp add: udp_inv_def)
  have "data_queued ds (sequence p) (payload p)" if "type_of p = Data"
  proof -
    have "Datagram a bs \<in> set ds"
      using set_mono_suffix [OF suf] by simp
    with packet(4,5) Data_packet [OF that] show ?thesis
      unfolding data_queued_def small_def by metis
  qed
  with inv packet suf show ?thesis
    by (auto simp: udp_inv_def suffix_ConsD)
qed

lemma udp_receive_pass_inv:
  assumes inv: "udp_inv pre ds fd w" and run: "udp_receive_pass fd dr ooo w = (x, w')"
  shows "udp_inv pre ds fd w'"
proof -
  obtain y w1 where recv: "udp_receive_packet fd w = (y, w1)"
    by fastforce
  note step = udp_inv_receive [OF inv recv]
  show ?thesis
  proof (cases y)
    case (Ok r)
    obtain a p where r: "r = (a, p)"
      by (cases r)
    with run recv Ok have handle: "udp_handle fd dr ooo a p w1 = (x, w')"
      by (simp add: udp_receive_pass_def udp_receiver_receive_packet_def bind_io_Ok)
    from step Ok r have "udp_inv pre ds fd w1" "type_of p \<noteq> Data \<or> data_queued ds (sequence p) (payload p)"
      by simp_all
    then show ?thesis
      by (rule udp_handle_inv [OF _ handle])
  qed (use run recv step in \<open>simp_all add: udp_receive_pass_def udp_receiver_receive_packet_def bind_io_def\<close>)
qed

lemma udp_receive_loop_inv:
  "udp_inv pre ds fd w \<Longrightarrow> udp_inv pre ds fd (snd (udp_receive_loop fd dr ooo w))"
proof (induction fd dr ooo w rule: udp_receive_loop.induct)
  case (1 fd dr ooo w)
  obtain x w1 where pass: "udp_receive_pass fd dr ooo w = (x, w1)"
    by fastforce
  note inv = udp_receive_pass_inv [OF "1.prems" pass]
  have again: "udp_inv pre ds fd (snd (udp_receive_loop fd dr ooo w1))" if "x = Ok False"
    using that inv by (intro "1.IH" [OF pass [symmetric] that]) simp_all
  show ?case
    using pass inv again by (subst udp_receive_loop.simps) (simp split: result.splits bool.splits)
qed

text \<open>The queue of the socket the process opens.\<close>

definition opened_queue :: "udp_receiver_world \<Rightarrow> dg_event list" where
  "opened_queue w = (case fds w of Inr (fd, sk) # _ \<Rightarrow> dgrx sk | _ \<Rightarrow> [])"

definition quiet_event :: "udp_receiver_line action \<Rightarrow> bool" where
  "quiet_event a \<longleftrightarrow> udp_delivered_by a = [] \<and> (\<forall>seen. udp_event seen a)"

lemma quiet_event_simps [simp]:
  "quiet_event (Closed fd)" "quiet_event (Line (UdpListeningOnPort n))" "quiet_event (Line UdpDropFirstAckMode)"
  "quiet_event (Line UdpOutOfOrderMode)" "quiet_event (Line (UdpReceiverError m))"
  by (simp_all add: quiet_event_def)

lemma variables_ok_lines: "variables_ok as st \<Longrightarrow> list_all quiet_event bs \<Longrightarrow> variables_ok (as @ bs) st"
  by (rule variables_ok_quiet) (auto simp: list_all_iff quiet_event_def)

lemma quiet_delivered: "list_all quiet_event bs \<Longrightarrow> udp_delivered bs = []"
  by (induction bs) (auto simp: quiet_event_def)

lemma variables_ok_initial: "variables_ok [] initial_state"
  by (simp add: variables_ok_def initial_state_def contiguous_init)

text \<open>What holds when the process is over, or stops in a call: \<open>started\<close> if it reached its loop.\<close>

definition run_ok :: "udp_receiver_world \<Rightarrow> udp_receiver_world \<Rightarrow> bool" where
  "run_ok w w' \<longleftrightarrow> (\<exists>as. trace w' = trace w @ as
     \<and> (variables_ok as (locals w') \<or> list_all quiet_event as \<and> locals w' = locals w)
     \<and> (\<forall>(s, pl) \<in> set (udp_delivered as). data_queued (opened_queue w) s pl))"

lemma run_ok_line: "run_ok w v \<Longrightarrow> quiet_event a \<Longrightarrow> run_ok w (v\<lparr>trace := trace v @ [a]\<rparr>)"
  unfolding run_ok_def using variables_ok_lines [of _ _ "[a]"] quiet_delivered [of "[a]"] by fastforce

lemma create_socket_quiet: "within (appends quiet_event) create_socket"
  unfolding create_socket_def by (intro appends.within_rules appends_calls appends_close) simp_all

lemma create_socket_queue:
  "create_socket w = (Ok fd, w') \<Longrightarrow> dgrx (socks w' fd) = opened_queue w"
proof -
  assume run: "create_socket w = (Ok fd, w')"
  then obtain r w1 where opn: "sys_open w = (Ok r, w1)" and rest: "(case r of
       Inl e \<Rightarrow> throw (RuntimeError (Sys ''socket failed: '' e))
     | Inr fd \<Rightarrow> bind_io sys_call (\<lambda>r. case r of
           Some e \<Rightarrow> bind_io (sys_close fd) (\<lambda>_. throw (RuntimeError (Sys ''bind failed: '' e)))
         | None \<Rightarrow> ret fd)) w1 = (Ok fd, w')"
    unfolding create_socket_def bind_io_eq_Ok by blast
  then obtain fd0 where r: "r = Inr fd0"
    by (cases r) (simp_all add: throw_def)
  with rest have "fd0 = fd" "socks w' = socks w1"
    by (auto simp: bind_io_def sys_call_def sys_close_def emit_def throw_def ret_def split: list.splits option.splits)
  with opn r show ?thesis
    by (auto simp: sys_open_def opened_queue_def split: list.splits sum.splits)
qed

lemma udp_body_run_ok: "run_ok w (snd (udp_receiver_body args w))"
proof (cases "udp_receiver_mode args")
  case (Inl m)
  then show ?thesis
    by (simp add: udp_receiver_body_def throw_def run_ok_def)
next
  case (Inr mode)
  obtain dr ooo where mode: "mode = (dr, ooo)"
    by (cases mode)
  obtain x w1 where create: "create_socket w = (x, w1)"
    by fastforce
  from withinD [OF create_socket_quiet create] obtain as where as: "trace w1 = trace w @ as" "list_all quiet_event as"
    "locals w1 = locals w"
    by (auto simp: appends_def)
  show ?thesis
  proof (cases x)
    case (Ok fd)
    let ?lines = "as @ [Line (UdpListeningOnPort udp_kPort)] @ (if dr then [Line UdpDropFirstAckMode] else [])
      @ (if ooo then [Line UdpOutOfOrderMode] else [])"
    let ?w2 = "w1\<lparr>trace := trace w @ ?lines, locals := initial_state\<rparr>"
    have body: "udp_receiver_body args w = bind_io (udp_receive_loop fd dr ooo)
        (\<lambda>_. bind_io (sys_close fd) (\<lambda>_. ret 0)) ?w2"
      using create Ok as(1) by (simp add: udp_receiver_body_def Inr mode bind_io_Ok bind_cout bind_ret bind_upd_local)
    have "list_all quiet_event ?lines"
      using as(2) by simp
    then have "udp_inv (trace w) (opened_queue w) fd ?w2"
      using variables_ok_lines [OF variables_ok_initial, of ?lines] create_socket_queue [OF create [unfolded Ok]] quiet_delivered
      unfolding udp_inv_def by (intro conjI exI [of _ ?lines]) auto
    from udp_receive_loop_inv [OF this] have loop: "run_ok w (snd (udp_receive_loop fd dr ooo ?w2))"
      unfolding udp_inv_def run_ok_def by blast
    obtain y v where run: "udp_receive_loop fd dr ooo ?w2 = (y, v)"
      by fastforce
    show ?thesis
    proof (cases y)
      case (Ok u)
      with run body have "snd (udp_receiver_body args w) = v\<lparr>trace := trace v @ [Closed fd]\<rparr>"
        by (simp add: bind_io_Ok bind_close apply_io)
      with loop run show ?thesis
        by (simp add: run_ok_line)
    qed (use loop run body in \<open>simp_all add: bind_io_Throw bind_io_Blocked\<close>)
  qed (use create as in \<open>auto simp: udp_receiver_body_def Inr mode bind_io_Throw bind_io_Blocked run_ok_def quiet_delivered\<close>)
qed

lemma udp_main_run_ok: "run_ok w (snd (udp_receiver_main args w))"
proof -
  obtain x v where run: "udp_receiver_body args w = (x, v)"
    by fastforce
  with udp_body_run_ok [of w args] have "run_ok w v"
    by simp
  moreover have "snd (udp_receiver_main args w) = v \<or> (\<exists>m. snd (udp_receiver_main args w) = v\<lparr>trace := trace v @ [Line (UdpReceiverError m)]\<rparr>)"
    using run by (cases x) (auto simp: udp_receiver_main_def catch_io_def io_simps split: option.splits)
  ultimately show ?thesis
    using run_ok_line by auto
qed

section \<open>The abstract machine\<close>

datatype udp_output = Hand u32 bytes | Answer addr bytes

text \<open>
  What the receiver has to do with a list of DATA packets and the addresses they come from,
  and whether its mode has ended after them: the first answer is dropped in one mode, the
  loop ends on the third distinct number, on a duplicate, or at once.
\<close>

definition mode_ends :: "bool \<Rightarrow> bool \<Rightarrow> u32 set \<Rightarrow> u32 \<Rightarrow> bool" where
  "mode_ends dr ooo seen s \<longleftrightarrow> (ooo \<and> 3 \<le> card (insert s seen)) \<or> (dr \<and> s \<in> seen) \<or> (\<not> dr \<and> \<not> ooo)"

definition hand_new :: "u32 set \<Rightarrow> packet \<Rightarrow> udp_output list" where
  "hand_new seen p = (if sequence p \<in> seen then [] else [Hand (sequence p) (payload p)])"

fun udp_spec :: "bool \<Rightarrow> bool \<Rightarrow> bool \<Rightarrow> u32 set \<Rightarrow> (addr \<times> packet) list \<Rightarrow> udp_output list \<times> bool" where
  "udp_spec dr ooo dropped seen [] = ([], False)"
| "udp_spec dr ooo dropped seen ((a, p) # ps) =
     (if dr \<and> \<not> dropped then
        (case udp_spec dr ooo True (insert (sequence p) seen) ps of (os, ended) \<Rightarrow> (hand_new seen p @ os, ended))
      else if mode_ends dr ooo seen (sequence p) then
        (hand_new seen p @ [Answer a (frame (ack_packet (sequence p)))], True)
      else
        (case udp_spec dr ooo dropped (insert (sequence p) seen) ps of (os, ended) \<Rightarrow>
           (hand_new seen p @ Answer a (frame (ack_packet (sequence p))) # os, ended)))"

fun output_of :: "udp_receiver_line action \<Rightarrow> udp_output list" where
  "output_of (Line (UdpReceivedData s pl)) = [Hand s pl]"
| "output_of (SentTo fd a bs) = [Answer a bs]"
| "output_of a = []"

definition udp_outputs :: "udp_receiver_line action list \<Rightarrow> udp_output list" where
  "udp_outputs as = concat (map output_of as)"

lemma udp_outputs_simps [simp]:
  "udp_outputs [] = []" "udp_outputs (a # as) = output_of a @ udp_outputs as"
  "udp_outputs (as @ bs) = udp_outputs as @ udp_outputs bs"
  by (simp_all add: udp_outputs_def)

lemma answered: "Answer a bs \<in> set (udp_outputs as) \<longleftrightarrow> (\<exists>fd. SentTo fd a bs \<in> set as)"
proof -
  have "Answer a bs \<in> set (output_of x) \<longleftrightarrow> (\<exists>fd. x = SentTo fd a bs)" for x
    by (cases x rule: output_of.cases) auto
  then show ?thesis
    by (auto simp: udp_outputs_def)
qed

lemma outputs_gap [simp]: "udp_outputs (gap_report e p) = []"
  by (simp add: gap_report_def)

text \<open>A socket whose buffer takes every answer in one piece.\<close>

definition answering :: "fd \<Rightarrow> nat \<Rightarrow> udp_receiver_world \<Rightarrow> bool" where
  "answering fd n w \<longleftrightarrow> n \<le> length (dgtx (socks w fd)) \<and> list_all (\<lambda>e. \<exists>k \<ge> 16. e = TxAccept k) (dgtx (socks w fd))"

lemma sint_counter: "n < 2 ^ 31 \<Longrightarrow> sint (of_nat n :: 32 word) = int n"
  by (simp add: signed_of_nat signed_take_bit_int_eq_self)

definition counts :: "udp_receiver_world \<Rightarrow> bool" where
  "counts w \<longleftrightarrow> unique_received (locals w) = of_nat (card (udp_processed (locals w)))"

text \<open>What a pass does to the variables.\<close>

definition passed :: "packet \<Rightarrow> bool \<Rightarrow> udp_receiver_state \<Rightarrow> udp_receiver_state \<Rightarrow> bool" where
  "passed p dropped st st' \<longleftrightarrow> udp_processed st' = insert (sequence p) (udp_processed st)
     \<and> unique_received st' = of_nat (card (udp_processed st')) \<and> ack_dropped st' = dropped"

lemma note_packet:
  assumes count: "counts w" and room: "insert (sequence p) (udp_processed (locals w)) \<noteq> UNIV"
  shows "\<exists>w1 as. (if sequence p \<in> udp_processed (locals w) then cout (UdpDuplicateData (sequence p)) else process_new p) w = (Ok (), w1)
    \<and> trace w1 = trace w @ as \<and> udp_outputs as = hand_new (udp_processed (locals w)) p
    \<and> socks w1 = socks w \<and> passed p (ack_dropped (locals w)) (locals w) (locals w1)"
proof (cases "sequence p \<in> udp_processed (locals w)")
  case True
  with count show ?thesis
    by (intro exI [of _ "w\<lparr>trace := trace w @ [Line (UdpDuplicateData (sequence p))]\<rparr>"]
        exI [of _ "[Line (UdpDuplicateData (sequence p))]"])
      (simp add: apply_io hand_new_def passed_def counts_def insert_absorb)
next
  case False
  obtain x w1 where new: "process_new p w = (x, w1)"
    by fastforce
  from process_new_result [OF new] obtain e where
    w1: "w1 = w\<lparr>trace := trace w @ gap_report (expected_sequence (locals w)) p @ [Line (UdpReceivedData (sequence p) (payload p))],
      locals := processed_state e p (locals w)\<rparr>" and res: "case x of
        Ok u \<Rightarrow> next_expected (insert (sequence p) (udp_processed (locals w))) (expected_sequence (locals w)) = Some e
      | Throw ex \<Rightarrow> False
      | Blocked \<Rightarrow> e = expected_sequence (locals w) \<and> insert (sequence p) (udp_processed (locals w)) = UNIV"
    by blast
  have x: "x = Ok ()"
    using res room by (cases x) simp_all
  have "passed p (ack_dropped (locals w)) (locals w) (locals w1)"
    using w1 count False by (simp add: passed_def counts_def)
  with new w1 x False show ?thesis
    by (intro exI [of _ w1] exI [of _ "gap_report (expected_sequence (locals w)) p @ [Line (UdpReceivedData (sequence p) (payload p))]"])
      (simp add: hand_new_def)
qed

lemma udp_pass_refines:
  assumes queue: "dgrx (socks w fd) = Datagram a bs # ds" "take 1040 bs = frame p" "small p" "type_of p = Data"
    and count: "counts w" and room: "insert (sequence p) (udp_processed (locals w)) \<noteq> UNIV"
    and few: "ooo \<Longrightarrow> card (udp_processed (locals w)) < 3"
    and ans: "answering fd (Suc n) w"
  shows "\<exists>w' as. trace w' = trace w @ as \<and> dgrx (socks w' fd) = ds \<and> answering fd n w'
    \<and> (if dr \<and> \<not> ack_dropped (locals w) then
         udp_receive_pass fd dr ooo w = (Ok False, w') \<and> udp_outputs as = hand_new (udp_processed (locals w)) p
         \<and> passed p True (locals w) (locals w')
       else udp_receive_pass fd dr ooo w = (Ok (mode_ends dr ooo (udp_processed (locals w)) (sequence p)), w')
         \<and> udp_outputs as = hand_new (udp_processed (locals w)) p @ [Answer a (frame (ack_packet (sequence p)))]
         \<and> passed p (ack_dropped (locals w)) (locals w) (locals w'))"
proof -
  let ?seen = "udp_processed (locals w)"
  let ?s = "sequence p"
  let ?w1 = "set_dgrx fd ds w"
  have recv: "udp_receive_packet fd w = (Ok (a, p), ?w1)"
    by (rule udp_receive_frame [OF queue(1-3)])
  from note_packet [of ?w1 p] count room obtain w2 as where
    note2: "(if ?s \<in> ?seen then cout (UdpDuplicateData ?s) else process_new p) ?w1 = (Ok (), w2)"
    and w2: "trace w2 = trace w @ as" "udp_outputs as = hand_new ?seen p" "socks w2 = socks ?w1"
      "passed p (ack_dropped (locals w)) (locals w) (locals w2)"
    by (auto simp: counts_def)
  from ans obtain k ts where ts: "dgtx (socks w fd) = TxAccept k # ts" "16 \<le> k"
    by (cases "dgtx (socks w fd)") (auto simp: answering_def)
  define rest where "rest = (\<lambda>dropped. if dr \<and> \<not> dropped then
          bind_io (cout (UdpAckDropped ?s)) (\<lambda>_.
          bind_io (upd_local (ack_dropped_update (\<lambda>_. True))) (\<lambda>_. ret False))
        else
          bind_io (udp_receiver_send_packet fd (ack_packet ?s) a) (\<lambda>_.
          bind_io (cout (UdpSentAck ?s)) (\<lambda>_.
          bind_io (get_local unique_received) (\<lambda>unique.
          ret ((ooo \<and> 3 \<le> sint unique) \<or> (dr \<and> ?s \<in> ?seen) \<or> (\<not> dr \<and> \<not> ooo))))))"
  have "udp_receive_pass fd dr ooo w = udp_handle fd dr ooo a p ?w1"
    using recv by (simp add: udp_receive_pass_def udp_receiver_receive_packet_def bind_io_Ok)
  also have "\<dots> = bind_io (if ?s \<in> ?seen then cout (UdpDuplicateData ?s) else process_new p)
      (\<lambda>_. bind_io (get_local ack_dropped) rest) ?w1"
    unfolding udp_handle_def rest_def by (simp only: queue(4) bind_get_local simp_thms if_False set_dgrx_simps)
  also have "\<dots> = bind_io (get_local ack_dropped) rest w2"
    by (subst bind_io_Ok [where m = "if ?s \<in> ?seen then cout (UdpDuplicateData ?s) else process_new p" and w = ?w1, OF note2]) simp
  also have "\<dots> = rest (ack_dropped (locals w)) w2"
    using w2(4) by (simp add: bind_get_local passed_def)
  finally have pass: "udp_receive_pass fd dr ooo w = rest (ack_dropped (locals w)) w2" .
  show ?thesis
  proof (cases "dr \<and> \<not> ack_dropped (locals w)")
    case True
    let ?w3 = "w2\<lparr>trace := trace w2 @ [Line (UdpAckDropped ?s)], locals := ack_dropped_update (\<lambda>_. True) (locals w2)\<rparr>"
    have "udp_receive_pass fd dr ooo w = (Ok False, ?w3)"
      using pass True by (simp add: rest_def bind_cout bind_upd_local apply_io)
    with True w2 ans show ?thesis
      by (intro exI [of _ ?w3] exI [of _ "as @ [Line (UdpAckDropped ?s)]"])
        (simp add: passed_def answering_def)
  next
    case False
    let ?w3 = "set_dgtx fd ts (w2\<lparr>trace := trace w2 @ [SentTo fd a (frame (ack_packet ?s))]\<rparr>)"
    let ?w4 = "?w3\<lparr>trace := trace ?w3 @ [Line (UdpSentAck ?s)]\<rparr>"
    have "udp_send_packet fd (ack_packet ?s) a w2 = (Ok (), ?w3)"
      using ts w2(3)
      by (simp add: udp_send_packet_def encode_small ack_packet_def bind_ret bind_io_def sys_sendto_def ret_def length_frame)
    moreover have "ooo \<Longrightarrow> 3 \<le> sint (unique_received (locals w2)) \<longleftrightarrow> 3 \<le> card (insert ?s ?seen)"
      using few w2(4) sint_counter [of "card (insert ?s ?seen)"] by (simp add: passed_def card_insert_if)
    ultimately have "udp_receive_pass fd dr ooo w = (Ok (mode_ends dr ooo ?seen ?s), ?w4)"
      using pass False w2(4)
      by (auto simp: rest_def udp_receiver_send_packet_def bind_io_Ok bind_cout bind_get_local apply_io mode_ends_def passed_def)
    with False w2 ans ts show ?thesis
      by (intro exI [of _ ?w4] exI [of _ "as @ [SentTo fd a (frame (ack_packet ?s)), Line (UdpSentAck ?s)]"])
        (simp add: answering_def)
  qed
qed

text \<open>A queue that holds the frames of the packets, with their senders' addresses.\<close>

definition carries :: "dg_event list \<Rightarrow> (addr \<times> packet) list \<Rightarrow> bool" where
  "carries ds ps \<longleftrightarrow> list_all2 (\<lambda>d (a, p). \<exists>bs. d = Datagram a bs \<and> take 1040 bs = frame p
     \<and> small p \<and> type_of p = Data) ds ps"

lemma udp_loop_refines:
  assumes "carries (dgrx (socks w fd)) ps" "counts w"
    and "card (udp_processed (locals w)) + length ps < 2 ^ 32" "answering fd (length ps) w"
    and "\<not> (dr \<and> ooo)" "ooo \<Longrightarrow> card (udp_processed (locals w)) < 3"
  shows "\<exists>w' as. trace w' = trace w @ as
    \<and> udp_receive_loop fd dr ooo w =
        (if snd (udp_spec dr ooo (ack_dropped (locals w)) (udp_processed (locals w)) ps) then Ok () else Blocked, w')
    \<and> udp_outputs as = fst (udp_spec dr ooo (ack_dropped (locals w)) (udp_processed (locals w)) ps)"
  using assms
proof (induction ps arbitrary: w)
  case Nil
  then have "dgrx (socks w fd) = []"
    by (simp add: carries_def)
  then have "udp_receive_loop fd dr ooo w = (Blocked, w)"
    by (subst udp_receive_loop.simps)
      (simp add: udp_receive_pass_def udp_receiver_receive_packet_def udp_receive_packet_def bind_io_def sys_recvfrom_def)
  then show ?case
    by (intro exI [of _ w]) simp
next
  case (Cons ap ps)
  obtain a p where ap: "ap = (a, p)"
    by (cases ap)
  with Cons.prems(1) obtain bs ds where q: "dgrx (socks w fd) = Datagram a bs # ds" "take 1040 bs = frame p"
    "small p" "type_of p = Data" and ds: "carries ds ps"
    by (auto simp: carries_def list_all2_Cons2)
  let ?seen = "udp_processed (locals w)"
  let ?seen' = "insert (sequence p) ?seen"
  have small: "card ?seen' + length ps < 2 ^ 32"
    using Cons.prems(3) card_insert_le_m1 [of "Suc (card ?seen)" ?seen "sequence p"] by (simp add: card_insert_if)
  have room: "?seen' \<noteq> UNIV"
  proof
    assume "?seen' = UNIV"
    then have "card ?seen' = 2 ^ 32"
      using card_word [where 'a = 32] by simp
    with small show False
      by simp
  qed
  have "answering fd (Suc (length ps)) w"
    using Cons.prems(4) by simp
  from udp_pass_refines [where dr = dr and ooo = ooo, OF q Cons.prems(2) room Cons.prems(6) this] obtain w1 as where
    w1: "trace w1 = trace w @ as" "dgrx (socks w1 fd) = ds" "answering fd (length ps) w1"
    and res: "if dr \<and> \<not> ack_dropped (locals w) then
         udp_receive_pass fd dr ooo w = (Ok False, w1) \<and> udp_outputs as = hand_new ?seen p
         \<and> passed p True (locals w) (locals w1)
       else udp_receive_pass fd dr ooo w = (Ok (mode_ends dr ooo ?seen (sequence p)), w1)
         \<and> udp_outputs as = hand_new ?seen p @ [Answer a (frame (ack_packet (sequence p)))]
         \<and> passed p (ack_dropped (locals w)) (locals w) (locals w1)"
    by blast
  have st: "udp_processed (locals w1) = ?seen'" "counts w1"
    using res by (auto simp: passed_def counts_def split: if_splits)
  show ?case
  proof (cases "(dr \<and> \<not> ack_dropped (locals w)) \<or> \<not> mode_ends dr ooo ?seen (sequence p)")
    case True
    with res have "udp_receive_pass fd dr ooo w = (Ok False, w1)"
      by (auto split: if_splits)
    then have again: "udp_receive_loop fd dr ooo w = udp_receive_loop fd dr ooo w1"
      by (subst udp_receive_loop.simps) simp
    have few: "ooo \<Longrightarrow> card (udp_processed (locals w1)) < 3"
      using True Cons.prems(5) st(1) by (auto simp: mode_ends_def)
    from Cons.IH [OF _ st(2) _ w1(3) Cons.prems(5) few] ds w1 st small obtain w2 bs' where "trace w2 = trace w1 @ bs'"
      "udp_receive_loop fd dr ooo w1 =
        (if snd (udp_spec dr ooo (ack_dropped (locals w1)) ?seen' ps) then Ok () else Blocked, w2)"
      "udp_outputs bs' = fst (udp_spec dr ooo (ack_dropped (locals w1)) ?seen' ps)"
      by auto
    with again w1 res True ap show ?thesis
      by (intro exI [of _ w2] exI [of _ "as @ bs'"]) (auto simp: passed_def split: if_splits prod.splits)
  next
    case False
    with res have "udp_receive_pass fd dr ooo w = (Ok True, w1)"
      by (auto split: if_splits)
    then have "udp_receive_loop fd dr ooo w = (Ok (), w1)"
      by (subst udp_receive_loop.simps) simp
    with w1 res False ap show ?thesis
      by (intro exI [of _ w1] exI [of _ as]) (auto split: if_splits)
  qed
qed

section \<open>Exceptions and the process\<close>

lemma standard_udp_pass: "raises standard (udp_receive_pass fd dr ooo)"
proof -
  have "raises standard advance_expected"
    unfolding advance_expected_def raises_def by (auto simp: upd_local_def split: option.splits)
  then have "raises standard (udp_handle fd dr ooo a p)" for a p
    unfolding udp_handle_def process_new_def udp_receiver_send_packet_def
    by (intro raises_rules raises_udp_send) simp_all
  then have "raises standard (case r of (a, p) \<Rightarrow> udp_handle fd dr ooo a p)" for r :: "addr \<times> packet"
    by (cases r) simp
  then show ?thesis
    unfolding udp_receive_pass_def udp_receiver_receive_packet_def by (intro raises_bind raises_udp_receive) simp_all
qed

lemma standard_udp_loop: "raises standard (udp_receive_loop fd dr ooo)"
proof -
  have "udp_receive_loop fd dr ooo w = (Throw e, w') \<Longrightarrow> standard e" for w e w'
  proof (induction fd dr ooo w rule: udp_receive_loop.induct)
    case (1 fd dr ooo w)
    from "1.prems" [unfolded udp_receive_loop.simps [of fd dr ooo w]] show ?case
      using "1.IH" raisesD [OF standard_udp_pass, of fd dr ooo w]
      by (auto split: prod.splits result.splits bool.splits)
  qed
  then show ?thesis
    by (rule raisesI)
qed

lemma standard_udp_receiver_body: "raises standard (udp_receiver_body args)"
proof (cases "udp_receiver_mode args")
  case (Inr mode)
  obtain dr ooo where "mode = (dr, ooo)"
    by (cases mode)
  with Inr show ?thesis
    unfolding udp_receiver_body_def create_socket_def
    by (simp only: sum.case prod.case) (intro raises_rules standard_udp_loop; simp)
qed (simp add: udp_receiver_body_def raises_throw)

lemma udp_receiver_body_Ok: "udp_receiver_body args w = (Ok c, w') \<Longrightarrow> c = 0"
  by (auto simp: udp_receiver_body_def bind_io_eq_Ok throw_def ret_def split: sum.splits prod.splits)

section \<open>Properties\<close>

text \<open>
  C25: delivery and acknowledgement in every run of the UDP receiver. Whatever arrives, no
  sequence number is handed to the application twice; what is handed over is DATA that a
  datagram of its queue carried with a valid checksum; every duplicate notice and everything
  sent is about a number handed over before, and only ACK frames are sent.
\<close>

theorem udp_receiver_safe:
  "\<exists>as. trace (snd (udp_receiver_main args w)) = trace w @ as \<and> udp_monitor {} as
    \<and> distinct (map fst (udp_delivered as))
    \<and> list_all (\<lambda>(s, pl). data_queued (opened_queue w) s pl) (udp_delivered as)"
proof -
  from udp_main_run_ok [of w args] obtain as where as: "trace (snd (udp_receiver_main args w)) = trace w @ as"
    "variables_ok as (locals (snd (udp_receiver_main args w))) \<or> list_all quiet_event as"
    "\<forall>(s, pl) \<in> set (udp_delivered as). data_queued (opened_queue w) s pl"
    by (auto simp: run_ok_def)
  have "udp_monitor seen as" if "list_all quiet_event as" for seen
    using that by (induction as) (auto simp: quiet_event_def)
  with as(2) have "udp_monitor {} as"
    by (auto simp: variables_ok_def)
  with as udp_monitor_distinct [OF this] show ?thesis
    by (auto simp: list_all_iff)
qed

text \<open>
  C29: the variables tell the truth. At the end of every run that has reached the loop, and
  wherever it stops inside, the processed numbers are those handed over, the 32-bit counter
  is their number modulo \<open>2 ^ 32\<close>, so with its sign it is their number below \<open>2 ^ 31\<close>, all
  numbers below the expected one have been processed, and the expected one has not, unless
  all numbers have.
\<close>

theorem udp_receiver_variables:
  "\<exists>as. trace (snd (udp_receiver_main args w)) = trace w @ as
    \<and> (variables_ok as (locals (snd (udp_receiver_main args w)))
       \<or> list_all quiet_event as \<and> locals (snd (udp_receiver_main args w)) = locals w)"
  using udp_main_run_ok [of w args] unfolding run_ok_def by blast

text \<open>
  C30: the loop on the expected number ends exactly when some number has not been processed;
  it then stops at the first such number from where it stands, wrapping at 32 bits.
\<close>

theorem next_expected_first_gap:
  "case next_expected P e of
     None \<Rightarrow> P = UNIV
   | Some g \<Rightarrow> g \<notin> P \<and> (\<exists>k. g = e + of_nat k \<and> (\<lambda>j. e + of_nat j) ` {..<k} \<subseteq> P)"
proof (cases "next_expected P e")
  case None
  show ?thesis
    unfolding None option.case using next_expected_ends [of P e] None by blast
next
  case (Some g)
  let ?I = "\<lambda>t. \<exists>k. t = e + of_nat k \<and> (\<lambda>j. e + of_nat j) ` {..<k} \<subseteq> P"
  have step: "?I (t + 1)" if "?I t" "t \<in> P" for t
  proof -
    from that obtain k where "t = e + of_nat k" "(\<lambda>j. e + of_nat j) ` {..<k} \<subseteq> P"
      by blast
    with that(2) show ?thesis
      by (intro exI [of _ "Suc k"]) (auto simp: lessThan_Suc algebra_simps)
  qed
  have start: "?I e"
    by (intro exI [of _ 0]) simp
  have "?I g"
    using Some unfolding next_expected_def by (rule while_option_rule [where P = ?I, rotated]) (use start step in blast)+
  moreover have "g \<notin> P"
    using while_option_stop [OF Some [unfolded next_expected_def]] by simp
  ultimately show ?thesis
    using Some by simp
qed

lemma udp_main_refines:
  assumes "udp_receiver_mode args = Inr (dr, ooo)"
    and "fds w = Inr (fd, sk) # fs" "calls w = None # cs"
    and "carries (dgrx sk) ps" "length ps < 2 ^ 32"
    and "length ps \<le> length (dgtx sk)" "list_all (\<lambda>e. \<exists>k \<ge> 16. e = TxAccept k) (dgtx sk)"
  shows "\<exists>w' as. udp_receiver_main args w = (if snd (udp_spec dr ooo False {} ps) then Ok 0 else Blocked, w')
    \<and> trace w' = trace w @ as \<and> udp_outputs as = fst (udp_spec dr ooo False {} ps)"
proof -
  let ?w1 = "w\<lparr>fds := fs, socks := (socks w)(fd := sk), calls := cs\<rparr>"
  let ?lines = "[Line (UdpListeningOnPort udp_kPort)] @ (if dr then [Line UdpDropFirstAckMode] else [])
      @ (if ooo then [Line UdpOutOfOrderMode] else [])"
  let ?w2 = "?w1\<lparr>trace := trace w @ ?lines, locals := initial_state\<rparr>"
  have create: "create_socket w = (Ok fd, ?w1)"
    using assms(2,3) by (simp add: create_socket_def bind_io_def sys_open_def sys_call_def ret_def)
  have body: "udp_receiver_body args w = bind_io (udp_receive_loop fd dr ooo)
      (\<lambda>_. bind_io (sys_close fd) (\<lambda>_. ret 0)) ?w2"
    using create by (simp add: udp_receiver_body_def assms(1) bind_io_Ok bind_cout bind_ret bind_upd_local)
  have init: "ack_dropped initial_state = False" "udp_processed initial_state = {}" "unique_received initial_state = 0"
    by (simp_all add: initial_state_def)
  have "\<not> (dr \<and> ooo)"
    using assms(1) by (cases args) (auto split: if_splits)
  with udp_loop_refines [of ?w2 fd ps dr ooo] assms(4-7) obtain w' as where
    loop: "udp_receive_loop fd dr ooo ?w2 = (if snd (udp_spec dr ooo False {} ps) then Ok () else Blocked, w')"
    and w': "trace w' = trace w @ ?lines @ as" "udp_outputs as = fst (udp_spec dr ooo False {} ps)"
    by (auto simp: counts_def answering_def init)
  show ?thesis
  proof (cases "snd (udp_spec dr ooo False {} ps)")
    case True
    let ?fin = "w'\<lparr>trace := trace w' @ [Closed fd]\<rparr>"
    have "udp_receiver_main args w = (Ok 0, ?fin)"
      using True loop body by (simp add: udp_receiver_main_def catch_io_def bind_io_Ok bind_close apply_io)
    with True w' show ?thesis
      by (intro exI [of _ ?fin] exI [of _ "?lines @ as @ [Closed fd]"]) simp
  next
    case False
    have "udp_receiver_main args w = (Blocked, w')"
      using False loop body by (simp add: udp_receiver_main_def catch_io_def bind_io_Blocked)
    with False w' show ?thesis
      by (intro exI [of _ w'] exI [of _ "?lines @ as"]) simp
  qed
qed

text \<open>
  C24: the receiver refines the abstract machine. Started in one of its modes on a free port,
  with a queue of datagrams that carry DATA packets, and a socket that takes the answers, it
  hands over and answers exactly what \<open>udp_spec\<close> prescribes, to the addresses the datagrams
  came from, and returns 0 exactly if the mode has ended; otherwise it waits for more.
\<close>

theorem udp_receiver_refines:
  assumes "udp_receiver_mode args = Inr (dr, ooo)"
    and "fds w = Inr (fd, sk) # fs" "calls w = None # cs"
    and "carries (dgrx sk) ps" "length ps < 2 ^ 32"
    and "length ps \<le> length (dgtx sk)" "list_all (\<lambda>e. \<exists>k \<ge> 16. e = TxAccept k) (dgtx sk)"
  shows "\<exists>w' as. udp_receiver_main args w = (if snd (udp_spec dr ooo False {} ps) then Ok 0 else Blocked, w')
    \<and> trace w' = trace w @ as \<and> udp_outputs as = fst (udp_spec dr ooo False {} ps)"
  using assms by (rule udp_main_refines)

text \<open>The out-of-order test: 1, 3, a repeated 1, and 2 from one address.\<close>

definition numbered :: "u32 \<Rightarrow> packet" where
  "numbered s = \<lparr>type_of = Data, sequence = s, payload = [104]\<rparr>"

lemma numbered_simps [simp]: "type_of (numbered s) = Data" "sequence (numbered s) = s" "payload (numbered s) = [104]"
  "small (numbered s)"
  by (simp_all add: numbered_def small_def kMaxPayloadSize_def)

theorem udp_receiver_refines_witness:
  "\<exists>w' as. udp_receiver_main [''out-of-order'']
      ((idle_world initial_state)\<lparr>calls := [None], fds := [Inr (4, idle_sock\<lparr>
         dgrx := map (\<lambda>s. Datagram (9, 9) (frame (numbered s))) [1, 3, 1, 2], dgtx := replicate 4 (TxAccept 16)\<rparr>)]\<rparr>) =
      (Ok 0, w')
    \<and> trace w' = as \<and> udp_outputs as =
      [Hand 1 [104], Answer (9, 9) (frame (ack_packet 1)), Hand 3 [104], Answer (9, 9) (frame (ack_packet 3)),
       Answer (9, 9) (frame (ack_packet 1)), Hand 2 [104], Answer (9, 9) (frame (ack_packet 2))]"
proof -
  let ?ps = "map (\<lambda>s. ((9, 9), numbered s)) [1, 3, 1, 2] :: (addr \<times> packet) list"
  let ?sk = "idle_sock\<lparr>dgrx := map (\<lambda>s. Datagram (9, 9) (frame (numbered s))) [1, 3, 1, 2], dgtx := replicate 4 (TxAccept 16)\<rparr>"
  have "carries (dgrx ?sk) ?ps"
    by (simp add: carries_def take_frame)
  moreover have "list_all (\<lambda>e. \<exists>k \<ge> 16. e = TxAccept k) (dgtx ?sk)"
    by (simp add: list_all_iff)
  moreover have "udp_spec False True False {} ?ps =
      ([Hand 1 [104], Answer (9, 9) (frame (ack_packet 1)), Hand 3 [104], Answer (9, 9) (frame (ack_packet 3)),
       Answer (9, 9) (frame (ack_packet 1)), Hand 2 [104], Answer (9, 9) (frame (ack_packet 2))], True)"
    by (simp add: mode_ends_def hand_new_def card_insert_if)
  ultimately show ?thesis
    using udp_receiver_refines [of "[''out-of-order'']" False True
        "(idle_world initial_state)\<lparr>calls := [None], fds := [Inr (4, ?sk)]\<rparr>" 4 ?sk "[]" "[]" ?ps]
    by auto
qed

text \<open>
  The exit status of the UDP receiver. It is still waiting, or it has returned 0, or 1
  after reporting an error as its last output; an unknown mode is refused before any socket
  is opened.
\<close>

theorem udp_receiver_outcome:
  "case udp_receiver_main args w of (x, w') \<Rightarrow>
     (x = Blocked \<or> x = Ok 0 \<or> x = Ok 1 \<and> (\<exists>m. last (trace w') = Line (UdpReceiverError m)))
     \<and> (case udp_receiver_mode args of
          Inl m \<Rightarrow> x = Ok 1 \<and> w' = w\<lparr>trace := trace w @ [Line (UdpReceiverError (Msg m))]\<rparr>
        | Inr mode \<Rightarrow> True)"
proof -
  obtain x v where run: "udp_receiver_body args w = (x, v)"
    by fastforce
  have "x = Blocked \<or> x = Ok 0 \<or> (\<exists>e m. x = Throw e \<and> std_what e = Some m)"
    using run raisesD [OF standard_udp_receiver_body, of args w] udp_receiver_body_Ok [of args w]
    by (cases x) (auto simp: standard_def)
  with run show ?thesis
    by (auto simp: udp_receiver_main_def catch_io_def io_simps udp_receiver_body_def split: sum.splits)
qed

end
