(* ===== verification/Spec2Isabelle.thy ===== *)
theory Spec2Isabelle
  imports TcpEndToEnd UdpSenderProgram UdpReceiverProgram
begin

text \<open>
  Verification of the embedded communication testbed: five C++ programs that exchange packets
  of one binary protocol over TCP and UDP (sources under \<open>src/\<close>).

  \<^bold>\<open>The programs.\<close> \<open>src/protocol\<close> is the shared library: packets, CRC-32, encoder and decoder.
  The TCP sender (\<open>src/tcp/sender.cpp\<close>) connects to port 5000, sends one DATA packet with up to
  four attempts, then three heartbeats, reconnecting when a heartbeat fails. On port 5000 the
  fault injector (\<open>src/fault_injector/tcp_proxy.cpp\<close>) relays packets to the TCP receiver on
  port 5001 and back, with one of five fault modes. The TCP receiver
  (\<open>src/tcp/receiver.cpp\<close>) serves one connection after the other, answers DATA with ACK and
  HEARTBEAT with HEARTBEAT_ACK, and remembers the DATA sequence numbers over all connections.
  The UDP sender (\<open>src/udp/sender.cpp\<close>) and receiver (\<open>src/udp/receiver.cpp\<close>) do the same
  with one packet per datagram, an out-of-order mode and, at the receiver, a mode that drops
  the first ACK.

  \<^bold>\<open>The model of the operating system\<close> (\<open>Posix\<close>, \<open>Worlds\<close>). A program is a function from a
  \<open>world\<close> to a result (\<open>Ok\<close>, \<open>Throw\<close>, or \<open>Blocked\<close> for a call that never returns) and a world.
  The world holds a script for every kind of call: clock readings, poll results, the segments
  and errors on each stream socket, the datagrams of each datagram socket, how much each send
  accepts, the descriptors that are opened, the results of \<open>bind\<close>, \<open>connect\<close> and the like. All
  theorems quantify over the scripts, so they hold for every behaviour of kernel and network
  allowed by the documentation of the calls. Output lines, bytes sent, shut down and closed
  descriptors, polls and sleeps are recorded in the trace. C++ exceptions are values; the
  handlers of \<open>main\<close> are \<open>catch_io\<close>. The text of an exception is a literal or a prefix with the
  errno of the failed call; that \<open>close\<close> may change errno before \<open>strerror\<close> reads it is not
  modelled. A \<open>send\<close> on a broken connection answers with \<open>EPIPE\<close>; a SIGPIPE that kills the
  process is a run that stops there.

  \<^bold>\<open>Theories and code.\<close>
  \<^item> \<open>Prelude\<close>: words, lists, the collections of simplification rules.
  \<^item> \<open>Crc32\<close>: \<open>crc32\<close> of \<open>crc32.cpp\<close> bit by bit; it is the remainder of the CRC-32 polynomial
    division, it equals the table-driven routine, and it changes under short bursts.
  \<^item> \<open>Codec\<close>: \<open>packet.hpp\<close> and \<open>codec.cpp\<close>: \<open>encode_packet\<close>, \<open>get_payload_length\<close>,
    \<open>decode_packet\<close> with all errors, the byte-order helpers for either host; the decoder accepts
    exactly the images of the encoder.
  \<^item> \<open>Streams\<close>, \<open>Framing\<close>: the loops of \<open>send_all\<close> and \<open>recv_exact\<close> that the TCP programs share,
    what they put on and take from a stream, and the locale of a reader on top of which
    \<open>receive_packet\<close> is correct; it is interpreted for blocking sockets, open and ended, and for
    the deadline reader of the sender.
  \<^item> \<open>Delivery\<close>: the specification machine \<open>serve_spec\<close> of a receiver, and the locale of a
    trace of deliveries under a monitor, interpreted for both receivers.
  \<^item> \<open>TcpReceiver\<close>, \<open>TcpSessions\<close>, \<open>ReceiverRuns\<close>, \<open>ReceiverEvents\<close>: all functions of
    \<open>tcp/receiver.cpp\<close>; the invariant of the process, refinement of \<open>serve_spec\<close> over sessions and
    reconnections and for one connection under any behaviour of the peer, and a machine for
    the order of all events of a run, the bytes it sends included.
  \<^item> \<open>TcpSender\<close>, \<open>SenderWait\<close>, \<open>SenderDeadline\<close>, \<open>Transmissions\<close>, \<open>SenderProgram\<close>: all functions
    of \<open>tcp/sender.cpp\<close>; what a wait with an absolute deadline reads, accepts and raises, what
    the program transmits, its retries, reconnections and exit status.
  \<^item> \<open>FaultInjector\<close>, \<open>ProxyRelay\<close>, \<open>ProxyProgram\<close>: all functions of \<open>tcp_proxy.cpp\<close>; the relay
    refines a transducer \<open>relay_run\<close> of packets, faults are applied once, exceptions stay inside
    a connection.
  \<^item> \<open>Datagrams\<close>: \<open>receive_packet\<close> and \<open>send_packet\<close> of the UDP programs.
  \<^item> \<open>UdpSender\<close>, \<open>UdpSenderProgram\<close>: all functions of \<open>udp/sender.cpp\<close>; what a wait accepts,
    retransmission under losses, the bound on attempts, exit status.
  \<^item> \<open>UdpReceiver\<close>, \<open>UdpReceiverProgram\<close>: all functions of \<open>udp/receiver.cpp\<close>; the truth of its
    variables, safety of every run, refinement of the machine \<open>udp_spec\<close>.
  \<^item> \<open>TcpEndToEnd\<close>: sender, fault injector and receiver connected by TCP streams: an
    acknowledged message has been delivered exactly once and undamaged.
  \<^item> This theory: the UDP programs connected by a network that loses, repeats and reorders.

  \<^bold>\<open>Termination and bounds.\<close> No definition takes fuel. Every loop that consumes input of the
  environment recurses on the length of the script it consumes: \<open>recv_exact\<close>, \<open>serve_connection\<close>
  and \<open>relay_connection\<close> on the events of the sockets or the poll script, the accept loops on the
  descriptors still to be opened, the deadline loops on the clock readings, the UDP loops on
  clock readings or datagrams. A real infinite run is the limit of these finite ones. The retry
  loops recurse on the attempts left. The only loop without such a measure is the one on
  \<open>expected_sequence\<close> of the UDP receiver; it is a \<open>while_option\<close> on 32-bit words, \<open>None\<close> exactly
  if all \<open>2 ^ 32\<close> numbers have been processed. The counter \<open>unique_received\<close>
  of the UDP receiver is a 32-bit word read as signed.

  \<^bold>\<open>Not modelled.\<close> The kernel beyond the documented behaviour above, the formatting of output
  lines (they are constructors with the printed values), destruction of buffers, the build
  description \<open>src/CMakeLists.txt\<close>, the Python scripts, recorded results and images under
  \<open>src/reliability_verification\<close>, and the prose under \<open>src/docs\<close>.
\<close>

section \<open>UDP end to end\<close>

text \<open>
  Two runs are connected by a network that may lose, repeat and reorder datagrams but not
  invent them: every datagram in the queue of one side is among those the other has sent.
\<close>

definition sent_datagram :: "'l action list \<Rightarrow> bytes \<Rightarrow> bool" where
  "sent_datagram as bs \<longleftrightarrow> (\<exists>fd a. SentTo fd a bs \<in> set as)"

definition carried_from :: "dg_event list \<Rightarrow> 'l action list \<Rightarrow> bool" where
  "carried_from ds as \<longleftrightarrow> (\<forall>a bs. Datagram a bs \<in> set ds \<longrightarrow> sent_datagram as bs)"

lemma ack_sent_delivered:
  assumes "udp_monitor {} as" "sent_datagram as bs" "take 1040 bs = frame (ack_packet s)"
  shows "s \<in> fst ` set (udp_delivered as)"
proof -
  from assms(2) obtain fd a where "SentTo fd a bs \<in> set as"
    by (auto simp: sent_datagram_def)
  from udp_monitor_sent [OF assms(1) this] obtain s' where
    s': "s' \<in> fst ` set (udp_delivered as)" "prefix bs (frame (ack_packet s'))"
    by auto
  then have "prefix (frame (ack_packet s)) (frame (ack_packet s'))"
    using assms(3) take_is_prefix [of 1040 bs] by (auto intro: prefix_order.trans)
  then have "ack_packet s = ack_packet s'"
    by (intro frame_prefix_inject [of _ "frame (ack_packet s')"]) simp_all
  with s'(1) show ?thesis
    by (simp add: ack_packet_def)
qed

lemma messages_small: "p \<in> set (udp_messages ooo) \<Longrightarrow> small p \<and> type_of p = Data"
  by (auto simp: udp_messages_def small_def kMaxPayloadSize_def message_text_def hello_udp_def split: if_splits)

text \<open>Every datagram the sender sends is a prefix of the frame of one of its messages.\<close>

lemma blocks_of_messages:
  assumes "list_all2 (datagram_to a) ps blocks" "SentTo fd b bs \<in> set (concat blocks)"
  shows "\<exists>p \<in> set ps. prefix bs (frame p)"
  using assms by (induction rule: list_all2_induct) (auto simp: datagram_to_def)

lemma set_replicated: "set (concat (map2 replicate ns ps)) \<subseteq> set ps"
  by (induction ns ps rule: list_induct2') auto

lemma udp_sender_sends:
  assumes "udp_sender_mode args = Inr ooo"
  shows "\<exists>as. trace (snd (udp_sender_main args w)) = trace w @ as
    \<and> (\<forall>fd a bs. SentTo fd a bs \<in> set as \<longrightarrow> (\<exists>p \<in> set (udp_messages ooo). prefix bs (frame p)))"
proof -
  from emits_udp_sender_main [OF assms] obtain ps where ps: "ps \<in> message_runs (udp_messages ooo)"
    "transmits (datagram_to kReceiverAddress) ps w (snd (udp_sender_main args w))"
    unfolding emits_def by blast
  from ps(1) obtain ns where "ps = concat (map2 replicate ns (udp_messages ooo))"
    unfolding message_runs_def by blast
  then have "set ps \<subseteq> set (udp_messages ooo)"
    by (simp only: set_replicated)
  moreover from ps(2) obtain as blocks where as: "trace (snd (udp_sender_main args w)) = trace w @ as"
    "filter is_sent as = concat blocks" "list_all2 (datagram_to kReceiverAddress) ps blocks"
    by (auto simp: transmits_def)
  moreover have "\<exists>p \<in> set ps. prefix bs (frame p)" if "SentTo fd a bs \<in> set as" for fd a bs
  proof -
    from that have "SentTo fd a bs \<in> set (filter is_sent as)"
      by simp
    with blocks_of_messages [OF as(3)] as(2) show ?thesis
      by simp
  qed
  ultimately show ?thesis
    by blast
qed

lemma data_sent_message:
  assumes "sent_datagram as bs" "\<forall>fd a bs. SentTo fd a bs \<in> set as \<longrightarrow> (\<exists>p \<in> set (udp_messages ooo). prefix bs (frame p))"
    and "take 1040 bs = frame p" "small p"
  shows "p \<in> set (udp_messages ooo)"
proof -
  from assms(1,2) obtain q where q: "q \<in> set (udp_messages ooo)" "prefix bs (frame q)"
    unfolding sent_datagram_def by blast
  then have "prefix (frame p) (frame q)"
    using assms(3) take_is_prefix [of 1040 bs] by (auto intro: prefix_order.trans)
  then have "p = q"
    using assms(4) messages_small [OF q(1)] by (intro frame_prefix_inject [of _ "frame q"]) simp_all
  with q(1) show ?thesis
    by simp
qed

text \<open>
  C2: the UDP programs together deliver exactly once. A sender and a receiver are connected
  by a network that loses, repeats and reorders datagrams at will but invents none. If the
  sender returns 0, the receiver has handed over every message of the sender's mode, with
  the payload that was sent, each exactly once, and nothing else.
\<close>

theorem udp_exactly_once:
  assumes "udp_sender_main sargs ws = (Ok 0, ws')" "trace ws' = trace ws @ sent"
    and "trace (snd (udp_receiver_main rargs wr)) = trace wr @ received"
    and "fds ws = Inr (fd, sk) # more_fds"
    and "carried_from (dgrx sk) received" "carried_from (opened_queue wr) sent"
  shows "\<exists>ooo. udp_sender_mode sargs = Inr ooo \<and> distinct (map fst (udp_delivered received))
    \<and> set (udp_delivered received) = (\<lambda>p. (sequence p, payload p)) ` set (udp_messages ooo)"
proof -
  from assms(1) have "udp_sender_body sargs ws = (Ok 0, ws')"
    by (cases rule: udp_sender_main_cases [of sargs ws]) simp_all
  then obtain ooo where mode: "udp_sender_mode sargs = Inr ooo"
    and acked: "\<forall>p \<in> set (udp_messages ooo). ack_queued (dgrx sk) (sequence p)"
    using assms(4) by (elim udp_body_success) auto
  from udp_sender_sends [OF mode, of ws] assms(1,2)
  have only: "\<forall>fd a bs. SentTo fd a bs \<in> set sent \<longrightarrow> (\<exists>p \<in> set (udp_messages ooo). prefix bs (frame p))"
    by auto
  from udp_main_run_ok [of wr rargs] assms(3) have
    ok: "variables_ok received (locals (snd (udp_receiver_main rargs wr))) \<or> list_all quiet_event received"
    and src: "\<forall>(s, pl) \<in> set (udp_delivered received). data_queued (opened_queue wr) s pl"
    by (auto simp: run_ok_def)
  have "udp_monitor seen received" if "list_all quiet_event received" for seen
    using that by (induction received) (auto simp: quiet_event_def)
  with ok have monitor: "udp_monitor {} received"
    by (auto simp: variables_ok_def)
  have only_sent: "(s, pl) \<in> (\<lambda>p. (sequence p, payload p)) ` set (udp_messages ooo)"
    if "(s, pl) \<in> set (udp_delivered received)" for s pl
  proof -
    from src that obtain a bs where bs: "Datagram a bs \<in> set (opened_queue wr)"
      "take 1040 bs = frame \<lparr>type_of = Data, sequence = s, payload = pl\<rparr>" "length pl \<le> kMaxPayloadSize"
      by (auto simp: data_queued_def)
    with assms(6) have "sent_datagram sent bs"
      unfolding carried_from_def by blast
    from data_sent_message [OF this only bs(2)] bs(3) show ?thesis
      by (force simp: small_def)
  qed
  have "(sequence p, payload p) \<in> set (udp_delivered received)" if "p \<in> set (udp_messages ooo)" for p
  proof -
    from acked that obtain a bs where "Datagram a bs \<in> set (dgrx sk)" "take 1040 bs = frame (ack_packet (sequence p))"
      by (auto simp: ack_queued_def)
    with assms(5) ack_sent_delivered [OF monitor] have "sequence p \<in> fst ` set (udp_delivered received)"
      unfolding carried_from_def by blast
    then obtain pl where pl: "(sequence p, pl) \<in> set (udp_delivered received)"
      by auto
    from only_sent [OF pl] obtain q where "q \<in> set (udp_messages ooo)" "sequence q = sequence p" "payload q = pl"
      by auto
    with that have "payload p = pl"
      by (auto simp: udp_messages_def split: if_splits)
    with pl show ?thesis
      by simp
  qed
  with only_sent have "set (udp_delivered received) = (\<lambda>p. (sequence p, payload p)) ` set (udp_messages ooo)"
    by auto
  with mode udp_monitor_distinct [OF monitor] show ?thesis
    by blast
qed

text \<open>One message, its ACK, and the two programs that exchange them.\<close>

definition hello_sock :: sock where
  "hello_sock = idle_sock\<lparr>dgrx := [Datagram kReceiverAddress (frame (ack_packet 1))], dgtx := [TxAccept 1040]\<rparr>"

definition hello_sender :: udp_sender_world where
  "hello_sender = (idle_world \<lparr>completed_sequences = {}\<rparr>)\<lparr>
     fds := [Inr (4, hello_sock)],
     calls := [None], ticks := [5, 6, 7], polls := [PollReturn [{POLLIN}]]\<rparr>"

definition hello_receiver :: udp_receiver_world where
  "hello_receiver = (idle_world initial_state)\<lparr>
     fds := [Inr (3, idle_sock\<lparr>dgrx := [Datagram (9, 9) (frame (udp_data_packet 1 hello_udp))], dgtx := [TxAccept 16]\<rparr>)],
     calls := [None]\<rparr>"

lemma hello_sender_run:
  "\<exists>w'. udp_sender_main [] hello_sender = (Ok 0, w')
    \<and> trace w' = acknowledged_attempt 4 kReceiverAddress 1 hello_udp 1 6 @ [Closed 4]"
proof -
  let ?w = "hello_sender\<lparr>fds := [], socks := (socks hello_sender)(4 := hello_sock), calls := [],
    locals := \<lparr>completed_sequences = {}\<rparr>\<rparr>"
  have "\<exists>w'. udp_send_from 4 kReceiverAddress 1 hello_udp 1 ?w = (Ok (), w')
      \<and> trace w' = trace ?w @ acknowledged_attempt 4 kReceiverAddress 1 hello_udp 1 6
      \<and> completed_sequences (locals w') = insert 1 (completed_sequences (locals ?w))"
    by (rule attempt_acknowledged, simp_all add: hello_sender_def hello_sock_def take_frame hello_udp_def kMaxPayloadSize_def) simp
  then obtain w' where w': "udp_send_from 4 kReceiverAddress 1 hello_udp 1 ?w = (Ok (), w')"
    "trace w' = acknowledged_attempt 4 kReceiverAddress 1 hello_udp 1 6"
    by (auto simp: hello_sender_def)
  have "udp_sender_body [] hello_sender = bind_io (udp_send_from 4 kReceiverAddress 1 hello_udp 1)
      (\<lambda>_. bind_io (sys_close 4) (\<lambda>_. ret 0)) ?w"
    by (simp add: udp_sender_body_def hello_sender_def bind_io_def sys_open_def create_receiver_address_def
        sys_call_def ret_def upd_local_def udp_send_all_messages_def send_data_with_retry_def)
  then have "udp_sender_main [] hello_sender = (Ok 0, w'\<lparr>trace := trace w' @ [Closed 4]\<rparr>)"
    using w'(1) by (simp add: udp_sender_main_def catch_io_def bind_io_Ok bind_close apply_io)
  with w'(2) show ?thesis
    by simp
qed

lemma hello_receiver_run:
  "\<exists>fd as. trace (snd (udp_receiver_main [] hello_receiver)) = as
    \<and> SentTo fd (9, 9) (frame (ack_packet 1)) \<in> set as"
proof -
  let ?ps = "[((9, 9), udp_data_packet 1 hello_udp)]"
  have "carries (dgrx (idle_sock\<lparr>dgrx := [Datagram (9, 9) (frame (udp_data_packet 1 hello_udp))], dgtx := [TxAccept 16]\<rparr>)) ?ps"
    by (simp add: carries_def take_frame small_def udp_data_packet_def hello_udp_def kMaxPayloadSize_def)
  then obtain as where as: "trace (snd (udp_receiver_main [] hello_receiver)) = as"
    "udp_outputs as = fst (udp_spec False False False {} ?ps)"
    using udp_main_refines [of "[]" False False hello_receiver 3 _ "[]" "[]" ?ps]
    by (force simp: hello_receiver_def)
  then have "Answer (9, 9) (frame (ack_packet 1)) \<in> set (udp_outputs as)"
    by (simp add: mode_ends_def hand_new_def udp_data_packet_def)
  then have "\<exists>fd. SentTo fd (9, 9) (frame (ack_packet 1)) \<in> set as"
    by (simp add: answered)
  with as(1) show ?thesis
    by blast
qed

theorem udp_exactly_once_witness:
  "set (udp_delivered (trace (snd (udp_receiver_main [] hello_receiver)))) = {(1, hello_udp)}"
proof -
  obtain w' where sender: "udp_sender_main [] hello_sender = (Ok 0, w')"
    "trace w' = acknowledged_attempt 4 kReceiverAddress 1 hello_udp 1 6 @ [Closed 4]"
    using hello_sender_run by blast
  let ?received = "trace (snd (udp_receiver_main [] hello_receiver))"
  obtain fd where "SentTo fd (9, 9) (frame (ack_packet 1)) \<in> set ?received"
    using hello_receiver_run by blast
  then have "carried_from [Datagram kReceiverAddress (frame (ack_packet 1))] ?received"
    unfolding carried_from_def sent_datagram_def by auto
  then have acks: "carried_from (dgrx hello_sock) ?received"
    by (simp add: hello_sock_def)
  have data: "carried_from (opened_queue hello_receiver) (trace w')"
    unfolding carried_from_def sent_datagram_def sender(2)
    by (auto simp: hello_receiver_def opened_queue_def acknowledged_attempt_def)
  have fds: "fds hello_sender = Inr (4, hello_sock) # []" and sent: "trace w' = trace hello_sender @ trace w'"
    by (simp_all add: hello_sender_def)
  have "?received = trace hello_receiver @ ?received"
    by (simp add: hello_receiver_def)
  from udp_exactly_once [OF sender(1) sent this fds acks data] show ?thesis
    by (auto simp: udp_messages_def udp_data_packet_def)
qed

end
